(* ===== verification/Kernel_Prelude.thy ===== *)
theory Kernel_Prelude
  imports Main "HOL-Library.Word"
begin

text \<open>
  Shared ground of the BT/OS kernel development: the machine integer types of the
  32-bit kernel, the ways in which a kernel operation can fail, and the facts on
  lists and words that several components use.

  An operation that can fail returns \<open>kernel_error + 'a\<close>. \<open>Panic\<close> is a call of
  the kernel's \<open>panic\<close> with its message, \<open>Thrown\<close> is a C++ \<open>throw int(n)\<close>,
  \<open>Undefined\<close> is an access the C++ program makes outside the object it owns, and
  \<open>Terminated\<close> says that the calling process was ended, so that the call does not return.
  An operation that can put its thread to sleep returns a \<open>blocking\<close> value.
\<close>

type_synonym u8 = "8 word"
type_synonym u16 = "16 word"
type_synonym u32 = "32 word"
type_synonym u64 = "64 word"

datatype kernel_error = Panic string | Thrown nat | Undefined | Terminated

type_synonym 'a result = "kernel_error + 'a"

datatype 'a blocking = Returned 'a | Sleeps 'a | Failed kernel_error

named_theorems vec_simps \<open>list-level reading of the vector operations\<close>
named_theorems kmap_simps \<open>lookup-level reading of the map operations\<close>

definition bind_result :: "'a result \<Rightarrow> ('a \<Rightarrow> 'b result) \<Rightarrow> 'b result" where
  "bind_result r f = (case r of Inl e \<Rightarrow> Inl e | Inr x \<Rightarrow> f x)"

lemma bind_result_simps [simp]:
  "bind_result (Inl e) f = Inl e"
  "bind_result (Inr x) f = f x"
  by (simp_all add: bind_result_def)

lemma bind_result_Inr_iff:
  "bind_result r f = Inr y \<longleftrightarrow> (\<exists>x. r = Inr x \<and> f x = Inr y)"
  by (cases r) (simp_all add: bind_result_def)

section \<open>First match in a list\<close>

text \<open>The position of the first element that satisfies a predicate, as the kernel's
  linear search loops compute it.\<close>

primrec find_index :: "('a \<Rightarrow> bool) \<Rightarrow> 'a list \<Rightarrow> nat option" where
  "find_index P [] = None"
| "find_index P (x # xs) =
     (if P x then Some 0 else map_option Suc (find_index P xs))"

lemma find_index_None_iff: "find_index P xs = None \<longleftrightarrow> (\<forall>x \<in> set xs. \<not> P x)"
  by (induction xs) auto

lemma find_index_SomeD:
  "find_index P xs = Some i \<Longrightarrow> i < length xs \<and> P (xs ! i) \<and> (\<forall>j < i. \<not> P (xs ! j))"
proof (induction xs arbitrary: i)
  case Nil
  then show ?case by simp
next
  case (Cons x xs)
  show ?case
  proof (cases "P x")
    case True
    with Cons.prems show ?thesis by simp
  next
    case False
    with Cons.prems obtain k where k: "find_index P xs = Some k" "i = Suc k"
      by auto
    with Cons.IH [OF k(1)] False show ?thesis
      by (auto simp: less_Suc_eq_0_disj)
  qed
qed

lemma find_index_Some_bound: "find_index P xs = Some i \<Longrightarrow> i < length xs"
  by (drule find_index_SomeD) simp

lemma find_index_Some_ex: "find_index P xs = Some i \<Longrightarrow> \<exists>x \<in> set xs. P x"
  by (drule find_index_SomeD) (auto intro: nth_mem)

lemma find_index_ex_iff: "find_index P xs \<noteq> None \<longleftrightarrow> (\<exists>x \<in> set xs. P x)"
  by (auto simp: find_index_None_iff)

lemma find_index_find: "map_option ((!) xs) (find_index P xs) = List.find P xs"
  by (induction xs) (auto simp: option.map_comp comp_def)

section \<open>Removing one position\<close>

definition erase_at :: "nat \<Rightarrow> 'a list \<Rightarrow> 'a list" where
  "erase_at i xs = take i xs @ drop (Suc i) xs"

lemma erase_at_simps [simp]:
  "erase_at i [] = []"
  "erase_at 0 (x # xs) = xs"
  "erase_at (Suc i) (x # xs) = x # erase_at i xs"
  by (simp_all add: erase_at_def)

lemma length_erase_at [simp]:
  "length (erase_at i xs) = (if i < length xs then length xs - 1 else length xs)"
  by (simp add: erase_at_def min_def)

lemma erase_at_beyond: "length xs \<le> i \<Longrightarrow> erase_at i xs = xs"
  by (simp add: erase_at_def)

lemma set_erase_at: "set (erase_at i xs) \<subseteq> set xs"
  by (auto simp: erase_at_def dest: in_set_takeD in_set_dropD)

lemma map_erase_at: "map f (erase_at i xs) = erase_at i (map f xs)"
  by (simp add: erase_at_def take_map drop_map)

lemma erase_at_nth:
  "j < length (erase_at i xs) \<Longrightarrow> erase_at i xs ! j = (if j < i then xs ! j else xs ! Suc j)"
proof (induction xs arbitrary: i j)
  case Nil
  then show ?case by simp
next
  case (Cons x xs)
  then show ?case by (cases i; cases j) (auto split: if_splits)
qed

lemma distinct_erase_at: "distinct xs \<Longrightarrow> distinct (erase_at i xs)"
proof (induction xs arbitrary: i)
  case Nil
  then show ?case by simp
next
  case (Cons x xs)
  then show ?case
    using set_erase_at [of _ xs] by (cases i) auto
qed

lemma distinct_map_filter_erase_at:
  "distinct (map f (filter P xs)) \<Longrightarrow> distinct (map f (filter P (erase_at i xs)))"
proof (induction xs arbitrary: i)
  case Nil
  then show ?case by simp
next
  case (Cons x xs)
  then show ?case
    by (cases i) (auto split: if_splits dest: subsetD [OF set_erase_at])
qed

text \<open>Removing the first match of a predicate keeps everything that does not match.\<close>

definition remove_first :: "('a \<Rightarrow> bool) \<Rightarrow> 'a list \<Rightarrow> 'a list" where
  "remove_first P xs = (case find_index P xs of None \<Rightarrow> xs | Some i \<Rightarrow> erase_at i xs)"

lemma remove_first_simps [simp]:
  "remove_first P [] = []"
  "remove_first P (x # xs) = (if P x then xs else x # remove_first P xs)"
  by (auto simp: remove_first_def split: option.splits)

lemma set_remove_first_subset: "set (remove_first P xs) \<subseteq> set xs"
  by (induction xs) auto

lemma remove_first_other: "\<not> P x \<Longrightarrow> x \<in> set (remove_first P xs) \<longleftrightarrow> x \<in> set xs"
  by (induction xs) auto

lemma remove_first_idle: "\<forall>x \<in> set xs. \<not> P x \<Longrightarrow> remove_first P xs = xs"
  by (induction xs) auto

lemma filter_remove_first: "\<forall>x. Q x \<longrightarrow> \<not> P x \<Longrightarrow> filter Q (remove_first P xs) = filter Q xs"
  by (induction xs) auto

section \<open>Words\<close>

lemma u32_le_max: "(x :: u32) \<le> 0xFFFFFFFF"
proof -
  have "unat x < 2 ^ LENGTH(32)" by (rule unsigned_less)
  then show ?thesis by (simp add: word_le_nat_alt)
qed

lemma word_lt_of_nat [simp]: "unat (of_nat n :: 'a::len word) = n mod 2 ^ LENGTH('a)"
  by (simp add: unat_of_nat)

end
