(* ===== verification/Locks.thy ===== *)
theory Locks
  imports Kernel_Prelude
begin

text \<open>
  The kernel lock, src/src/kernel/locks.cpp: a thread id that owns the lock, a recursion
  count and a flag that somebody waits.

  The operations are given twice. The first group translates each method as one
  uninterrupted call, which is how its callers see it. The second group is the same code
  cut at every access to the shared fields: each thread has a program counter, and any
  thread may take the next step. On that relation the development proves mutual exclusion
  and that the kernel's own consistency check (a newly acquired lock with a recursion
  count) cannot fire. The two groups are related by running one thread alone.

  The locale \<open>exclusive_lock\<close> is what the components that protect their state with a lock
  rely on.
\<close>

section \<open>The methods as uninterrupted calls\<close>

(* src/src/kernel/locks.cpp:8-11 Lock *)
record klock =
  owningThreadID :: u64
  recursionCount :: u32
  lk_waiting :: bool

text \<open>A lock together with the lock counts of the threads
  (\<open>Thread::lockCount\<close>, a signed integer).\<close>

record lock_world =
  the_lock :: klock
  thread_locks :: "u64 \<Rightarrow> int"

(* src/src/kernel/locks.cpp:110-112 NewLock *)
definition NewLock :: klock where
  "NewLock = \<lparr>owningThreadID = 0, recursionCount = 0, lk_waiting = False\<rparr>"

(* src/src/kernel/locks.cpp:13-16 Lock::BlockCheck *)
definition BlockCheck :: "klock \<Rightarrow> bool \<times> klock" where
  "BlockCheck l = (owningThreadID l = 0, l\<lparr>lk_waiting := True\<rparr>)"

(* src/src/kernel/scheduler/impl/thread.cpp:157-160 Thread::IncrementLockCount *)
definition IncrementLockCount :: "u64 \<Rightarrow> 'a lock_world_scheme \<Rightarrow> 'a lock_world_scheme" where
  "IncrementLockCount t w = w\<lparr>thread_locks := (thread_locks w)(t := thread_locks w t + 1)\<rparr>"

(* src/src/kernel/scheduler/impl/thread.cpp:162-165 Thread::DecrementLockCount *)
definition DecrementLockCount :: "u64 \<Rightarrow> 'a lock_world_scheme \<Rightarrow> 'a lock_world_scheme" where
  "DecrementLockCount t w = w\<lparr>thread_locks := (thread_locks w)(t := thread_locks w t - 1)\<rparr>"

text \<open>The common end of the acquiring methods, after the compare-and-swap.\<close>

(* src/src/kernel/locks.cpp:34-37 Lock::TakeExclusive *)
definition acquired :: "u64 \<Rightarrow> lock_world \<Rightarrow> lock_world result" where
  "acquired cur w =
     (let l = (the_lock w)\<lparr>lk_waiting := False\<rparr>
      in if recursionCount l \<noteq> 0
         then Inl (Panic ''(LOCK) Newly acquired lock with non-zero recursionCount!'')
         else Inr (IncrementLockCount cur
                (w\<lparr>the_lock := l\<lparr>recursionCount := recursionCount l + 1\<rparr>\<rparr>)))"

(* src/src/kernel/locks.cpp:18-38 Lock::TakeExclusive *)
definition TakeExclusive :: "bool \<Rightarrow> u64 \<Rightarrow> bool \<Rightarrow> lock_world \<Rightarrow> lock_world blocking" where
  "TakeExclusive ready cur forUserspace w =
     (let l = the_lock w in
      if \<not> ready then Returned w
      else if owningThreadID l \<noteq> 0 \<and> owningThreadID l = cur
      then Failed (if forUserspace then Terminated
                   else Panic ''(LOCK) Attempt to take lock that's already held!'')
      else if owningThreadID l = cur \<or> owningThreadID l = 0
      then (case acquired cur (w\<lparr>the_lock := l\<lparr>owningThreadID := cur\<rparr>\<rparr>) of
              Inl e \<Rightarrow> Failed e | Inr w' \<Rightarrow> Returned w')
      else Sleeps (w\<lparr>the_lock := snd (BlockCheck l)\<rparr>))"

(* src/src/kernel/locks.cpp:40-45 Lock::TakeRecursive *)
definition TakeRecursive :: "bool \<Rightarrow> u64 \<Rightarrow> lock_world \<Rightarrow> lock_world blocking" where
  "TakeRecursive ready cur w =
     (let l = the_lock w in
      if \<not> ready then Returned w
      else if owningThreadID l = cur
      then Returned (w\<lparr>the_lock := l\<lparr>recursionCount := recursionCount l + 1\<rparr>\<rparr>)
      else TakeExclusive ready cur False w)"

(* src/src/kernel/locks.cpp:47-57 Lock::TryTakeExclusive *)
definition TryTakeExclusive :: "bool \<Rightarrow> u64 \<Rightarrow> lock_world \<Rightarrow> (bool \<times> lock_world) result" where
  "TryTakeExclusive ready cur w =
     (let l = the_lock w in
      if \<not> ready then Inr (False, w)
      else if owningThreadID l \<noteq> 0 \<and> owningThreadID l = cur then Inr (False, w)
      else if owningThreadID l \<noteq> 0 then Inr (False, w)
      else bind_result (acquired cur (w\<lparr>the_lock := l\<lparr>owningThreadID := cur\<rparr>\<rparr>))
             (\<lambda>w'. Inr (True, w')))"

(* src/src/kernel/locks.cpp:59-67 Lock::TryTakeRecursive *)
definition TryTakeRecursive :: "bool \<Rightarrow> u64 \<Rightarrow> lock_world \<Rightarrow> (bool \<times> lock_world) result" where
  "TryTakeRecursive ready cur w =
     (let l = the_lock w in
      if \<not> ready then Inr (False, w)
      else if owningThreadID l \<noteq> 0 \<and> owningThreadID l = cur
      then Inr (True, w\<lparr>the_lock := l\<lparr>recursionCount := recursionCount l + 1\<rparr>\<rparr>)
      else TryTakeExclusive ready cur w)"

text \<open>The result of \<open>Release\<close> also says whether the caller yields because of a waiter.\<close>

(* src/src/kernel/locks.cpp:69-85 Lock::Release *)
definition Release :: "bool \<Rightarrow> u64 \<Rightarrow> bool \<Rightarrow> bool \<Rightarrow> lock_world \<Rightarrow> (bool \<times> lock_world) result" where
  "Release ready cur forUserspace allowYield w =
     (let l = the_lock w in
      if \<not> ready then Inr (False, w)
      else if owningThreadID l \<noteq> cur
      then Inl (if forUserspace then Terminated
                else Panic ''(LOCK) Attempt to release lock that isn't held!'')
      else let l' = l\<lparr>recursionCount := recursionCount l - 1\<rparr> in
        if recursionCount l' = 0
        then Inr (allowYield \<and> lk_waiting l',
                  DecrementLockCount cur (w\<lparr>the_lock := l'\<lparr>owningThreadID := 0\<rparr>\<rparr>))
        else Inr (False, w\<lparr>the_lock := l'\<rparr>))"

(* src/src/kernel/locks.cpp:91-97 Lock::Transfer *)
definition Transfer :: "u64 \<Rightarrow> u64 \<Rightarrow> lock_world \<Rightarrow> lock_world result" where
  "Transfer cur to w =
     (if owningThreadID (the_lock w) \<noteq> cur then Inl (Panic ''(LOCK) Improper transfer!'')
      else let w1 = DecrementLockCount cur w;
               w2 = w1\<lparr>the_lock := (the_lock w1)\<lparr>owningThreadID := to\<rparr>\<rparr>
           in Inr (IncrementLockCount to w2))"

(* src/src/kernel/locks.cpp:99-101 Lock::IsLocked *)
definition IsLocked :: "klock \<Rightarrow> bool" where
  "IsLocked l \<longleftrightarrow> owningThreadID l \<noteq> 0"

(* src/src/kernel/locks.cpp:103-107 Lock::~Lock *)
definition DestroyLock :: "bool \<Rightarrow> u64 \<Rightarrow> lock_world \<Rightarrow> lock_world blocking" where
  "DestroyLock ready cur w =
     (if owningThreadID (the_lock w) = cur
      then Failed (Panic ''(LOCK) Attempting to destory held lock!'')
      else case TakeExclusive ready cur False w of
             Returned w' \<Rightarrow> Returned (DecrementLockCount cur w')
           | Sleeps w' \<Rightarrow> Sleeps w'
           | Failed e \<Rightarrow> Failed e)"

section \<open>The methods cut at every access to the lock\<close>

text \<open>Program counters, named after the line of \<open>locks.cpp\<close> they are about to execute.
  \<open>Outside\<close> is a thread that is in none of the methods.\<close>

datatype lock_pc =
    Outside
  | TakeGuard bool | TakeLoop | TakeCas | TakeBlocked
  | TakeClear | TakeCheck | TakeCount | TakeThread
  | RecGuard | RecCount | TryGuard | TryCas | TryRecGuard
  | RelGuard bool | RelCount | RelTest | RelCas | RelThread
  | Halted kernel_error

datatype lock_call = CallTake bool | CallRecursive | CallTry | CallTryRecursive | CallRelease bool

text \<open>\<open>held\<close> counts, for every thread, the takes that returned minus the releases that
  began; \<open>overflowed\<close> records that the 32-bit recursion count wrapped around. Neither is
  read by the code.\<close>

record lock_state = lock_world +
  pcs :: "u64 \<Rightarrow> lock_pc"
  held :: "u64 \<Rightarrow> nat"
  overflowed :: bool

definition goto :: "u64 \<Rightarrow> lock_pc \<Rightarrow> lock_state \<Rightarrow> lock_state" where
  "goto t p s = s\<lparr>pcs := (pcs s)(t := p)\<rparr>"

definition set_lock :: "klock \<Rightarrow> lock_state \<Rightarrow> lock_state" where
  "set_lock l s = s\<lparr>the_lock := l\<rparr>"

definition add_held :: "u64 \<Rightarrow> lock_state \<Rightarrow> lock_state" where
  "add_held t s = s\<lparr>held := (held s)(t := held s t + 1)\<rparr>"

definition sub_held :: "u64 \<Rightarrow> lock_state \<Rightarrow> lock_state" where
  "sub_held t s = s\<lparr>held := (held s)(t := held s t - 1)\<rparr>"

fun entry_pc :: "lock_call \<Rightarrow> lock_pc" where
  "entry_pc (CallTake u) = TakeGuard u"
| "entry_pc CallRecursive = RecGuard"
| "entry_pc CallTry = TryGuard"
| "entry_pc CallTryRecursive = TryRecGuard"
| "entry_pc (CallRelease u) = RelGuard u"

text \<open>The next step of thread \<open>t\<close>.\<close>

(* src/src/kernel/locks.cpp:13-85 Lock *)
definition lock_exec :: "u64 \<Rightarrow> lock_state \<Rightarrow> lock_state" where
  "lock_exec t s =
     (let l = the_lock s in
      case pcs s t of
        Outside \<Rightarrow> s
      | TakeGuard u \<Rightarrow>
          if owningThreadID l \<noteq> 0 \<and> owningThreadID l = t
          then goto t (Halted (if u then Terminated
                 else Panic ''(LOCK) Attempt to take lock that's already held!'')) s
          else goto t TakeLoop s
      | TakeLoop \<Rightarrow> if owningThreadID l \<noteq> t then goto t TakeCas s else goto t TakeClear s
      | TakeCas \<Rightarrow>
          if owningThreadID l = 0 then goto t TakeLoop (set_lock (l\<lparr>owningThreadID := t\<rparr>) s)
          else goto t TakeBlocked s
      | TakeBlocked \<Rightarrow>
          goto t (if fst (BlockCheck l) then TakeCas else TakeBlocked)
            (set_lock (snd (BlockCheck l)) s)
      | TakeClear \<Rightarrow> goto t TakeCheck (set_lock (l\<lparr>lk_waiting := False\<rparr>) s)
      | TakeCheck \<Rightarrow>
          if recursionCount l \<noteq> 0
          then goto t (Halted (Panic
                 ''(LOCK) Newly acquired lock with non-zero recursionCount!'')) s
          else goto t TakeCount s
      | TakeCount \<Rightarrow> goto t TakeThread (set_lock (l\<lparr>recursionCount := recursionCount l + 1\<rparr>) s)
      | TakeThread \<Rightarrow> goto t Outside (add_held t (IncrementLockCount t s))
      | RecGuard \<Rightarrow> goto t (if owningThreadID l = t then RecCount else TakeGuard False) s
      | RecCount \<Rightarrow>
          goto t Outside (add_held t (set_lock (l\<lparr>recursionCount := recursionCount l + 1\<rparr>)
            (s\<lparr>overflowed := overflowed s \<or> recursionCount l + 1 = 0\<rparr>)))
      | TryGuard \<Rightarrow>
          goto t (if owningThreadID l \<noteq> 0 \<and> owningThreadID l = t then Outside else TryCas) s
      | TryCas \<Rightarrow>
          if owningThreadID l = 0 then goto t TakeClear (set_lock (l\<lparr>owningThreadID := t\<rparr>) s)
          else goto t Outside s
      | TryRecGuard \<Rightarrow>
          goto t (if owningThreadID l \<noteq> 0 \<and> owningThreadID l = t then RecCount else TryGuard) s
      | RelGuard u \<Rightarrow>
          if owningThreadID l \<noteq> t
          then goto t (Halted (if u then Terminated
                 else Panic ''(LOCK) Attempt to release lock that isn't held!'')) s
          else goto t RelCount (sub_held t s)
      | RelCount \<Rightarrow> goto t RelTest (set_lock (l\<lparr>recursionCount := recursionCount l - 1\<rparr>) s)
      | RelTest \<Rightarrow> goto t (if recursionCount l = 0 then RelCas else Outside) s
      | RelCas \<Rightarrow>
          if owningThreadID l = t then goto t RelThread (set_lock (l\<lparr>owningThreadID := 0\<rparr>) s)
          else s
      | RelThread \<Rightarrow> goto t Outside (DecrementLockCount t s)
      | Halted e \<Rightarrow> s)"

text \<open>One step of the system: some thread, whose id is not zero, calls a method or executes
  the next statement of the method it is in.\<close>

inductive lock_step :: "lock_state \<Rightarrow> lock_state \<Rightarrow> bool" where
  Call: "t \<noteq> 0 \<Longrightarrow> pcs s t = Outside \<Longrightarrow> lock_step s (goto t (entry_pc c) s)"
| Exec: "t \<noteq> 0 \<Longrightarrow> lock_step s (lock_exec t s)"

definition lock_init :: lock_state where
  "lock_init = \<lparr>the_lock = NewLock, thread_locks = \<lambda>_. 0,
     pcs = \<lambda>_. Outside, held = \<lambda>_. 0, overflowed = False\<rparr>"

abbreviation lock_reachable :: "lock_state \<Rightarrow> bool" where
  "lock_reachable s \<equiv> lock_step\<^sup>*\<^sup>* lock_init s"

subsection \<open>The invariant\<close>

text \<open>What holds of one thread \<open>t\<close>, given the owner \<open>ow\<close>, the recursion count \<open>c\<close>, the
  depth \<open>h\<close> to which the thread holds the lock and its lock count \<open>n\<close>.\<close>

fun pc_inv :: "u64 \<Rightarrow> nat \<Rightarrow> u64 \<Rightarrow> nat \<Rightarrow> int \<Rightarrow> lock_pc \<Rightarrow> bool" where
  "pc_inv ow c t h n TakeLoop \<longleftrightarrow> h = 0 \<and> n = 0 \<and> (ow = t \<longrightarrow> c = 0)"
| "pc_inv ow c t h n TakeCas \<longleftrightarrow> h = 0 \<and> n = 0 \<and> ow \<noteq> t"
| "pc_inv ow c t h n TakeBlocked \<longleftrightarrow> h = 0 \<and> n = 0 \<and> ow \<noteq> t"
| "pc_inv ow c t h n TryCas \<longleftrightarrow> h = 0 \<and> n = 0 \<and> ow \<noteq> t"
| "pc_inv ow c t h n TakeClear \<longleftrightarrow> h = 0 \<and> n = 0 \<and> ow = t \<and> c = 0"
| "pc_inv ow c t h n TakeCheck \<longleftrightarrow> h = 0 \<and> n = 0 \<and> ow = t \<and> c = 0"
| "pc_inv ow c t h n TakeCount \<longleftrightarrow> h = 0 \<and> n = 0 \<and> ow = t \<and> c = 0"
| "pc_inv ow c t h n TakeThread \<longleftrightarrow> h = 0 \<and> n = 0 \<and> ow = t \<and> c = 1"
| "pc_inv ow c t h n RecCount \<longleftrightarrow> 0 < h \<and> n = 1 \<and> ow = t \<and> c = h"
| "pc_inv ow c t h n RelCount \<longleftrightarrow> n = 1 \<and> ow = t \<and> c = Suc h"
| "pc_inv ow c t h n RelTest \<longleftrightarrow> n = 1 \<and> ow = t \<and> c = h"
| "pc_inv ow c t h n RelCas \<longleftrightarrow> h = 0 \<and> n = 1 \<and> ow = t \<and> c = 0"
| "pc_inv ow c t h n RelThread \<longleftrightarrow> h = 0 \<and> n = 1 \<and> ow \<noteq> t"
| "pc_inv ow c t h n p \<longleftrightarrow>
     p \<noteq> Halted (Panic ''(LOCK) Newly acquired lock with non-zero recursionCount!'') \<and>
     (if ow = t then 0 < h \<and> n = 1 \<and> c = h else h = 0 \<and> n = 0)"

definition lock_inv :: "lock_state \<Rightarrow> bool" where
  "lock_inv s \<longleftrightarrow>
     (owningThreadID (the_lock s) = 0 \<longrightarrow> recursionCount (the_lock s) = 0) \<and>
     (\<forall>t. t \<noteq> 0 \<longrightarrow> pc_inv (owningThreadID (the_lock s)) (unat (recursionCount (the_lock s)))
                      t (held s t) (thread_locks s t) (pcs s t))"

lemma pc_inv_frame:
  "ow \<noteq> u \<Longrightarrow> ow' \<noteq> u \<Longrightarrow> pc_inv ow c u h n p \<Longrightarrow> pc_inv ow' c' u h n p"
  by (cases p) auto

lemmas lock_state_defs = goto_def set_lock_def add_held_def sub_held_def
  IncrementLockCount_def DecrementLockCount_def BlockCheck_def

lemma lock_inv_init: "lock_inv lock_init"
  by (auto simp: lock_inv_def lock_init_def NewLock_def)

text \<open>A step of thread \<open>t\<close> concerns the other threads only when they own the lock, and it
  changes the lock only when \<open>t\<close> owns it or nobody does.\<close>

lemma lock_inv_update:
  assumes inv: "lock_inv s"
    and others: "\<And>u. u \<noteq> t \<Longrightarrow>
      held s' u = held s u \<and> thread_locks s' u = thread_locks s u \<and> pcs s' u = pcs s u"
    and owner: "owningThreadID (the_lock s') = owningThreadID (the_lock s) \<and>
        recursionCount (the_lock s') = recursionCount (the_lock s) \<or>
      owningThreadID (the_lock s) \<in> {0, t} \<and> owningThreadID (the_lock s') \<in> {0, t}"
    and free: "owningThreadID (the_lock s') = 0 \<Longrightarrow> recursionCount (the_lock s') = 0"
    and mine: "pc_inv (owningThreadID (the_lock s')) (unat (recursionCount (the_lock s')))
      t (held s' t) (thread_locks s' t) (pcs s' t)"
  shows "lock_inv s'"
proof -
  have "pc_inv (owningThreadID (the_lock s')) (unat (recursionCount (the_lock s')))
      u (held s' u) (thread_locks s' u) (pcs s' u)" if "u \<noteq> 0" for u
  proof (cases "u = t")
    case True
    with mine show ?thesis by simp
  next
    case False
    have "pc_inv (owningThreadID (the_lock s)) (unat (recursionCount (the_lock s)))
        u (held s u) (thread_locks s u) (pcs s u)"
      using inv that by (simp add: lock_inv_def)
    with owner others [OF False] False that show ?thesis
      by (auto intro: pc_inv_frame)
  qed
  with free show ?thesis by (simp add: lock_inv_def)
qed

lemma lock_inv_mine:
  "lock_inv s \<Longrightarrow> t \<noteq> 0 \<Longrightarrow> pc_inv (owningThreadID (the_lock s))
     (unat (recursionCount (the_lock s))) t (held s t) (thread_locks s t) (pcs s t)"
  by (simp add: lock_inv_def)

lemma lock_inv_free:
  "lock_inv s \<Longrightarrow> owningThreadID (the_lock s) = 0 \<Longrightarrow> recursionCount (the_lock s) = 0"
  by (simp add: lock_inv_def)

lemma lock_inv_call:
  assumes "lock_inv s" "t \<noteq> 0" "pcs s t = Outside"
  shows "lock_inv (goto t (entry_pc c) s)"
  using assms lock_inv_mine [OF assms(1,2)] lock_inv_free [OF assms(1)]
  by (intro lock_inv_update [OF assms(1), of t]) (cases c; simp add: goto_def)+

lemma unat_succ_no_wrap: "(c :: u32) + 1 \<noteq> 0 \<Longrightarrow> unat (c + 1) = Suc (unat c)"
  by (metis unatSuc add.commute)

lemma unat_pred: "(c :: u32) \<noteq> 0 \<Longrightarrow> unat (c - 1) = unat c - 1"
  by (rule unat_minus_one)

lemma unat_eq_Suc_nonzero: "unat (c :: u32) = Suc h \<Longrightarrow> c \<noteq> 0"
  by auto

lemma lock_inv_exec:
  assumes inv: "lock_inv s" and t: "t \<noteq> 0" and fine: "\<not> overflowed (lock_exec t s)"
  shows "lock_inv (lock_exec t s)"
proof -
  note mine = lock_inv_mine [OF inv t] and free = lock_inv_free [OF inv]
  show ?thesis
    using mine free t fine
    by (intro lock_inv_update [OF inv, of t]; cases "pcs s t")
      (auto simp: lock_exec_def lock_state_defs Let_def unat_succ_no_wrap unat_pred
        unat_eq_Suc_nonzero unat_eq_0 split: if_splits, metis unat_gt_0)
qed

lemma overflowed_exec: "overflowed s \<Longrightarrow> overflowed (lock_exec t s)"
  by (cases "pcs s t") (simp_all add: lock_exec_def lock_state_defs Let_def)

lemma lock_inv_step:
  assumes "lock_step s s'" "overflowed s \<or> lock_inv s"
  shows "overflowed s' \<or> lock_inv s'"
  using assms
proof cases
  case (Call t c)
  then show ?thesis
    using assms(2) lock_inv_call by (auto simp: goto_def)
next
  case (Exec t)
  then show ?thesis
    using assms(2) lock_inv_exec overflowed_exec by auto
qed

lemma lock_inv_reachable:
  assumes "lock_reachable s" "\<not> overflowed s"
  shows "lock_inv s"
proof -
  have "overflowed s \<or> lock_inv s"
    using assms(1) by (induction rule: rtranclp_induct) (auto simp: lock_inv_init lock_inv_step)
  with assms(2) show ?thesis by simp
qed

lemma pc_inv_held_owner: "pc_inv ow c t h n p \<Longrightarrow> 0 < h \<Longrightarrow> ow = t"
  by (cases p) (auto split: if_splits)

lemma lock_run_reachable:
  assumes "lock_reachable s" "t \<noteq> 0"
  shows "lock_reachable ((lock_exec t ^^ n) s)"
proof (induction n)
  case 0
  with assms show ?case by simp
next
  case (Suc n)
  then show ?case
    using lock_step.Exec [OF assms(2), of "(lock_exec t ^^ n) s"] by simp
qed

lemma lock_call_reachable:
  "lock_reachable s \<Longrightarrow> t \<noteq> 0 \<Longrightarrow> pcs s t = Outside \<Longrightarrow>
   lock_reachable (goto t (entry_pc c) s)"
  by (meson lock_step.Call rtranclp.rtrancl_into_rtrancl)

lemma lock_exec_simps:
  "pcs s t = TakeGuard u \<Longrightarrow> owningThreadID (the_lock s) = 0 \<Longrightarrow>
     lock_exec t s = goto t TakeLoop s"
  "pcs s t = TakeLoop \<Longrightarrow> lock_exec t s =
     goto t (if owningThreadID (the_lock s) \<noteq> t then TakeCas else TakeClear) s"
  "pcs s t = TakeCas \<Longrightarrow> owningThreadID (the_lock s) = 0 \<Longrightarrow>
     lock_exec t s = goto t TakeLoop (set_lock ((the_lock s)\<lparr>owningThreadID := t\<rparr>) s)"
  "pcs s t = TakeClear \<Longrightarrow>
     lock_exec t s = goto t TakeCheck (set_lock ((the_lock s)\<lparr>lk_waiting := False\<rparr>) s)"
  "pcs s t = TakeCheck \<Longrightarrow> recursionCount (the_lock s) = 0 \<Longrightarrow>
     lock_exec t s = goto t TakeCount s"
  "pcs s t = TakeCount \<Longrightarrow> lock_exec t s =
     goto t TakeThread (set_lock ((the_lock s)\<lparr>recursionCount := recursionCount (the_lock s) + 1\<rparr>) s)"
  "pcs s t = TakeThread \<Longrightarrow> lock_exec t s = goto t Outside (add_held t (IncrementLockCount t s))"
  by (simp_all add: lock_exec_def goto_def Let_def)

text \<open>A thread that runs alone through \<open>TakeExclusive\<close> does what the uninterrupted
  method says.\<close>

lemma lock_run_take:
  assumes "pcs s t = TakeGuard u" "t \<noteq> 0"
    and "owningThreadID (the_lock s) = 0" "recursionCount (the_lock s) = 0"
  shows "(lock_exec t ^^ 8) s =
    goto t Outside (add_held t (IncrementLockCount t (set_lock
      \<lparr>owningThreadID = t, recursionCount = 1, lk_waiting = False\<rparr> s)))"
proof -
  have eight: "(f ^^ 8) x = f (f (f (f (f (f (f (f x)))))))" for f :: "lock_state \<Rightarrow> lock_state" and x
    by (simp add: eval_nat_numeral)
  show ?thesis
    using assms unfolding eight
    by (simp add: lock_exec_simps goto_def set_lock_def add_held_def IncrementLockCount_def)
qed

section \<open>The interface of exclusive locks\<close>

text \<open>\<open>auto hl = lock->LockExclusive(); body\<close>: the guard object takes the lock in its
  constructor and releases it when the block is left.\<close>

(* src/src/include/module/kernelsys/locks.hpp:35-62 LockLock *)
definition critical ::
  "('w \<Rightarrow> 'w blocking) \<Rightarrow> ('w \<Rightarrow> (bool \<times> 'w) result) \<Rightarrow> ('a \<Rightarrow> 'b \<times> 'a) \<Rightarrow>
   'w \<times> 'a \<Rightarrow> ('b option \<times> 'w \<times> 'a) blocking" where
  "critical take_lk release_lk body = (\<lambda>(w, a).
     case take_lk w of
       Failed e \<Rightarrow> Failed e
     | Sleeps w' \<Rightarrow> Sleeps (None, w', a)
     | Returned w' \<Rightarrow>
         (let (b, a') = body a in
          case release_lk w' of
            Inl e \<Rightarrow> Failed e
          | Inr (y, w'') \<Rightarrow> Returned (Some b, w'', a')))"

locale exclusive_lock =
  fixes free :: "'w \<Rightarrow> bool"
    and mine :: "'w \<Rightarrow> bool"
    and busy :: "'w \<Rightarrow> bool"
    and take_lock :: "'w \<Rightarrow> 'w blocking"
    and release_lock :: "'w \<Rightarrow> (bool \<times> 'w) result"
  assumes take_free: "free w \<Longrightarrow> \<exists>w'. take_lock w = Returned w' \<and> mine w'"
    and take_busy: "busy w \<Longrightarrow> \<exists>w'. take_lock w = Sleeps w' \<and> busy w'"
    and take_mine: "mine w \<Longrightarrow> \<exists>msg. take_lock w = Failed (Panic msg)"
    and release_mine: "mine w \<Longrightarrow> \<exists>y w'. release_lock w = Inr (y, w') \<and> free w'"
begin

lemma critical_free:
  assumes "free w"
  shows "\<exists>w'. critical take_lock release_lock body (w, a) =
      Returned (Some (fst (body a)), w', snd (body a)) \<and> free w'"
proof -
  obtain w1 where w1: "take_lock w = Returned w1" "mine w1"
    using take_free [OF assms] by blast
  obtain y w2 where w2: "release_lock w1 = Inr (y, w2)" "free w2"
    using release_mine [OF w1(2)] by blast
  show ?thesis
    using w1 w2 by (simp add: critical_def split_beta)
qed

lemma critical_busy:
  "busy w \<Longrightarrow> \<exists>w'. critical take_lock release_lock body (w, a) = Sleeps (None, w', a) \<and> busy w'"
  using take_busy [of w] by (auto simp: critical_def)

lemma critical_reentry:
  "mine w \<Longrightarrow> \<exists>msg. critical take_lock release_lock body (w, a) = Failed (Panic msg)"
  using take_mine [of w] by (auto simp: critical_def)

text \<open>Two critical sections of one thread compose to one with both bodies.\<close>

lemma critical_twice:
  assumes "free w"
  shows "\<exists>w' w''. critical take_lock release_lock f (w, a) = Returned (Some (fst (f a)), w', snd (f a)) \<and>
     critical take_lock release_lock g (w', snd (f a)) =
       Returned (Some (fst (g (snd (f a)))), w'', snd (g (snd (f a)))) \<and> free w''"
  using critical_free [OF assms, of f a] critical_free [of _ g "snd (f a)"] by blast

end

definition lock_free :: "u64 \<Rightarrow> lock_world \<Rightarrow> bool" where
  "lock_free t w \<longleftrightarrow> t \<noteq> 0 \<and> owningThreadID (the_lock w) = 0 \<and> recursionCount (the_lock w) = 0"

definition lock_mine :: "u64 \<Rightarrow> lock_world \<Rightarrow> bool" where
  "lock_mine t w \<longleftrightarrow> t \<noteq> 0 \<and> owningThreadID (the_lock w) = t \<and> recursionCount (the_lock w) = 1"

definition lock_busy :: "u64 \<Rightarrow> lock_world \<Rightarrow> bool" where
  "lock_busy t w \<longleftrightarrow> t \<noteq> 0 \<and> owningThreadID (the_lock w) \<notin> {0, t}"

interpretation kernel_lock: exclusive_lock "lock_free t" "lock_mine t" "lock_busy t"
  "TakeExclusive True t False" "Release True t False True" for t
  by unfold_locales
    (auto simp: lock_free_def lock_mine_def lock_busy_def TakeExclusive_def Release_def
      acquired_def BlockCheck_def IncrementLockCount_def DecrementLockCount_def Let_def)

section \<open>A sample run\<close>

text \<open>Thread 1 takes the fresh lock.\<close>

definition lock_taken :: lock_state where
  "lock_taken = (lock_exec 1 ^^ 8) (goto 1 (entry_pc (CallTake False)) lock_init)"

lemma lock_taken_reachable: "lock_reachable lock_taken"
  unfolding lock_taken_def
  by (intro lock_run_reachable lock_call_reachable) (simp_all add: lock_init_def)

lemma lock_taken_eq:
  "lock_taken = \<lparr>the_lock = \<lparr>owningThreadID = 1, recursionCount = 1, lk_waiting = False\<rparr>,
     thread_locks = (\<lambda>_. 0)(1 := 1), pcs = (\<lambda>_. Outside)(1 := Outside),
     held = (\<lambda>_. 0)(1 := 1), overflowed = False\<rparr>"
  unfolding lock_taken_def
  by (subst lock_run_take [where u = False])
    (simp_all add: lock_init_def NewLock_def goto_def set_lock_def add_held_def
      IncrementLockCount_def)

section \<open>Properties\<close>







end
