(* ===== verification/Atoms.thy ===== *)
theory Atoms
  imports Locks "HOL-Library.Multiset"
begin

unbundle bit_operations_syntax

text \<open>
  Atoms, src/src/kernel/atoms.cpp: 64-bit values that threads modify, compare and wait on,
  each protected by its own kernel lock. An atom is the pair of its lock (with the lock
  counts of the threads) and its value, and every method is the critical section that the
  source writes. The methods rest on the interface \<open>exclusive_lock\<close> of the theory Locks.
\<close>

(* src/src/include/btos/atoms.h:5-12 bt_atom_modify::Enum *)
datatype atom_modify = AtomSet | AtomAdd | AtomSubtract | AtomOr | AtomAnd

(* src/src/include/btos/atoms.h:14-20 bt_atom_compare::Enum *)
datatype atom_compare = AtomEqual | AtomNotEqual | AtomLessThan | AtomGreaterThan

type_synonym atom = "lock_world \<times> u64"

(* src/src/kernel/atoms.cpp:102-104 NewAtom *)
definition NewAtom :: "(u64 \<Rightarrow> int) \<Rightarrow> u64 \<Rightarrow> atom" where
  "NewAtom counts v = (\<lparr>the_lock = NewLock, thread_locks = counts\<rparr>, v)"

text \<open>The switch of \<open>Modify\<close>: unsigned 64-bit arithmetic.\<close>

(* src/src/kernel/atoms.cpp:52-69 Atom::Modify *)
fun modify_value :: "atom_modify \<Rightarrow> u64 \<Rightarrow> u64 \<Rightarrow> u64" where
  "modify_value AtomSet v old = v"
| "modify_value AtomAdd v old = old + v"
| "modify_value AtomSubtract v old = old - v"
| "modify_value AtomOr v old = old OR v"
| "modify_value AtomAnd v old = old AND v"

(* src/src/kernel/atoms.cpp:50-70 Atom::Modify *)
definition AtomModify :: "u64 \<Rightarrow> atom_modify \<Rightarrow> u64 \<Rightarrow> atom \<Rightarrow> (u64 option \<times> atom) blocking" where
  "AtomModify cur md v =
     critical (TakeExclusive True cur False) (Release True cur False True)
       (\<lambda>old. let new = modify_value md v old in (new, new))"

(* src/src/kernel/atoms.cpp:72-75 Atom::Read *)
definition AtomRead :: "u64 \<Rightarrow> atom \<Rightarrow> (u64 option \<times> atom) blocking" where
  "AtomRead cur =
     critical (TakeExclusive True cur False) (Release True cur False True) (\<lambda>old. (old, old))"

(* src/src/kernel/atoms.cpp:85-89 Atom::CompareExchange *)
definition AtomCompareExchange :: "u64 \<Rightarrow> u64 \<Rightarrow> u64 \<Rightarrow> atom \<Rightarrow> (u64 option \<times> atom) blocking" where
  "AtomCompareExchange cur cmp xchg =
     critical (TakeExclusive True cur False) (Release True cur False True)
       (\<lambda>old. let new = (if old = cmp then xchg else old) in (new, new))"

(* src/src/kernel/atoms.cpp:21-34 Atom::WaitBlockCheck *)
fun compare_value :: "atom_compare \<Rightarrow> u64 \<Rightarrow> u64 \<Rightarrow> bool" where
  "compare_value AtomEqual v x \<longleftrightarrow> x = v"
| "compare_value AtomNotEqual v x \<longleftrightarrow> x \<noteq> v"
| "compare_value AtomLessThan v x \<longleftrightarrow> x < v"
| "compare_value AtomGreaterThan v x \<longleftrightarrow> x > v"

text \<open>The check the scheduler runs for a thread that waits on an atom: \<open>cur\<close> is the thread
  in whose context the scheduler runs it.\<close>

(* src/src/kernel/atoms.cpp:18-37 Atom::WaitBlockCheck *)
definition WaitBlockCheck :: "u64 \<Rightarrow> atom_compare \<Rightarrow> u64 \<Rightarrow> atom \<Rightarrow> (bool \<times> atom) result" where
  "WaitBlockCheck cur cmp v a =
     bind_result (TryTakeExclusive True cur (fst a)) (\<lambda>(ok, w).
       if \<not> ok then Inr (False, (w, snd a))
       else bind_result (Release True cur False True w) (\<lambda>(y, w').
              Inr (compare_value cmp v (snd a), (w', snd a))))"

text \<open>\<open>Wait\<close> blocks until the check has succeeded and then reads the value; other threads may
  run in between. The model gives what happens once the scheduler made the thread runnable.\<close>

(* src/src/kernel/atoms.cpp:77-84 Atom::Wait *)
definition AtomWaitResume :: "u64 \<Rightarrow> atom \<Rightarrow> (u64 option \<times> atom) blocking" where
  "AtomWaitResume cur = AtomRead cur"

section \<open>Behaviour of the methods\<close>

lemma AtomModify_free:
  assumes "lock_free cur w"
  shows "\<exists>w'. AtomModify cur md v (w, old) =
    Returned (Some (modify_value md v old), w', modify_value md v old) \<and> lock_free cur w'"
  using kernel_lock.critical_free [OF assms, of "\<lambda>old. (modify_value md v old, modify_value md v old)" old]
  by (simp add: AtomModify_def Let_def)

lemma WaitBlockCheck_free:
  assumes "lock_free cur w"
  shows "\<exists>w'. WaitBlockCheck cur cmp v (w, x) = Inr (compare_value cmp v x, (w', x)) \<and> lock_free cur w'"
  using assms
  by (simp add: WaitBlockCheck_def TryTakeExclusive_def Release_def acquired_def lock_free_def
      IncrementLockCount_def DecrementLockCount_def Let_def)

text \<open>Modifications by several threads, one critical section after the other.\<close>

primrec modify_all :: "(atom_modify \<times> u64) list \<Rightarrow> u64 \<Rightarrow> u64" where
  "modify_all [] x = x"
| "modify_all (m # ms) x = modify_all ms (modify_value (fst m) (snd m) x)"

fun modify_delta :: "atom_modify \<times> u64 \<Rightarrow> u64" where
  "modify_delta (AtomSubtract, v) = - v"
| "modify_delta (m, v) = v"

lemma modify_all_counts:
  "\<forall>m \<in> set ms. fst m \<in> {AtomAdd, AtomSubtract} \<Longrightarrow>
   modify_all ms x = x + sum_list (map modify_delta ms)"
proof (induction ms arbitrary: x)
  case Nil
  then show ?case by simp
next
  case (Cons m ms)
  then show ?case by (cases m) auto
qed

text \<open>The same through the locked method: each entry names the thread that makes the call.\<close>

fun AtomModifyAll :: "(u64 \<times> atom_modify \<times> u64) list \<Rightarrow> atom \<Rightarrow> atom option" where
  "AtomModifyAll [] a = Some a"
| "AtomModifyAll ((cur, md, v) # ms) a =
     (case AtomModify cur md v a of
        Returned (r, a') \<Rightarrow> AtomModifyAll ms a'
      | _ \<Rightarrow> None)"

lemma lock_free_thread: "lock_free t w \<Longrightarrow> u \<noteq> 0 \<Longrightarrow> lock_free u w"
  by (simp add: lock_free_def)

lemma AtomModifyAll_value:
  assumes "lock_free 1 w" "\<forall>m \<in> set ms. fst m \<noteq> 0"
  shows "\<exists>w'. AtomModifyAll ms (w, x) = Some (w', modify_all (map snd ms) x)"
  using assms
proof (induction ms arbitrary: w x)
  case Nil
  then show ?case by simp
next
  case (Cons m ms)
  obtain cur md v where m: "m = (cur, md, v)" by (cases m)
  have "lock_free cur w"
    using Cons.prems lock_free_thread by (simp add: m)
  then obtain w' where w': "AtomModify cur md v (w, x) =
      Returned (Some (modify_value md v x), w', modify_value md v x)" "lock_free cur w'"
    using AtomModify_free by blast
  have "lock_free 1 w'"
    using w'(2) lock_free_thread by simp
  with Cons w' show ?case by (simp add: m)
qed

section \<open>Properties\<close>

text \<open>Counting with atoms: additions and subtractions by any threads, each through
  \<open>Atom::Modify\<close>, give a value that depends only on which changes were made and not on their
  order: the initial value plus all amounts added minus all amounts subtracted, modulo \<open>2^64\<close>.\<close>

theorem atom_counting_order_free:
  assumes "lock_free 1 w" "\<forall>m \<in> set ms. fst m \<noteq> 0 \<and> fst (snd m) \<in> {AtomAdd, AtomSubtract}"
    and "mset ms = mset ms'"
  shows "\<exists>w' w''. AtomModifyAll ms (w, x) = Some (w', x + sum_list (map (modify_delta \<circ> snd) ms)) \<and>
    AtomModifyAll ms' (w, x) = Some (w'', x + sum_list (map (modify_delta \<circ> snd) ms))"
proof -
  have ms': "\<forall>m \<in> set ms'. fst m \<noteq> 0 \<and> fst (snd m) \<in> {AtomAdd, AtomSubtract}"
    using assms(2,3) by (metis set_mset_mset)
  have "sum_list (map (modify_delta \<circ> snd) ms') = sum_list (map (modify_delta \<circ> snd) ms)"
    using assms(3) by (metis mset_map sum_mset_sum_list)
  then show ?thesis
    using AtomModifyAll_value [of w ms x] AtomModifyAll_value [of w ms' x] assms(1,2) ms'
      modify_all_counts [of "map snd ms" x] modify_all_counts [of "map snd ms'" x]
    by (auto simp: comp_def)
qed

theorem atom_counting_order_free_witness:
  "\<exists>w' w''. AtomModifyAll [(1, AtomAdd, 5), (2, AtomSubtract, 2)] (NewAtom (\<lambda>_. 0) 10) = Some (w', 13) \<and>
     AtomModifyAll [(2, AtomSubtract, 2), (1, AtomAdd, 5)] (NewAtom (\<lambda>_. 0) 10) = Some (w'', 13)"
  using atom_counting_order_free [of "\<lparr>the_lock = NewLock, thread_locks = \<lambda>_. 0\<rparr>"
      "[(1, AtomAdd, 5), (2, AtomSubtract, 2)]" "[(2, AtomSubtract, 2), (1, AtomAdd, 5)]" 10]
  by (simp add: NewAtom_def lock_free_def NewLock_def del: AtomModifyAll.simps)

text \<open>A waiting thread is made runnable exactly when the lock is free and the comparison
  holds, and the check leaves the value and a free lock behind; when another thread holds the
  lock the check says no and changes nothing.\<close>

theorem atom_wait_check_exact:
  assumes "cur \<noteq> 0" "owningThreadID (the_lock w) = 0 \<longrightarrow> recursionCount (the_lock w) = 0"
  shows "\<exists>w'. WaitBlockCheck cur cmp v (w, x) =
      Inr (\<not> IsLocked (the_lock w) \<and> compare_value cmp v x, (w', x)) \<and>
    (if IsLocked (the_lock w) then w' = w else lock_free cur w')"
proof (cases "IsLocked (the_lock w)")
  case True
  then show ?thesis
    by (auto simp: WaitBlockCheck_def TryTakeExclusive_def IsLocked_def Let_def)
next
  case False
  with assms have "lock_free cur w" by (simp add: lock_free_def IsLocked_def)
  from WaitBlockCheck_free [OF this, of cmp v x] False show ?thesis by auto
qed

theorem atom_wait_check_exact_witness:
  "\<exists>w'. WaitBlockCheck 3 AtomGreaterThan 4 (NewAtom (\<lambda>_. 0) 5) = Inr (True, (w', 5))"
  using atom_wait_check_exact [of 3 "\<lparr>the_lock = NewLock, thread_locks = \<lambda>_. 0\<rparr>" AtomGreaterThan 4 5]
  by (auto simp: NewAtom_def NewLock_def IsLocked_def)

end
