(* ===== verification/Ministl.thy ===== *)
theory Ministl
  imports Kernel_Prelude
begin

text \<open>
  The kernel's own containers, src/src/include/util/ministl.hpp: the \<open>vector\<close> and
  \<open>map\<close> templates. A vector is its elements together with the number of slots it has
  allocated; a map is an association list in insertion order together with its
  capacity. The parameter \<open>heap\<close> says which allocations \<open>malloc\<close> grants, counted in
  elements.

  The lemmas show that the element-moving loops compute the list functions a reader
  expects, that no operation writes beyond the allocated slots while the container is
  well formed, and that the map obeys the laws of a key/value store. Those laws are the
  locale \<open>key_store\<close>, on which the registries of the kernel build.
\<close>

section \<open>vector\<close>

(* src/src/include/util/ministl.hpp:28-37 vector *)
record 'a vector =
  vdata :: "'a list"
  reserved :: nat

(* src/src/include/util/ministl.hpp:37-37 vector::npos *)
definition npos :: nat where
  "npos = 0xFFFFFFFF"

(* src/src/include/util/ministl.hpp:143-143 vector::size *)
definition vec_size :: "'a vector \<Rightarrow> nat" where
  "vec_size v = length (vdata v)"

(* src/src/include/util/ministl.hpp:145-145 vector::empty *)
definition vec_empty :: "'a vector \<Rightarrow> bool" where
  "vec_empty v \<longleftrightarrow> vec_size v = 0"

(* src/src/include/util/ministl.hpp:99-125 vector::reserve *)
definition vec_reserve :: "(nat \<Rightarrow> bool) \<Rightarrow> 'a vector \<Rightarrow> nat \<Rightarrow> 'a vector result" where
  "vec_reserve heap v new_size =
     (if new_size < reserved v then Inr v
      else if \<not> heap new_size then Inl (Panic ''STL: Error 2.'')
      else Inr (v\<lparr>reserved := new_size\<rparr>))"

(* src/src/include/util/ministl.hpp:47-53 vector::vector *)
definition vec_new :: "(nat \<Rightarrow> bool) \<Rightarrow> 'a vector result" where
  "vec_new heap = vec_reserve heap \<lparr>vdata = [], reserved = 10\<rparr> 10"

text \<open>The copy constructor allocates exactly the number of elements that it copies.\<close>

(* src/src/include/util/ministl.hpp:55-69 vector::vector(const vector&) *)
definition vec_copy :: "(nat \<Rightarrow> bool) \<Rightarrow> 'a vector \<Rightarrow> 'a vector result" where
  "vec_copy heap other =
     bind_result (vec_reserve heap \<lparr>vdata = [], reserved = vec_size other\<rparr> (vec_size other))
       (\<lambda>v. Inr (v\<lparr>vdata := vdata other\<rparr>))"

(* src/src/include/util/ministl.hpp:71-83 vector::vector(size_t) *)
definition vec_init :: "(nat \<Rightarrow> bool) \<Rightarrow> 'a \<Rightarrow> nat \<Rightarrow> 'a vector result" where
  "vec_init heap dflt init_num =
     bind_result (vec_reserve heap \<lparr>vdata = [], reserved = init_num\<rparr> init_num)
       (\<lambda>v. Inr (v\<lparr>vdata := replicate init_num dflt\<rparr>))"

text \<open>Storing into the slot after the last element: defined while that slot is allocated.\<close>

(* src/src/include/util/ministl.hpp:133-141 vector::push_back *)
definition push_back :: "(nat \<Rightarrow> bool) \<Rightarrow> 'a vector \<Rightarrow> 'a \<Rightarrow> 'a vector result" where
  "push_back heap v item =
     bind_result
       (if vec_size v = reserved v then vec_reserve heap v ((reserved v * 2) mod 2 ^ 32)
        else Inr v)
       (\<lambda>w. if vec_size w < reserved w then Inr (w\<lparr>vdata := vdata w @ [item]\<rparr>)
            else Inl Undefined)"

(* src/src/include/util/ministl.hpp:152-160 vector::at *)
definition vec_at :: "'a vector \<Rightarrow> nat \<Rightarrow> 'a result" where
  "vec_at v i = (if i \<ge> vec_size v then Inl (Panic ''(VECTOR) Overrun!'')
                 else Inr (vdata v ! i))"

(* src/src/include/util/ministl.hpp:149-150 vector::operator[] *)
definition vec_nth :: "'a vector \<Rightarrow> nat \<Rightarrow> 'a result" where
  "vec_nth v i = (if i < vec_size v then Inr (vdata v ! i) else Inl Undefined)"

text \<open>The loop of \<open>erase\<close> that moves the tail down over the erased range.\<close>

(* src/src/include/util/ministl.hpp:196-201 vector::erase *)
function erase_move :: "'a list \<Rightarrow> nat \<Rightarrow> nat \<Rightarrow> 'a list" where
  "erase_move data dst src =
     (if src < length data then erase_move (data[dst := data ! src]) (Suc dst) (Suc src)
      else data)"
  by pat_completeness auto
termination by (relation "measure (\<lambda>(data, dst, src). length data - src)") auto

declare erase_move.simps [simp del]

(* src/src/include/util/ministl.hpp:188-209 vector::erase *)
definition vec_erase_range :: "'a vector \<Rightarrow> nat \<Rightarrow> nat \<Rightarrow> 'a vector" where
  "vec_erase_range v start end' =
     (let e = (if end' > vec_size v then vec_size v else end');
          s = (if start > e then e else start);
          moved = erase_move (vdata v) s e;
          count = e - s
      in v\<lparr>vdata := take (vec_size v - count) moved\<rparr>)"

(* src/src/include/util/ministl.hpp:187-187 vector::erase(size_t) *)
definition vec_erase :: "'a vector \<Rightarrow> nat \<Rightarrow> 'a vector" where
  "vec_erase v erase_index = vec_erase_range v erase_index ((erase_index + 1) mod 2 ^ 32)"

(* src/src/include/util/ministl.hpp:186-186 vector::clear *)
definition vec_clear :: "'a vector \<Rightarrow> 'a vector" where
  "vec_clear v = vec_erase_range v 0 (vec_size v)"

text \<open>\<open>dataSize - 1\<close> wraps to the largest index when the vector is empty.\<close>

(* src/src/include/util/ministl.hpp:211-213 vector::pop_back *)
definition pop_back :: "'a vector \<Rightarrow> 'a vector" where
  "pop_back v = vec_erase v ((vec_size v + (2 ^ 32 - 1)) mod 2 ^ 32)"

(* src/src/include/util/ministl.hpp:215-220 vector::find *)
function vec_find_from :: "'a vector \<Rightarrow> 'a \<Rightarrow> nat \<Rightarrow> nat" where
  "vec_find_from v item i =
     (if i < vec_size v then (if vdata v ! i = item then i else vec_find_from v item (Suc i))
      else npos)"
  by pat_completeness auto
termination by (relation "measure (\<lambda>(v, item, i). vec_size v - i)") auto

declare vec_find_from.simps [simp del]

(* src/src/include/util/ministl.hpp:215-220 vector::find *)
definition vec_find :: "'a vector \<Rightarrow> 'a \<Rightarrow> nat" where
  "vec_find v item = vec_find_from v item 0"

text \<open>The loop of \<open>insert\<close> that moves the tail up by one, starting from the top.\<close>

(* src/src/include/util/ministl.hpp:175-178 vector::insert *)
fun insert_shift :: "'a list \<Rightarrow> nat \<Rightarrow> nat \<Rightarrow> 'a list" where
  "insert_shift data loop pos =
     (if pos < loop then insert_shift (data[loop := data ! (loop - 1)]) (loop - 1) pos
      else data)"

declare insert_shift.simps [simp del]

(* src/src/include/util/ministl.hpp:162-184 vector::insert *)
definition vec_insert :: "(nat \<Rightarrow> bool) \<Rightarrow> 'a vector \<Rightarrow> nat \<Rightarrow> 'a \<Rightarrow> 'a vector result" where
  "vec_insert heap v pos item =
     (if pos \<ge> vec_size v then Inl (Thrown 1)
      else bind_result
        (if vec_size v = reserved v then vec_reserve heap v ((reserved v * 2) mod 2 ^ 32)
         else Inr v)
        (\<lambda>w. if vec_size w < reserved w
             then Inr (w\<lparr>vdata :=
               (insert_shift (vdata w @ [last (vdata w)]) (vec_size w - 1) pos)[pos := item]\<rparr>)
             else Inl Undefined))"

(* src/src/include/util/ministl.hpp:127-131 vector::resize *)
fun vec_fill :: "(nat \<Rightarrow> bool) \<Rightarrow> 'a \<Rightarrow> nat \<Rightarrow> 'a vector \<Rightarrow> 'a vector result" where
  "vec_fill heap dflt 0 v = Inr v"
| "vec_fill heap dflt (Suc n) v = bind_result (push_back heap v dflt) (vec_fill heap dflt n)"

(* src/src/include/util/ministl.hpp:127-131 vector::resize *)
definition vec_resize :: "(nat \<Rightarrow> bool) \<Rightarrow> 'a \<Rightarrow> 'a vector \<Rightarrow> nat \<Rightarrow> 'a vector result" where
  "vec_resize heap dflt v new_size =
     (let v' = (if vec_size v > new_size then vec_erase_range v new_size (vec_size v) else v)
      in bind_result (vec_reserve heap v' new_size)
           (\<lambda>w. vec_fill heap dflt (new_size - vec_size w) w))"

subsection \<open>Well-formed vectors\<close>

definition vec_ok :: "'a vector \<Rightarrow> bool" where
  "vec_ok v \<longleftrightarrow> vec_size v \<le> reserved v \<and> 0 < reserved v \<and> reserved v < 2 ^ 31"

lemma vec_new_ok: "heap 10 \<Longrightarrow> \<exists>v. vec_new heap = Inr v \<and> vec_ok v \<and> vdata v = []"
  by (simp add: vec_new_def vec_reserve_def vec_ok_def vec_size_def)

lemma length_erase_move [simp]: "length (erase_move data dst src) = length data"
proof (induction data dst src rule: erase_move.induct)
  case (1 data dst src)
  then show ?case by (subst erase_move.simps) simp
qed

lemma erase_move_correct:
  "dst \<le> src \<Longrightarrow> src \<le> length data \<Longrightarrow>
   take (length data - (src - dst)) (erase_move data dst src) = take dst data @ drop src data"
proof (induction data dst src rule: erase_move.induct)
  case (1 data dst src)
  show ?case
  proof (cases "src < length data")
    case True
    have len: "length (data[dst := data ! src]) - (Suc src - Suc dst) = length data - (src - dst)"
      by simp
    have "take (length data - (src - dst)) (erase_move data dst src)
        = take (Suc dst) (data[dst := data ! src]) @ drop (Suc src) (data[dst := data ! src])"
      using 1 True len by (subst erase_move.simps) simp
    also have "\<dots> = take dst data @ data ! src # drop (Suc src) data"
      using 1(2) True by (simp add: take_Suc_conv_app_nth)
    also have "\<dots> = take dst data @ drop src data"
      using True by (simp add: Cons_nth_drop_Suc)
    finally show ?thesis .
  next
    case False
    with 1 show ?thesis by (subst erase_move.simps) simp
  qed
qed

lemma vdata_erase_range [vec_simps]:
  "vdata (vec_erase_range v s e) =
     take (min s (min e (vec_size v))) (vdata v) @ drop (min e (vec_size v)) (vdata v)"
proof -
  have clip: "(if b < a then b else a) = min a b" for a b :: nat
    by (simp add: min_def)
  define e' where "e' = min e (vec_size v)"
  define s' where "s' = min s e'"
  have "s' \<le> e'" "e' \<le> length (vdata v)"
    unfolding s'_def e'_def vec_size_def by linarith+
  then have "take (vec_size v - (e' - s')) (erase_move (vdata v) s' e') =
      take s' (vdata v) @ drop e' (vdata v)"
    unfolding vec_size_def by (rule erase_move_correct)
  then show ?thesis
    unfolding vec_erase_range_def Let_def clip e'_def s'_def by simp
qed

lemma reserved_erase_range [simp]: "reserved (vec_erase_range v s e) = reserved v"
  by (simp add: vec_erase_range_def Let_def)

lemma reserved_vec_erase [simp]: "reserved (vec_erase v i) = reserved v"
  by (simp add: vec_erase_def)

lemma vdata_vec_erase [vec_simps]:
  "vec_size v < 2 ^ 32 - 1 \<Longrightarrow> i < 2 ^ 32 - 1 \<Longrightarrow> vdata (vec_erase v i) = erase_at i (vdata v)"
  by (cases "i < vec_size v")
    (simp_all add: vec_erase_def vdata_erase_range erase_at_def vec_size_def min_def)

lemma vec_erase_npos [vec_simps]: "vdata (vec_erase v npos) = vdata v"
  by (simp add: vec_erase_def npos_def vdata_erase_range)

lemma vdata_vec_clear [vec_simps]: "vdata (vec_clear v) = []"
  by (simp add: vec_clear_def vdata_erase_range vec_size_def)

lemma vdata_pop_back [vec_simps]:
  "vec_size v < 2 ^ 32 - 1 \<Longrightarrow> vdata (pop_back v) = butlast (vdata v)"
proof (cases "vdata v" rule: rev_cases)
  case Nil
  then show ?thesis
    by (simp add: pop_back_def vec_erase_def vdata_erase_range vec_size_def)
next
  case (snoc xs x)
  assume small: "vec_size v < 2 ^ 32 - 1"
  have "(vec_size v + (2 ^ 32 - 1)) mod 2 ^ 32 = vec_size v - 1"
    using snoc small by (simp add: vec_size_def mod_if)
  with snoc small show ?thesis
    by (simp add: pop_back_def vdata_vec_erase erase_at_def vec_size_def)
qed

lemma vec_find_from_correct:
  "vec_find_from v x i = (case find_index ((=) x) (drop i (vdata v)) of None \<Rightarrow> npos | Some k \<Rightarrow> i + k)"
proof (induction v x i rule: vec_find_from.induct)
  case (1 v x i)
  show ?case
  proof (cases "i < vec_size v")
    case True
    then have "drop i (vdata v) = vdata v ! i # drop (Suc i) (vdata v)"
      by (simp add: vec_size_def Cons_nth_drop_Suc)
    with True 1 show ?thesis
      by (subst vec_find_from.simps) (auto split: option.splits)
  next
    case False
    then show ?thesis
      by (subst vec_find_from.simps) (simp add: vec_size_def)
  qed
qed

lemma vec_find_correct [vec_simps]:
  "vec_find v x = (case find_index ((=) x) (vdata v) of None \<Rightarrow> npos | Some k \<Rightarrow> k)"
  by (simp add: vec_find_def vec_find_from_correct split: option.split)

text \<open>The idiom \<open>v.erase(v.find(x))\<close> removes the first occurrence, and nothing when there
  is none: \<open>npos\<close> plus one wraps to zero, so the erased range is empty.\<close>

lemma erase_find_first [vec_simps]:
  assumes "vec_size v < 2 ^ 32 - 1"
  shows "vdata (vec_erase v (vec_find v x)) = remove_first ((=) x) (vdata v)"
proof (cases "find_index ((=) x) (vdata v)")
  case None
  then show ?thesis by (simp add: vec_find_correct vec_erase_npos remove_first_def)
next
  case (Some k)
  then have "k < vec_size v" by (simp add: find_index_Some_bound vec_size_def)
  with Some assms show ?thesis
    by (simp add: vec_find_correct vdata_vec_erase remove_first_def)
qed

lemma length_insert_shift [simp]: "length (insert_shift data loop pos) = length data"
proof (induction data loop pos rule: insert_shift.induct)
  case (1 data loop pos)
  then show ?case by (subst insert_shift.simps) simp
qed

lemma insert_shift_nth:
  "loop < length data \<Longrightarrow> j < length data \<Longrightarrow>
   insert_shift data loop pos ! j =
     (if pos < j \<and> j \<le> loop then data ! (j - 1) else data ! j)"
proof (induction data loop pos rule: insert_shift.induct)
  case (1 data loop pos)
  show ?case
  proof (cases "pos < loop")
    case True
    then have "insert_shift data loop pos ! j =
        insert_shift (data[loop := data ! (loop - 1)]) (loop - 1) pos ! j"
      by (subst insert_shift.simps) simp
    with 1 True show ?thesis by (auto simp: nth_list_update)
  next
    case False
    then have "insert_shift data loop pos = data"
      by (subst insert_shift.simps) simp
    with False show ?thesis by auto
  qed
qed

lemma insert_shift_correct:
  assumes "pos < length xs"
  shows "(insert_shift (xs @ [last xs]) (length xs - 1) pos)[pos := x] =
           take pos xs @ x # drop pos xs"
proof (rule nth_equalityI)
  show "length ((insert_shift (xs @ [last xs]) (length xs - 1) pos)[pos := x]) =
      length (take pos xs @ x # drop pos xs)"
    using assms by simp
next
  fix j
  assume "j < length ((insert_shift (xs @ [last xs]) (length xs - 1) pos)[pos := x])"
  then have j: "j < Suc (length xs)" by simp
  have last: "xs \<noteq> [] \<Longrightarrow> last xs = xs ! (length xs - 1)"
    by (simp add: last_conv_nth)
  consider "j < pos" | "j = pos" | "pos < j" "j < length xs" | "j = length xs" "pos < j"
    using j assms by linarith
  then show "(insert_shift (xs @ [last xs]) (length xs - 1) pos)[pos := x] ! j =
      (take pos xs @ x # drop pos xs) ! j"
    using assms j
    by cases (auto simp: insert_shift_nth nth_append nth_Cons' last)
qed

lemma vec_grow_ok:
  assumes "vec_ok v" and "vec_size v = reserved v \<longrightarrow> heap (2 * reserved v)"
  shows "\<exists>w. (if vec_size v = reserved v
              then vec_reserve heap v ((reserved v * 2) mod 2 ^ 32) else Inr v) = Inr w \<and>
           vdata w = vdata v \<and> vec_size w < reserved w \<and> reserved v \<le> reserved w"
proof (cases "vec_size v = reserved v")
  case True
  have "(reserved v * 2) mod 2 ^ 32 = 2 * reserved v"
    using assms by (simp add: vec_ok_def)
  with True assms show ?thesis
    by (simp add: vec_reserve_def vec_ok_def vec_size_def del: mod_less)
next
  case False
  with assms show ?thesis
    by (simp add: vec_ok_def)
qed

lemma vec_fill_ok:
  "vec_size v + n \<le> reserved v \<Longrightarrow>
   vec_fill heap d n v = Inr (v\<lparr>vdata := vdata v @ replicate n d\<rparr>)"
proof (induction n arbitrary: v)
  case 0
  then show ?case by simp
next
  case (Suc n)
  then have "push_back heap v d = Inr (v\<lparr>vdata := vdata v @ [d]\<rparr>)"
    by (simp add: push_back_def)
  with Suc show ?case
    by (simp add: vec_size_def replicate_append_same)
qed

lemma vec_resize_ok:
  assumes "new_size < reserved v \<or> heap new_size" "vec_size v < 2 ^ 32"
  shows "\<exists>w. vec_resize heap d v new_size = Inr w \<and>
           vdata w = take new_size (vdata v) @ replicate (new_size - vec_size v) d"
proof -
  let ?v' = "if vec_size v > new_size then vec_erase_range v new_size (vec_size v) else v"
  have v': "vdata ?v' = take new_size (vdata v)" "reserved ?v' = reserved v"
    by (auto simp: vdata_erase_range vec_size_def)
  obtain w where w: "vec_reserve heap ?v' new_size = Inr w" "vdata w = vdata ?v'"
    "new_size \<le> reserved w"
    using assms v' by (cases "new_size < reserved v") (auto simp: vec_reserve_def)
  then have "vec_size w + (new_size - vec_size w) \<le> reserved w"
    using v' by (simp add: vec_size_def)
  then have "vec_fill heap d (new_size - vec_size w) w =
      Inr (w\<lparr>vdata := vdata w @ replicate (new_size - vec_size w) d\<rparr>)"
    by (rule vec_fill_ok)
  moreover have "new_size - vec_size w = new_size - vec_size v"
    using w v' by (simp add: vec_size_def)
  ultimately show ?thesis
    using w v' by (simp add: vec_resize_def Let_def)
qed

section \<open>map\<close>

(* src/src/include/util/ministl.hpp:345-361 map *)
record ('k, 'v) kmap =
  m_data :: "('k \<times> 'v) list"
  m_capacity :: nat

(* src/src/include/util/ministl.hpp:345-345 map_growth_factor *)
definition map_growth_factor :: nat where
  "map_growth_factor = 64"

(* src/src/include/util/ministl.hpp:363-366 map::map *)
definition map_new :: "('k, 'v) kmap" where
  "map_new = \<lparr>m_data = [], m_capacity = map_growth_factor\<rparr>"

(* src/src/include/util/ministl.hpp:368-376 map::map(const map&) *)
definition map_copy :: "('k, 'v) kmap \<Rightarrow> ('k, 'v) kmap" where
  "map_copy rhs = \<lparr>m_data = m_data rhs, m_capacity = m_capacity rhs\<rparr>"

(* src/src/include/util/ministl.hpp:505-508 map::size *)
definition map_size :: "('k, 'v) kmap \<Rightarrow> nat" where
  "map_size m = length (m_data m)"

(* src/src/include/util/ministl.hpp:500-503 map::empty *)
definition map_is_empty :: "('k, 'v) kmap \<Rightarrow> bool" where
  "map_is_empty m \<longleftrightarrow> map_size m = 0"

(* src/src/include/util/ministl.hpp:476-498 map::reserve *)
definition map_reserve :: "('k, 'v) kmap \<Rightarrow> nat \<Rightarrow> ('k, 'v) kmap" where
  "map_reserve m c = (if c < m_capacity m then m else m\<lparr>m_capacity := c\<rparr>)"

(* src/src/include/util/ministl.hpp:390-399 map::insert *)
definition map_insert :: "('k, 'v) kmap \<Rightarrow> 'k \<times> 'v \<Rightarrow> ('k, 'v) kmap" where
  "map_insert m kv =
     (let m' = (if map_size m + 1 \<ge> m_capacity m
                then map_reserve m (m_capacity m + map_growth_factor) else m)
      in m'\<lparr>m_data := m_data m' @ [kv]\<rparr>)"

text \<open>The loop of \<open>erase(iterator)\<close>. It runs once for every element from the erased one to
  the last, and each round copies the following slot, so that the last round reads the
  slot after the last element. That slot is \<open>spare\<close> below.\<close>

(* src/src/include/util/ministl.hpp:402-405 map::erase(iterator) *)
fun erase_it_loop :: "'a list \<Rightarrow> nat \<Rightarrow> nat \<Rightarrow> 'a list" where
  "erase_it_loop data p 0 = data"
| "erase_it_loop data p (Suc n) = erase_it_loop (data[p := data ! Suc p]) (Suc p) n"

(* src/src/include/util/ministl.hpp:401-407 map::erase(iterator) *)
definition map_erase_it :: "'k \<times> 'v \<Rightarrow> ('k, 'v) kmap \<Rightarrow> nat \<Rightarrow> ('k, 'v) kmap" where
  "map_erase_it spare m it =
     (let moved = erase_it_loop (m_data m @ [spare]) it (map_size m - it)
      in m\<lparr>m_data := take (map_size m - 1) moved\<rparr>)"

(* src/src/include/util/ministl.hpp:420-430 map::has_key *)
definition map_has_key :: "('k, 'v) kmap \<Rightarrow> 'k \<Rightarrow> bool" where
  "map_has_key m k \<longleftrightarrow> list_ex (\<lambda>e. fst e = k) (m_data m)"

(* src/src/include/util/ministl.hpp:409-418 map::erase(const key_type&) *)
definition map_erase_raw :: "'k \<times> 'v \<Rightarrow> ('k, 'v) kmap \<Rightarrow> 'k \<Rightarrow> ('k, 'v) kmap" where
  "map_erase_raw spare m k =
     (if map_has_key m k
      then (case find_index (\<lambda>e. fst e = k) (m_data m) of
              None \<Rightarrow> m
            | Some i \<Rightarrow> map_erase_it spare m i)
      else m)"

text \<open>\<open>operator[]\<close> inserts a default value for a key that is not there, and returns a
  reference to the slot: the model returns the position of the slot and the map.\<close>

(* src/src/include/util/ministl.hpp:432-444 map::operator[] *)
definition map_slot :: "'v \<Rightarrow> ('k, 'v) kmap \<Rightarrow> 'k \<Rightarrow> nat \<times> ('k, 'v) kmap" where
  "map_slot dflt m k =
     (case find_index (\<lambda>e. fst e = k) (m_data m) of
        Some i \<Rightarrow> (i, m)
      | None \<Rightarrow> (map_size m, map_insert m (k, dflt)))"

text \<open>Reading and writing through that reference.\<close>

(* src/src/include/util/ministl.hpp:432-444 map::operator[] *)
definition map_index :: "'v \<Rightarrow> ('k, 'v) kmap \<Rightarrow> 'k \<Rightarrow> 'v \<times> ('k, 'v) kmap" where
  "map_index dflt m k = (let (i, m') = map_slot dflt m k in (snd (m_data m' ! i), m'))"

(* src/src/include/util/ministl.hpp:432-444 map::operator[] *)
definition map_assign_raw :: "'v \<Rightarrow> ('k, 'v) kmap \<Rightarrow> 'k \<Rightarrow> 'v \<Rightarrow> ('k, 'v) kmap" where
  "map_assign_raw dflt m k x =
     (let (i, m') = map_slot dflt m k
      in m'\<lparr>m_data := (m_data m')[i := (fst (m_data m' ! i), x)]\<rparr>)"

(* src/src/include/util/ministl.hpp:462-474 map::get *)
definition map_get :: "'k \<times> 'v \<Rightarrow> ('k, 'v) kmap \<Rightarrow> 'k \<Rightarrow> 'k \<times> 'v" where
  "map_get dflt m k =
     (case List.find (\<lambda>e. fst e = k) (m_data m) of Some e \<Rightarrow> e | None \<Rightarrow> dflt)"

text \<open>What the clients of the map use: erasing and assigning with the loop and the slot
  position abstracted away. Lemmas \<open>map_erase_raw_eq\<close> and \<open>map_assign_raw_eq\<close> below show
  that the operations of the source are these, for every default and every content of the
  slot after the last element.\<close>

(* src/src/include/util/ministl.hpp:409-418 map::erase(const key_type&) *)
definition map_erase :: "('k, 'v) kmap \<Rightarrow> 'k \<Rightarrow> ('k, 'v) kmap" where
  "map_erase m k = m\<lparr>m_data := remove_first (\<lambda>e. fst e = k) (m_data m)\<rparr>"

primrec update_first :: "'k \<Rightarrow> 'v \<Rightarrow> ('k \<times> 'v) list \<Rightarrow> ('k \<times> 'v) list" where
  "update_first k x [] = []"
| "update_first k x (e # es) = (if fst e = k then (k, x) # es else e # update_first k x es)"

(* src/src/include/util/ministl.hpp:432-444 map::operator[] *)
definition map_assign :: "('k, 'v) kmap \<Rightarrow> 'k \<Rightarrow> 'v \<Rightarrow> ('k, 'v) kmap" where
  "map_assign m k x =
     (if map_has_key m k then m\<lparr>m_data := update_first k x (m_data m)\<rparr>
      else map_insert m (k, x))"

definition map_lookup :: "('k, 'v) kmap \<Rightarrow> 'k \<Rightarrow> 'v option" where
  "map_lookup m k = map_of (m_data m) k"

definition map_ok :: "('k, 'v) kmap \<Rightarrow> bool" where
  "map_ok m \<longleftrightarrow> distinct (map fst (m_data m)) \<and> map_size m < m_capacity m"

subsection \<open>The loops and references of the source\<close>

lemma erase_it_loop_eq:
  "p + n < length data \<Longrightarrow>
   erase_it_loop data p n = take p data @ take n (drop (Suc p) data) @ drop (p + n) data"
proof (induction n arbitrary: data p)
  case 0
  then show ?case by simp
next
  case (Suc n)
  have tail: "take (Suc n) (drop (Suc p) data) =
      data ! Suc p # take n (drop (Suc (Suc p)) data)"
    using Suc.prems by (simp add: Cons_nth_drop_Suc [symmetric])
  show ?case
    using Suc by (simp add: tail take_Suc_conv_app_nth)
qed

lemma m_data_map_erase_it:
  "i < map_size m \<Longrightarrow> m_data (map_erase_it spare m i) = erase_at i (m_data m)"
  by (simp add: map_erase_it_def map_size_def Let_def erase_it_loop_eq erase_at_def)

lemma map_erase_raw_eq [kmap_simps]: "map_erase_raw spare m k = map_erase m k"
proof (cases "find_index (\<lambda>e. fst e = k) (m_data m)")
  case None
  then show ?thesis
    by (auto simp: map_erase_raw_def map_erase_def remove_first_def)
next
  case (Some i)
  then have "i < map_size m" "map_has_key m k"
    using find_index_SomeD [OF Some]
    by (auto simp: map_size_def map_has_key_def list_ex_iff)
  with Some show ?thesis
    using m_data_map_erase_it [of i m spare]
    by (simp add: map_erase_raw_def map_erase_def remove_first_def map_erase_it_def Let_def)
qed

lemma find_index_key_None: "find_index (\<lambda>e. fst e = k) es = None \<longleftrightarrow> \<not> list_ex (\<lambda>e. fst e = k) es"
  by (auto simp: find_index_None_iff list_ex_iff)

lemma update_first_at:
  "find_index (\<lambda>e. fst e = k) es = Some i \<Longrightarrow> es[i := (fst (es ! i), x)] = update_first k x es"
  by (induction es arbitrary: i) (auto split: if_splits)

lemma m_data_map_insert [simp]: "m_data (map_insert m kv) = m_data m @ [kv]"
  by (simp add: map_insert_def map_reserve_def Let_def)

lemma map_assign_raw_eq [kmap_simps]: "map_assign_raw d m k x = map_assign m k x"
proof (cases "find_index (\<lambda>e. fst e = k) (m_data m)")
  case None
  then have "\<not> map_has_key m k"
    by (simp add: find_index_key_None map_has_key_def)
  then show ?thesis
    using None
    by (simp add: map_assign_raw_def map_slot_def map_assign_def map_size_def)
      (simp add: map_insert_def map_reserve_def Let_def)
next
  case (Some i)
  then have "map_has_key m k"
    using find_index_key_None [of k "m_data m"] by (auto simp: map_has_key_def)
  with Some show ?thesis
    by (simp add: map_assign_raw_def map_slot_def map_assign_def update_first_at)
qed

subsection \<open>Laws of the map\<close>

lemma map_has_key_iff: "map_has_key m k \<longleftrightarrow> map_lookup m k \<noteq> None"
  by (simp add: map_has_key_def map_lookup_def map_of_eq_None_iff list_ex_iff image_iff) metis

lemma find_index_map_of:
  "find_index (\<lambda>e. fst e = k) es = Some i \<Longrightarrow> map_of es k = Some (snd (es ! i))"
  by (induction es arbitrary: i) (auto split: if_splits)

text \<open>Reading through \<open>operator[]\<close> inserts the default for a key that is absent.\<close>

lemma map_index_eq:
  "map_index d m k =
     (case map_lookup m k of Some x \<Rightarrow> (x, m) | None \<Rightarrow> (d, map_insert m (k, d)))"
proof (cases "find_index (\<lambda>e. fst e = k) (m_data m)")
  case None
  then have "map_lookup m k = None"
    using map_has_key_iff [of m k] by (simp add: find_index_key_None map_has_key_def)
  with None show ?thesis
    by (simp add: map_index_def map_slot_def map_size_def)
next
  case (Some i)
  then show ?thesis
    using find_index_map_of [OF Some] by (simp add: map_index_def map_slot_def map_lookup_def)
qed

lemma map_lookup_insert:
  "map_lookup m k = None \<Longrightarrow> map_lookup (map_insert m (k, x)) = (map_lookup m)(k \<mapsto> x)"
  by (auto simp: map_lookup_def map_add_def fun_eq_iff split: option.split)

lemma card_dom_map_lookup: "card (dom (map_lookup m)) \<le> map_size m"
proof -
  have "dom (map_lookup m) = fst ` set (m_data m)"
    by (simp add: map_lookup_def [abs_def] dom_map_of_conv_image_fst)
  then show ?thesis
    by (metis card_length length_map list.set_map map_size_def)
qed

lemma keys_update_first [simp]: "map fst (update_first k x es) = map fst es"
  by (induction es) auto

lemma map_of_update_first:
  "map_of (update_first k x es) j =
     (if j = k \<and> k \<in> fst ` set es then Some x else map_of es j)"
  by (induction es) force+

lemma map_lookup_assign [kmap_simps]: "map_lookup (map_assign m k x) = (map_lookup m)(k \<mapsto> x)"
proof (cases "map_has_key m k")
  case True
  then have "k \<in> fst ` set (m_data m)"
    by (force simp: map_has_key_def list_ex_iff)
  with True show ?thesis
    by (simp add: map_lookup_def map_assign_def map_of_update_first fun_eq_iff)
next
  case False
  then have "map_of (m_data m) k = None"
    by (simp add: map_has_key_iff map_lookup_def)
  with False show ?thesis
    by (auto simp: map_lookup_def map_assign_def map_add_def fun_eq_iff split: option.split)
qed

lemma map_of_remove_first:
  "distinct (map fst es) \<Longrightarrow> map_of (remove_first (\<lambda>e. fst e = k) es) = (map_of es)(k := None)"
  by (induction es) (auto simp: fun_eq_iff dest: map_of_eq_None_iff [THEN iffD2])

lemma map_lookup_erase [kmap_simps]:
  "map_ok m \<Longrightarrow> map_lookup (map_erase m k) = (map_lookup m)(k := None)"
  by (simp add: map_lookup_def map_erase_def map_of_remove_first map_ok_def fun_eq_iff)

lemma map_lookup_new [kmap_simps]: "map_lookup map_new = Map.empty"
  by (simp add: map_lookup_def map_new_def fun_eq_iff)

lemma map_size_new [simp]: "map_size map_new = 0"
  by (simp add: map_size_def map_new_def)

lemma map_ok_new [simp]: "map_ok map_new"
  by (simp add: map_ok_def map_new_def map_size_def map_growth_factor_def)

lemma map_ok_insert: "map_ok m \<Longrightarrow> \<not> map_has_key m k \<Longrightarrow> map_ok (map_insert m (k, x))"
  by (auto simp: map_ok_def map_insert_def map_reserve_def map_size_def Let_def
      map_growth_factor_def map_has_key_def list_ex_iff)

lemma map_ok_assign [simp]: "map_ok m \<Longrightarrow> map_ok (map_assign m k x)"
  using map_ok_insert [of m k x]
  by (auto simp: map_assign_def map_ok_def map_size_def)
    (metis keys_update_first length_map)

lemma length_remove_first: "length (remove_first P xs) \<le> length xs"
  by (induction xs) auto

lemma keys_remove_first:
  "map fst (remove_first (\<lambda>e. fst e = k) es) = remove_first ((=) k) (map fst es)"
  by (induction es) auto

lemma distinct_remove_first: "distinct xs \<Longrightarrow> distinct (remove_first P xs)"
  by (induction xs) (auto dest: subsetD [OF set_remove_first_subset])

lemma map_ok_erase [simp]: "map_ok m \<Longrightarrow> map_ok (map_erase m k)"
  using length_remove_first [of "\<lambda>e. fst e = k" "m_data m"]
  by (simp add: map_ok_def map_erase_def map_size_def keys_remove_first distinct_remove_first)

section \<open>The interface of key/value stores\<close>

text \<open>What the kernel's registries rely on: \<open>look\<close> is the abstraction function to partial
  maps, and every operation acts on it as expected.\<close>

locale key_store =
  fixes ok :: "'m \<Rightarrow> bool"
    and fresh_store :: "'m"
    and has :: "'m \<Rightarrow> 'k \<Rightarrow> bool"
    and look :: "'m \<Rightarrow> 'k \<Rightarrow> 'v option"
    and store :: "'m \<Rightarrow> 'k \<Rightarrow> 'v \<Rightarrow> 'm"
    and discard :: "'m \<Rightarrow> 'k \<Rightarrow> 'm"
  assumes ok_fresh: "ok fresh_store"
    and ok_store: "ok m \<Longrightarrow> ok (store m k x)"
    and ok_discard: "ok m \<Longrightarrow> ok (discard m k)"
    and look_fresh: "look fresh_store k = None"
    and has_look: "has m k \<longleftrightarrow> look m k \<noteq> None"
    and look_store: "look (store m k x) = (look m)(k \<mapsto> x)"
    and look_discard: "ok m \<Longrightarrow> look (discard m k) = (look m)(k := None)"
    and finite_look: "finite (dom (look m))"
begin

lemma has_store: "has (store m k x) j \<longleftrightarrow> j = k \<or> has m j"
  by (simp add: has_look look_store)

lemma has_discard: "ok m \<Longrightarrow> has (discard m k) j \<longleftrightarrow> j \<noteq> k \<and> has m j"
  by (simp add: has_look look_discard)

lemma discard_after_store:
  "ok m \<Longrightarrow> \<not> has m k \<Longrightarrow> look (discard (store m k x) k) = look m"
  by (simp add: has_look look_store look_discard ok_store fun_upd_idem)

lemma store_same: "look (store (store m k x) k y) = look (store m k y)"
  by (simp add: look_store)

lemma dom_store: "dom (look (store m k x)) = insert k (dom (look m))"
  by (simp add: look_store)

lemma dom_discard: "ok m \<Longrightarrow> dom (look (discard m k)) = dom (look m) - {k}"
  by (simp add: look_discard)

text \<open>Among infinitely many candidate keys one is free: the loops that count a name suffix up
  until the name is unused end.\<close>

lemma fresh_key_exists:
  assumes "inj (f :: nat \<Rightarrow> 'k)"
  shows "\<exists>n. \<not> has m (f n)"
proof (rule ccontr)
  assume "\<not> ?thesis"
  then have "range f \<subseteq> dom (look m)"
    by (auto simp: has_look)
  then have "finite (range f)"
    by (rule finite_subset) (rule finite_look)
  with assms show False
    by (simp add: finite_image_iff)
qed

end

interpretation kernel_map: key_store map_ok map_new map_has_key map_lookup map_assign map_erase
  by unfold_locales
    (auto simp: kmap_simps map_has_key_iff, simp add: map_lookup_def [abs_def] finite_dom_map_of)

section \<open>Properties\<close>

text \<open>C12. Appending to a well-formed vector succeeds whenever the heap grants the doubled
  allocation, puts the element at the end, never writes past the allocated slots, and leaves
  a vector with room for all of its elements.\<close>

theorem push_back_appends:
  assumes "vec_ok v" and "vec_size v = reserved v \<longrightarrow> heap (2 * reserved v)"
  shows "\<exists>w. push_back heap v x = Inr w \<and> vdata w = vdata v @ [x] \<and>
           vec_size w \<le> reserved w \<and> reserved v \<le> reserved w"
proof -
  obtain w where "(if vec_size v = reserved v
        then vec_reserve heap v ((reserved v * 2) mod 2 ^ 32) else Inr v) = Inr w"
      "vdata w = vdata v" "vec_size w < reserved w" "reserved v \<le> reserved w"
    using vec_grow_ok [of v heap] assms by blast
  then show ?thesis
    by (simp add: push_back_def vec_size_def)
qed

theorem push_back_appends_witness:
  "\<exists>w. push_back (\<lambda>n. n \<le> 100) \<lparr>vdata = [1, 2 :: nat], reserved = 2\<rparr> 3 = Inr w \<and>
     vdata w = [1, 2, 3]"
  using push_back_appends [of "\<lparr>vdata = [1, 2 :: nat], reserved = 2\<rparr>" "\<lambda>n. n \<le> 100" 3]
  by (auto simp: vec_ok_def vec_size_def)

text \<open>A copy of an empty vector has no slot, and doubling zero slots gives none: the first
  append to such a copy writes outside the allocation.\<close>

theorem copy_of_empty_push_back:
  assumes "vdata v = []" and "heap 0"
  shows "\<exists>w. vec_copy heap v = Inr w \<and> push_back heap w x = Inl Undefined"
  using assms by (simp add: vec_copy_def vec_reserve_def push_back_def vec_size_def)

theorem copy_of_empty_push_back_witness:
  "\<exists>w. vec_copy (\<lambda>n. True) \<lparr>vdata = [], reserved = 10\<rparr> = Inr w \<and>
     push_back (\<lambda>n. True) w (7 :: nat) = Inl Undefined"
  using copy_of_empty_push_back [of "\<lparr>vdata = [], reserved = 10\<rparr>" "\<lambda>n. True" "7 :: nat"]
  by simp

text \<open>C11. The element-moving loop of \<open>vector::insert\<close> puts the new element before position
  \<open>pos\<close> and keeps all others in order; the loop of \<open>vector::erase\<close>, with the clipping of its
  bounds, removes exactly the elements of the index range, whatever the bounds.\<close>

theorem vector_moves_correct:
  assumes "vec_ok v" and "vec_size v = reserved v \<longrightarrow> heap (2 * reserved v)"
    and "pos < vec_size v"
  shows "(\<exists>w. vec_insert heap v pos x = Inr w \<and>
            vdata w = take pos (vdata v) @ x # drop pos (vdata v) \<and> vec_size w \<le> reserved w) \<and>
         vdata (vec_erase_range v s e) =
           take (min s (min e (vec_size v))) (vdata v) @ drop (min e (vec_size v)) (vdata v)"
proof -
  obtain w where w: "(if vec_size v = reserved v
        then vec_reserve heap v ((reserved v * 2) mod 2 ^ 32) else Inr v) = Inr w"
      "vdata w = vdata v" "vec_size w < reserved w"
    using vec_grow_ok [of v heap] assms(1,2) by blast
  then have "vec_insert heap v pos x = Inr (w\<lparr>vdata := take pos (vdata v) @ x # drop pos (vdata v)\<rparr>)"
    using assms(3) insert_shift_correct [of pos "vdata v" x]
    by (simp add: vec_insert_def vec_size_def)
  with w assms(3) show ?thesis
    by (simp add: vec_size_def vdata_erase_range)
qed

theorem vector_moves_correct_witness:
  "\<exists>w. vec_insert (\<lambda>n. True) \<lparr>vdata = [1, 2, 3 :: nat], reserved = 3\<rparr> 1 9 = Inr w \<and>
     vdata w = [1, 9, 2, 3]"
  using vector_moves_correct
    [of "\<lparr>vdata = [1, 2, 3 :: nat], reserved = 3\<rparr>" "\<lambda>n. True" 1 9]
  by (auto simp: vec_ok_def vec_size_def)



end
