(* ===== verification/Handles.thy ===== *)
theory Handles
  imports Ministl Locks "HOL-Library.Multiset"
begin

text \<open>
  Kernel handles: the generic handle and its checked cast
  (src/src/include/module/handle.hpp, kernelsys/handles.hpp), the table of handles that
  somebody depends on (src/src/kernel/handles.cpp) and the handles that wait for any or all
  of several others (src/src/kernel/waiting.cpp).

  Handles are pointers, of a type \<open>'h\<close>. Their virtual method \<open>Wait\<close> is the parameter
  \<open>ready\<close>. The dependency table is a vector; by the lemmas of Ministl its \<open>find\<close> and
  \<open>erase\<close> are the first match and its removal, which is how they are written here.
\<close>

section \<open>Generic handles\<close>

text \<open>\<open>close\<close> and \<open>wait\<close> are function objects that may be empty.\<close>

(* src/src/include/module/handle.hpp:19-30 GenericHandle *)
record ('d, 's) generic_handle =
  gh_type :: u32
  gh_data :: 'd
  gh_close :: "('d \<Rightarrow> 's \<Rightarrow> 's) option"
  gh_wait :: "('d \<Rightarrow> 's \<Rightarrow> bool) option"

(* src/src/include/module/handle.hpp:35-37 GenericHandle::Close *)
definition HandleClose :: "('d, 's) generic_handle \<Rightarrow> 's \<Rightarrow> 's" where
  "HandleClose h s = (case gh_close h of Some f \<Rightarrow> f (gh_data h) s | None \<Rightarrow> s)"

(* src/src/include/module/handle.hpp:39-42 GenericHandle::Wait *)
definition HandleWait :: "('d, 's) generic_handle \<Rightarrow> 's \<Rightarrow> bool" where
  "HandleWait h s = (case gh_wait h of Some f \<Rightarrow> f (gh_data h) s | None \<Rightarrow> False)"

(* src/src/include/module/handle.hpp:51-54 MakeGenericHandle *)
definition MakeGenericHandle ::
  "u32 \<Rightarrow> 'd \<Rightarrow> ('d \<Rightarrow> 's \<Rightarrow> 's) option \<Rightarrow> ('d \<Rightarrow> 's \<Rightarrow> bool) option \<Rightarrow> ('d, 's) generic_handle" where
  "MakeGenericHandle t d c w = \<lparr>gh_type = t, gh_data = d, gh_close = c, gh_wait = w\<rparr>"

text \<open>The kernel's handle types, with their numbers.\<close>

(* src/src/include/module/kernelsys/handles.hpp:25-37 KernelHandles *)
datatype kernel_handle_type =
    KHInvalid | KHLock | KHFile | KHDirectory | KHThread | KHMemoryMapping | KHSHMSpace
  | KHSHMMapping | KHAtom | KHWait | KHAtomWait | KHMessageRecieve | KHElf

(* src/src/include/module/kernelsys/handles.hpp:25-37 KernelHandles *)
fun handle_id :: "kernel_handle_type \<Rightarrow> u32" where
  "handle_id KHInvalid = 0" | "handle_id KHLock = 1" | "handle_id KHFile = 2"
| "handle_id KHDirectory = 3" | "handle_id KHThread = 4" | "handle_id KHMemoryMapping = 5"
| "handle_id KHSHMSpace = 6" | "handle_id KHSHMMapping = 7" | "handle_id KHAtom = 8"
| "handle_id KHWait = 9" | "handle_id KHAtomWait = 10" | "handle_id KHMessageRecieve = 11"
| "handle_id KHElf = 12"

text \<open>The checked downcast: null stays null, and a handle of another type gives null.\<close>

(* src/src/include/module/kernelsys/handles.hpp:46-49 KernelHandleCast *)
definition KernelHandleCast ::
  "kernel_handle_type \<Rightarrow> ('d, 's) generic_handle option \<Rightarrow> ('d, 's) generic_handle option" where
  "KernelHandleCast T h =
     (case h of None \<Rightarrow> None | Some g \<Rightarrow> if gh_type g = handle_id T then Some g else None)"

section \<open>The dependency table\<close>

(* src/src/include/module/kernelsys/handles.hpp:51-53 HandleDependencyCheckResult *)
datatype dependency_check = Present | Absent | NotAvailable

text \<open>The table and its lock; the methods that lock it run as critical sections.\<close>

type_synonym 'h dependencies = "lock_world \<times> 'h list"

(* src/src/kernel/handles.cpp:7-9 init_handles *)
definition init_handles :: "(u64 \<Rightarrow> int) \<Rightarrow> 'h dependencies" where
  "init_handles counts = (\<lparr>the_lock = NewLock, thread_locks = counts\<rparr>, [])"

(* src/src/kernel/handles.cpp:11-14 AddHandleDependencyOn *)
definition AddHandleDependencyOn ::
  "u64 \<Rightarrow> 'h \<Rightarrow> 'h dependencies \<Rightarrow> (unit option \<times> 'h dependencies) blocking" where
  "AddHandleDependencyOn cur h =
     critical (TakeExclusive True cur False) (Release True cur False True)
       (\<lambda>hs. ((), hs @ [h]))"

(* src/src/kernel/handles.cpp:16-22 RemoveHandleDependencyOn *)
definition RemoveHandleDependencyOn ::
  "u64 \<Rightarrow> 'h \<Rightarrow> 'h dependencies \<Rightarrow> (unit option \<times> 'h dependencies) blocking" where
  "RemoveHandleDependencyOn cur h =
     critical (TakeExclusive True cur False) (Release True cur False True)
       (\<lambda>hs. ((), case find_index ((=) h) hs of None \<Rightarrow> hs | Some i \<Rightarrow> erase_at i hs))"

(* src/src/kernel/handles.cpp:24-35 HandleDependencyCheck *)
definition HandleDependencyCheck ::
  "u64 \<Rightarrow> 'h \<Rightarrow> 'h dependencies \<Rightarrow> (dependency_check \<times> 'h dependencies) result" where
  "HandleDependencyCheck cur h d =
     bind_result (TryTakeExclusive True cur (fst d)) (\<lambda>(ok, w).
       if \<not> ok then Inr (NotAvailable, (w, snd d))
       else let r = (if find_index ((=) h) (snd d) \<noteq> None then Present else Absent)
            in bind_result (Release True cur False True w) (\<lambda>(y, w'). Inr (r, (w', snd d))))"

section \<open>Waiting for several handles\<close>

(* src/src/kernel/waiting.cpp:3-8 WaitList *)
record 'h wait_list =
  wl_handles :: "'h list"
  wl_index :: nat

text \<open>The two waiters run over the handles in order. \<open>chk\<close> is the dependency check as the
  scheduler sees it while it evaluates the waiter, and \<open>ready\<close> the virtual method \<open>Wait\<close>.\<close>

(* src/src/kernel/waiting.cpp:17-28 wait_any_waiter *)
fun wait_any_from ::
  "('h \<Rightarrow> dependency_check) \<Rightarrow> ('h \<Rightarrow> bool) \<Rightarrow> nat \<Rightarrow> 'h list \<Rightarrow> nat option" where
  "wait_any_from chk ready i [] = None"
| "wait_any_from chk ready i (h # hs) =
     (if chk h = Present \<and> ready h then Some i else wait_any_from chk ready (Suc i) hs)"

(* src/src/kernel/waiting.cpp:17-28 wait_any_waiter *)
definition wait_any_waiter ::
  "('h \<Rightarrow> dependency_check) \<Rightarrow> ('h \<Rightarrow> bool) \<Rightarrow> 'h wait_list \<Rightarrow> bool \<times> 'h wait_list" where
  "wait_any_waiter chk ready lst =
     (case wait_any_from chk ready 0 (wl_handles lst) of
        Some i \<Rightarrow> (True, lst\<lparr>wl_index := i\<rparr>)
      | None \<Rightarrow> (False, lst))"

(* src/src/kernel/waiting.cpp:31-42 wait_all_waiter *)
fun wait_all_from ::
  "('h \<Rightarrow> dependency_check) \<Rightarrow> ('h \<Rightarrow> bool) \<Rightarrow> nat \<Rightarrow> 'h list \<Rightarrow> 'h wait_list \<Rightarrow> bool \<times> 'h wait_list" where
  "wait_all_from chk ready i [] lst = (True, lst)"
| "wait_all_from chk ready i (h # hs) lst =
     (case chk h of
        Present \<Rightarrow> if ready h then wait_all_from chk ready (Suc i) hs lst
                   else (False, lst\<lparr>wl_index := i\<rparr>)
      | NotAvailable \<Rightarrow> (False, lst)
      | Absent \<Rightarrow> wait_all_from chk ready (Suc i) hs lst)"

(* src/src/kernel/waiting.cpp:31-42 wait_all_waiter *)
definition wait_all_waiter ::
  "('h \<Rightarrow> dependency_check) \<Rightarrow> ('h \<Rightarrow> bool) \<Rightarrow> 'h wait_list \<Rightarrow> bool \<times> 'h wait_list" where
  "wait_all_waiter chk ready lst = wait_all_from chk ready 0 (wl_handles lst) lst"

text \<open>Making a wait handle adds a dependency on each handle of the list; closing it removes
  them again. A call that would sleep or fail ends the sequence.\<close>

fun for_each ::
  "('h \<Rightarrow> 'd \<Rightarrow> (unit option \<times> 'd) blocking) \<Rightarrow> 'h list \<Rightarrow> 'd \<Rightarrow> 'd option" where
  "for_each f [] d = Some d"
| "for_each f (h # hs) d =
     (case f h d of Returned (u, d') \<Rightarrow> for_each f hs d' | _ \<Rightarrow> None)"

(* src/src/kernel/waiting.cpp:44-48 MakeWaitAnyHandle *)
definition MakeWaitAnyHandle ::
  "u64 \<Rightarrow> 'h list \<Rightarrow> 'h dependencies \<Rightarrow> ('h wait_list \<times> 'h dependencies) option" where
  "MakeWaitAnyHandle cur handles d =
     map_option (Pair \<lparr>wl_handles = handles, wl_index = 0\<rparr>)
       (for_each (AddHandleDependencyOn cur) handles d)"

(* src/src/kernel/waiting.cpp:50-54 MakeWaitAllHandle *)
definition MakeWaitAllHandle ::
  "u64 \<Rightarrow> 'h list \<Rightarrow> 'h dependencies \<Rightarrow> ('h wait_list \<times> 'h dependencies) option" where
  "MakeWaitAllHandle cur handles d =
     map_option (Pair \<lparr>wl_handles = handles, wl_index = 0\<rparr>)
       (for_each (AddHandleDependencyOn cur) handles d)"

(* src/src/kernel/waiting.cpp:10-15 delete_waitlist *)
definition delete_waitlist :: "u64 \<Rightarrow> 'h wait_list \<Rightarrow> 'h dependencies \<Rightarrow> 'h dependencies option" where
  "delete_waitlist cur wl d = for_each (RemoveHandleDependencyOn cur) (wl_handles wl) d"

(* src/src/kernel/waiting.cpp:56-58 GetWaitIndex *)
definition GetWaitIndex :: "'h wait_list \<Rightarrow> nat" where
  "GetWaitIndex wl = wl_index wl"

text \<open>The condition under which a thread in \<open>WaitOnHandle\<close> is woken: an abort request, a null
  handle, or the handle's own condition.\<close>

(* src/src/kernel/handles.cpp:39-46 WaitOnHandle *)
definition WaitOnHandleCheck :: "bool \<Rightarrow> ('h \<Rightarrow> bool) \<Rightarrow> 'h option \<Rightarrow> bool" where
  "WaitOnHandleCheck userAbort ready handle \<longleftrightarrow>
     userAbort \<or> (case handle of Some h \<Rightarrow> ready h | None \<Rightarrow> True)"

section \<open>Behaviour\<close>

lemma AddHandleDependencyOn_free:
  "lock_free cur w \<Longrightarrow>
   \<exists>w'. AddHandleDependencyOn cur h (w, hs) = Returned (Some (), w', hs @ [h]) \<and> lock_free cur w'"
  using kernel_lock.critical_free [of cur w "\<lambda>hs. ((), hs @ [h])" hs]
  by (simp add: AddHandleDependencyOn_def)

lemma RemoveHandleDependencyOn_free:
  "lock_free cur w \<Longrightarrow>
   \<exists>w'. RemoveHandleDependencyOn cur h (w, hs) =
     Returned (Some (), w', remove_first ((=) h) hs) \<and> lock_free cur w'"
  using kernel_lock.critical_free
    [of cur w "\<lambda>hs. ((), case find_index ((=) h) hs of None \<Rightarrow> hs | Some i \<Rightarrow> erase_at i hs)" hs]
  by (simp add: RemoveHandleDependencyOn_def remove_first_def)

lemma for_each_add:
  "lock_free cur w \<Longrightarrow>
   \<exists>w'. for_each (AddHandleDependencyOn cur) handles (w, hs) = Some (w', hs @ handles) \<and> lock_free cur w'"
proof (induction handles arbitrary: w hs)
  case Nil
  then show ?case by simp
next
  case (Cons h handles)
  obtain w' where "AddHandleDependencyOn cur h (w, hs) = Returned (Some (), w', hs @ [h])"
    "lock_free cur w'"
    using AddHandleDependencyOn_free [OF Cons.prems, of h hs] by (elim exE conjE) (rule that)
  with Cons.IH [of w' "hs @ [h]"] show ?case by simp
qed

lemma for_each_remove:
  "lock_free cur w \<Longrightarrow>
   \<exists>w'. for_each (RemoveHandleDependencyOn cur) handles (w, hs) =
     Some (w', fold (\<lambda>h. remove_first ((=) h)) handles hs) \<and> lock_free cur w'"
proof (induction handles arbitrary: w hs)
  case Nil
  then show ?case by simp
next
  case (Cons h handles)
  obtain w' where "RemoveHandleDependencyOn cur h (w, hs) =
      Returned (Some (), w', remove_first ((=) h) hs)" "lock_free cur w'"
    using RemoveHandleDependencyOn_free [OF Cons.prems, of h hs] by (elim exE conjE) (rule that)
  with Cons.IH [of w' "remove_first ((=) h) hs"] show ?case by simp
qed

lemma mset_remove_first: "mset (remove_first ((=) h) xs) = mset xs - {#h#}"
  by (induction xs) auto

lemma mset_remove_all:
  "mset (fold (\<lambda>h. remove_first ((=) h)) handles xs) = mset xs - mset handles"
proof (induction handles arbitrary: xs)
  case Nil
  then show ?case by simp
next
  case (Cons h handles)
  then show ?case by (simp add: mset_remove_first)
qed

lemma wait_any_from_None:
  "wait_any_from chk ready i hs = None \<longleftrightarrow> (\<forall>h \<in> set hs. \<not> (chk h = Present \<and> ready h))"
  by (induction hs arbitrary: i) auto

lemma wait_any_from_find:
  "wait_any_from chk ready i hs = map_option ((+) i) (find_index (\<lambda>h. chk h = Present \<and> ready h) hs)"
  by (induction hs arbitrary: i) (auto simp: map_option_case split: option.splits)

lemma wait_all_from_True:
  "fst (wait_all_from chk ready i hs lst) \<longleftrightarrow>
     (\<forall>h \<in> set hs. chk h \<noteq> NotAvailable \<and> (chk h = Present \<longrightarrow> ready h))"
  by (induction hs arbitrary: i lst) (auto split: dependency_check.split)

section \<open>Properties\<close>

text \<open>A wait-any handle signals exactly when some handle of the list is registered and
  ready, and then its index is the position of the first such handle.\<close>

theorem wait_any_exact:
  "wait_any_waiter chk ready lst =
     (case find_index (\<lambda>h. chk h = Present \<and> ready h) (wl_handles lst) of
        None \<Rightarrow> (False, lst)
      | Some i \<Rightarrow> (True, lst\<lparr>wl_index := i\<rparr>)) \<and>
   (fst (wait_any_waiter chk ready lst) \<longleftrightarrow>
     (\<exists>h \<in> set (wl_handles lst). chk h = Present \<and> ready h))"
  using find_index_None_iff [of "\<lambda>h. chk h = Present \<and> ready h" "wl_handles lst"]
    find_index_Some_ex [of "\<lambda>h. chk h = Present \<and> ready h" "wl_handles lst"]
  by (cases "find_index (\<lambda>h. chk h = Present \<and> ready h) (wl_handles lst)")
    (simp_all add: wait_any_waiter_def wait_any_from_find)

text \<open>C13. A wait-all handle signals exactly when the dependency table could be examined for every
  handle of the list and every handle that is still registered is ready: a handle that was
  closed meanwhile does not hold the waiter up.\<close>

theorem wait_all_exact:
  "fst (wait_all_waiter chk ready lst) \<longleftrightarrow>
     (\<forall>h \<in> set (wl_handles lst). chk h = Absent \<or> chk h = Present \<and> ready h)"
proof -
  have "chk h \<noteq> NotAvailable \<and> (chk h = Present \<longrightarrow> ready h) \<longleftrightarrow>
      chk h = Absent \<or> chk h = Present \<and> ready h" for h
    by (cases "chk h") auto
  then show ?thesis
    by (simp add: wait_all_waiter_def wait_all_from_True)
qed

theorem wait_all_exact_witness:
  "fst (wait_all_waiter (\<lambda>h. if h = 2 then Absent else Present) (\<lambda>h. h < 5)
     \<lparr>wl_handles = [1, 2, 3 :: nat], wl_index = 0\<rparr>)"
  by (simp add: wait_all_exact)

text \<open>Round trip: with the table's lock free, making a wait handle and closing it again
  succeeds, keeps the lock free and leaves every handle registered as often as before.\<close>

theorem wait_handle_round_trip:
  assumes "lock_free cur w"
  shows "\<exists>w1 hs1 w2 hs2.
    MakeWaitAnyHandle cur handles (w, hs) =
      Some (\<lparr>wl_handles = handles, wl_index = 0\<rparr>, (w1, hs1)) \<and>
    (\<forall>h \<in> set handles. h \<in> set hs1) \<and>
    delete_waitlist cur \<lparr>wl_handles = handles, wl_index = 0\<rparr> (w1, hs1) = Some (w2, hs2) \<and>
    mset hs2 = mset hs \<and> lock_free cur w2"
proof -
  obtain w1 where w1: "for_each (AddHandleDependencyOn cur) handles (w, hs) = Some (w1, hs @ handles)"
    "lock_free cur w1"
    using for_each_add [OF assms] by blast
  obtain w2 where w2: "for_each (RemoveHandleDependencyOn cur) handles (w1, hs @ handles) =
      Some (w2, fold (\<lambda>h. remove_first ((=) h)) handles (hs @ handles))" "lock_free cur w2"
    using for_each_remove [OF w1(2)] by blast
  show ?thesis
  proof (intro exI conjI)
    show "MakeWaitAnyHandle cur handles (w, hs) =
        Some (\<lparr>wl_handles = handles, wl_index = 0\<rparr>, (w1, hs @ handles))"
      using w1 by (simp add: MakeWaitAnyHandle_def)
    show "delete_waitlist cur \<lparr>wl_handles = handles, wl_index = 0\<rparr> (w1, hs @ handles) =
        Some (w2, fold (\<lambda>h. remove_first ((=) h)) handles (hs @ handles))"
      using w2 by (simp add: delete_waitlist_def)
    show "mset (fold (\<lambda>h. remove_first ((=) h)) handles (hs @ handles)) = mset hs"
      by (simp add: mset_remove_all)
  qed (use w2 in simp_all)
qed

theorem wait_handle_round_trip_witness:
  "\<exists>w1 hs1 w2 hs2.
    MakeWaitAnyHandle 1 [10, 20 :: nat] (init_handles (\<lambda>_. 0)) =
      Some (\<lparr>wl_handles = [10, 20], wl_index = 0\<rparr>, (w1, hs1)) \<and>
    delete_waitlist 1 \<lparr>wl_handles = [10, 20], wl_index = 0\<rparr> (w1, hs1) = Some (w2, hs2) \<and> hs2 = []"
proof -
  have "lock_free 1 \<lparr>the_lock = NewLock, thread_locks = \<lambda>_. 0\<rparr>"
    by (simp add: lock_free_def NewLock_def)
  from wait_handle_round_trip [OF this, of "[10, 20]" "[]"]
  obtain w1 hs1 w2 hs2 where
    "MakeWaitAnyHandle 1 [10, 20 :: nat] (\<lparr>the_lock = NewLock, thread_locks = \<lambda>_. 0\<rparr>, []) =
      Some (\<lparr>wl_handles = [10, 20], wl_index = 0\<rparr>, (w1, hs1))"
    "delete_waitlist 1 \<lparr>wl_handles = [10, 20], wl_index = 0\<rparr> (w1, hs1) = Some (w2, hs2)"
    "mset hs2 = mset []"
    by (elim exE conjE) (rule that)
  then show ?thesis
    unfolding init_handles_def by - (intro exI conjI, assumption, assumption, simp)
qed

end
