(* ===== verification/Kstring.thy ===== *)
theory Kstring
  imports Kernel_Prelude
begin

text \<open>
  Memory and string routines of the kernel: the byte routines of
  src/src/kernel/utils/fallbacks.c on a flat memory, the \<open>string\<close> class of
  src/src/kernel/utils/string.cpp and the helpers of src/src/kernel/utils/stringutils.cpp.

  A memory maps addresses to bytes. \<open>strlen\<close> and \<open>strcmp\<close> run until they meet a zero byte and
  are partial functions; the lemmas give their results, not only their results if any.
  A value of class \<open>string\<close> owns a buffer of its characters and one terminating zero; the model
  keeps the characters, and reading or writing outside the buffer is \<open>Undefined\<close>.
\<close>

section \<open>Byte routines\<close>

type_synonym memory = "nat \<Rightarrow> u8"

(* src/src/kernel/utils/fallbacks.c:4-7 memset *)
primrec memset_loop :: "memory \<Rightarrow> nat \<Rightarrow> u8 \<Rightarrow> nat \<Rightarrow> nat \<Rightarrow> memory" where
  "memset_loop mem dest ch i 0 = mem"
| "memset_loop mem dest ch i (Suc n) = memset_loop (mem(dest + i := ch)) dest ch (Suc i) n"

(* src/src/kernel/utils/fallbacks.c:4-7 memset *)
definition memset :: "memory \<Rightarrow> nat \<Rightarrow> u8 \<Rightarrow> nat \<Rightarrow> memory" where
  "memset mem dest ch count = memset_loop mem dest ch 0 count"

text \<open>The remaining number of rounds is the last argument.\<close>

(* src/src/kernel/utils/fallbacks.c:9-12 memcpy *)
primrec memcpy_loop :: "memory \<Rightarrow> nat \<Rightarrow> nat \<Rightarrow> nat \<Rightarrow> nat \<Rightarrow> memory" where
  "memcpy_loop mem dest src i 0 = mem"
| "memcpy_loop mem dest src i (Suc n) =
     memcpy_loop (mem(dest + i := mem (src + i))) dest src (Suc i) n"

(* src/src/kernel/utils/fallbacks.c:9-12 memcpy *)
definition memcpy :: "memory \<Rightarrow> nat \<Rightarrow> nat \<Rightarrow> nat \<Rightarrow> memory" where
  "memcpy mem dest src count = memcpy_loop mem dest src 0 count"

(* src/src/kernel/utils/fallbacks.c:24-28 memmove *)
primrec memmove_back :: "memory \<Rightarrow> nat \<Rightarrow> nat \<Rightarrow> nat \<Rightarrow> memory" where
  "memmove_back mem dst src 0 = mem"
| "memmove_back mem dst src (Suc c) = memmove_back (mem(dst + c := mem (src + c))) dst src c"

(* src/src/kernel/utils/fallbacks.c:14-31 memmove *)
definition memmove :: "memory \<Rightarrow> nat \<Rightarrow> nat \<Rightarrow> nat \<Rightarrow> memory" where
  "memmove mem dst src c =
     (if c = 0 then mem
      else if dst \<le> src then memcpy mem dst src c
      else memmove_back mem dst src c)"

(* src/src/kernel/utils/fallbacks.c:34-38 strlen *)
partial_function (option) strlen_from :: "memory \<Rightarrow> nat \<Rightarrow> nat \<Rightarrow> nat option" where
  "strlen_from mem str len = (if mem str \<noteq> 0 then strlen_from mem (str + 1) (len + 1) else Some len)"

(* src/src/kernel/utils/fallbacks.c:34-38 strlen *)
definition strlen :: "memory \<Rightarrow> nat \<Rightarrow> nat option" where
  "strlen mem str = strlen_from mem str 0"

text \<open>\<open>strncpy\<close>: the copying loop yields the position where it stopped, and the second loop
  fills the rest with zeros.\<close>

(* src/src/kernel/utils/fallbacks.c:41-45 strncpy *)
fun strncpy_copy :: "memory \<Rightarrow> nat \<Rightarrow> nat \<Rightarrow> nat \<Rightarrow> nat \<Rightarrow> memory \<times> nat" where
  "strncpy_copy mem dest src i 0 = (mem, i)"
| "strncpy_copy mem dest src i (Suc n) =
     (let m' = mem(dest + i := mem (src + i))
      in if mem (src + i) = 0 then (m', i) else strncpy_copy m' dest src (Suc i) n)"

(* src/src/kernel/utils/fallbacks.c:40-50 strncpy *)
definition strncpy :: "memory \<Rightarrow> nat \<Rightarrow> nat \<Rightarrow> nat \<Rightarrow> memory" where
  "strncpy mem dest src count =
     (let (m', i) = strncpy_copy mem dest src 0 count in memset_loop m' dest 0 i (count - i))"

(* src/src/kernel/utils/fallbacks.c:52-58 strcmp *)
partial_function (option) strcmp :: "memory \<Rightarrow> nat \<Rightarrow> nat \<Rightarrow> int option" where
  "strcmp mem s1 s2 =
     (if mem s1 \<noteq> 0 \<and> mem s1 = mem s2 then strcmp mem (s1 + 1) (s2 + 1)
      else Some (uint (mem s1) - uint (mem s2)))"

subsection \<open>What the byte routines compute\<close>

lemma memset_loop_eq:
  "memset_loop mem dest ch i n a = (if dest + i \<le> a \<and> a < dest + i + n then ch else mem a)"
  by (induction n arbitrary: mem i) auto

lemma memcpy_loop_outside: "a < dest + i \<or> dest + i + n \<le> a \<Longrightarrow> memcpy_loop mem dest src i n a = mem a"
  by (induction n arbitrary: mem i) auto

lemma memcpy_loop_forward:
  assumes "dest \<le> src" "dest + i \<le> a" "a < dest + i + n"
  shows "memcpy_loop mem dest src i n a = mem (src + (a - dest))"
  using assms
proof (induction n arbitrary: mem i)
  case 0
  then show ?case by simp
next
  case (Suc n)
  show ?case
  proof (cases "a = dest + i")
    case True
    then show ?thesis by (simp add: memcpy_loop_outside)
  next
    case False
    with Suc.prems have "src + (a - dest) \<noteq> dest + i" by linarith
    with Suc False show ?thesis by simp
  qed
qed

lemma memcpy_eq:
  "dest \<le> src \<Longrightarrow>
   memcpy mem dest src n a = (if dest \<le> a \<and> a < dest + n then mem (src + (a - dest)) else mem a)"
  using memcpy_loop_forward [of dest src 0 a n mem] memcpy_loop_outside [of a dest 0 n mem src]
  by (auto simp: memcpy_def)

lemma memmove_back_outside:
  "a < dst \<or> dst + c \<le> a \<Longrightarrow> memmove_back mem dst src c a = mem a"
  by (induction c arbitrary: mem) auto

lemma memmove_back_eq:
  assumes "src < dst" "dst \<le> a" "a < dst + c"
  shows "memmove_back mem dst src c a = mem (src + (a - dst))"
  using assms
proof (induction c arbitrary: mem)
  case 0
  then show ?case by simp
next
  case (Suc c)
  show ?case
  proof (cases "a = dst + c")
    case True
    then show ?thesis by (simp add: memmove_back_outside)
  next
    case False
    with Suc.prems have "src + (a - dst) \<noteq> dst + c" by linarith
    with Suc False show ?thesis by simp
  qed
qed

lemma memmove_eq:
  "memmove mem dst src c a = (if dst \<le> a \<and> a < dst + c then mem (src + (a - dst)) else mem a)"
  using memmove_back_eq [of src dst a c mem] memmove_back_outside [of a dst c mem src]
  by (auto simp: memmove_def memcpy_eq)

text \<open>A zero-terminated string in memory.\<close>

definition cstring_at :: "memory \<Rightarrow> nat \<Rightarrow> u8 list \<Rightarrow> bool" where
  "cstring_at mem a s \<longleftrightarrow>
     (\<forall>i < length s. mem (a + i) = s ! i \<and> s ! i \<noteq> 0) \<and> mem (a + length s) = 0"

lemma cstring_at_Nil [simp]: "cstring_at mem a [] \<longleftrightarrow> mem a = 0"
  by (simp add: cstring_at_def)

lemma cstring_at_Cons [simp]:
  "cstring_at mem a (c # s) \<longleftrightarrow> mem a = c \<and> c \<noteq> 0 \<and> cstring_at mem (Suc a) s"
  by (auto simp: cstring_at_def less_Suc_eq_0_disj nth_Cons split: nat.splits)

lemma strlen_from_cstring: "cstring_at mem a s \<Longrightarrow> strlen_from mem a n = Some (n + length s)"
  by (induction s arbitrary: a n) (simp_all add: strlen_from.simps)

lemma strlen_cstring: "cstring_at mem a s \<Longrightarrow> strlen mem a = Some (length s)"
  by (simp add: strlen_def strlen_from_cstring)

lemma uint_byte_pos: "(x :: u8) \<noteq> 0 \<Longrightarrow> 0 < uint x"
proof -
  assume "x \<noteq> 0"
  then have "uint x \<noteq> 0"
    using word_uint_eq_iff [of x 0] by simp
  then show ?thesis
    using uint_ge_0 [of x] by linarith
qed

lemma strcmp_cstring:
  "cstring_at mem a s \<Longrightarrow> cstring_at mem b t \<Longrightarrow>
   \<exists>r. strcmp mem a b = Some r \<and> (r = 0 \<longleftrightarrow> s = t) \<and>
       (r < 0 \<longleftrightarrow> (s, t) \<in> lexord {(x, y). x < y})"
proof (induction s arbitrary: a b t)
  case Nil
  then show ?case
    by (cases t) (auto simp: strcmp.simps [of mem a b] dest: uint_byte_pos)
next
  case (Cons c s)
  show ?case
  proof (cases t)
    case Nil
    with Cons show ?thesis
      by (auto simp: strcmp.simps [of mem a b] dest: uint_byte_pos)
  next
    case (Cons d t')
    with Cons.prems Cons.IH [of "Suc a" "Suc b" t'] show ?thesis
      by (auto simp: strcmp.simps [of mem a b] word_less_def word_uint_eq_iff)
  qed
qed

lemma strncpy_copy_eq:
  assumes "cstring_at mem (src + i) s" "dest + i + n \<le> src + i \<or> src + i + length s < dest + i"
  shows "strncpy_copy mem dest src i n =
    (\<lambda>a. if dest + i \<le> a \<and> a < dest + i + min n (Suc (length s))
         then mem (src + (a - dest)) else mem a, i + min n (length s))"
  using assms
proof (induction n arbitrary: mem i s)
  case 0
  then show ?case by (auto simp: fun_eq_iff)
next
  case (Suc n)
  show ?case
  proof (cases s)
    case Nil
    with Suc.prems show ?thesis by (auto simp: fun_eq_iff)
  next
    case (Cons c s')
    let ?m = "mem(dest + i := mem (src + i))"
    have "cstring_at ?m (src + Suc i) s'"
      using Suc.prems Cons by (auto simp: cstring_at_def)
    moreover have "dest + Suc i + n \<le> src + Suc i \<or> src + Suc i + length s' < dest + Suc i"
      using Suc.prems Cons by auto
    ultimately have "strncpy_copy ?m dest src (Suc i) n =
      (\<lambda>a. if dest + Suc i \<le> a \<and> a < dest + Suc i + min n (Suc (length s'))
           then ?m (src + (a - dest)) else ?m a, Suc i + min n (length s'))"
      by (rule Suc.IH)
    moreover have "mem (src + i) \<noteq> 0"
      using Suc.prems Cons by simp
    ultimately show ?thesis
      using Suc.prems Cons by (auto simp: fun_eq_iff Let_def)
  qed
qed

section \<open>The string class\<close>

text \<open>A string value is the list of its characters, none of which is zero.\<close>

(* src/src/kernel/utils/string.cpp:129-137 string::size *)
definition str_size :: "string \<Rightarrow> nat" where
  "str_size p = length p"

(* src/src/kernel/utils/string.cpp:139-142 string::empty *)
definition str_empty :: "string \<Rightarrow> bool" where
  "str_empty p \<longleftrightarrow> p = []"

(* src/src/kernel/utils/string.cpp:89-96 string::operator+= *)
definition str_append :: "string \<Rightarrow> string \<Rightarrow> string" where
  "str_append p s = p @ s"

text \<open>\<open>substr\<close> clips the length against the whole string, not against what follows \<open>start\<close>. The
  copied range must lie in the buffer, which ends with the terminating zero.\<close>

(* src/src/kernel/utils/string.cpp:149-166 string::substr *)
definition str_substr :: "string \<Rightarrow> nat \<Rightarrow> nat \<Rightarrow> string result" where
  "str_substr p start len_orig =
     (if start > length p then Inl (Panic ''STRING: Out of range (substr).'')
      else let len = (if length p > len_orig then len_orig else length p)
           in if start + len \<le> length p + 1 then Inr (take len (drop start p))
              else Inl Undefined)"

(* src/src/kernel/utils/string.cpp:175-181 string::at *)
definition str_at :: "string \<Rightarrow> nat \<Rightarrow> char result" where
  "str_at p n =
     (if n > length p then Inl (Panic ''STRING: Out of range (at).'')
      else Inr (if n < length p then p ! n else CHR 0x00))"

text \<open>\<open>erase\<close> moves \<open>size - pos + 1\<close> characters from \<open>pos + len\<close>: the source range ends \<open>len\<close>
  characters behind the buffer.\<close>

(* src/src/kernel/utils/string.cpp:183-202 string::erase *)
definition str_erase :: "string \<Rightarrow> nat \<Rightarrow> nat \<Rightarrow> string result" where
  "str_erase p pos len =
     (if pos > length p then Inl (Panic ''STRING: Out of range (erase).'')
      else let s = length p - pos;
               len' = (if len > s then s else len);
               count = s + 1
           in if pos + len' + count \<le> length p + 1
              then Inr (take pos p @ drop (pos + len') p)
              else Inl Undefined)"

lemma str_substr_inside:
  "start + len \<le> length p \<Longrightarrow> str_substr p start len = Inr (take len (drop start p))"
  by (auto simp: str_substr_def Let_def)

section \<open>String helpers\<close>

(* src/src/kernel/utils/stringutils.cpp:66-69 to_upper *)
definition to_upper_char :: "char \<Rightarrow> char" where
  "to_upper_char c =
     (let n = (of_char c :: nat)
      in if of_char (CHR ''a'') \<le> n \<and> n \<le> of_char (CHR ''z'')
         then char_of (n - of_char (CHR ''a'') + of_char (CHR ''A'') :: nat) else c)"

(* src/src/kernel/utils/stringutils.cpp:71-77 to_upper *)
definition to_upper :: "string \<Rightarrow> string" where
  "to_upper str = map to_upper_char str"

(* src/src/kernel/utils/stringutils.cpp:79-85 starts_with *)
function starts_with_from :: "string \<Rightarrow> string \<Rightarrow> nat \<Rightarrow> bool" where
  "starts_with_from str cmp i =
     (if i < length cmp then (if str ! i \<noteq> cmp ! i then False else starts_with_from str cmp (Suc i))
      else True)"
  by pat_completeness auto
termination by (relation "measure (\<lambda>(str, cmp, i). length cmp - i)") auto

declare starts_with_from.simps [simp del]

(* src/src/kernel/utils/stringutils.cpp:79-85 starts_with *)
definition starts_with :: "string \<Rightarrow> string \<Rightarrow> bool" where
  "starts_with str cmp = (if length cmp > length str then False else starts_with_from str cmp 0)"

(* src/src/kernel/utils/stringutils.cpp:90-98 split_string *)
fun split_loop :: "char \<Rightarrow> string \<Rightarrow> string list \<Rightarrow> string \<Rightarrow> string list" where
  "split_loop c [] ret current = (if current \<noteq> [] then ret @ [current] else ret)"
| "split_loop c (x # xs) ret current =
     (if x = c \<and> current \<noteq> [] then split_loop c xs (ret @ [current]) []
      else split_loop c xs ret (current @ [x]))"

(* src/src/kernel/utils/stringutils.cpp:87-101 split_string *)
definition split_string :: "string \<Rightarrow> char \<Rightarrow> string list" where
  "split_string str c = split_loop c str [] []"

subsection \<open>Numbers\<close>

text \<open>C++ division truncates towards zero.\<close>

definition tdiv :: "int \<Rightarrow> int \<Rightarrow> int" where
  "tdiv a b = sgn a * sgn b * (\<bar>a\<bar> div \<bar>b\<bar>)"

definition tmod :: "int \<Rightarrow> int \<Rightarrow> int" where
  "tmod a b = a - tdiv a b * b"

lemma abs_tdiv: "2 \<le> b \<Longrightarrow> \<bar>tdiv a b\<bar> = \<bar>a\<bar> div b"
  by (auto simp: tdiv_def abs_mult sgn_if pos_imp_zdiv_nonneg_iff)

lemma abs_tdiv_less: "2 \<le> b \<Longrightarrow> a \<noteq> 0 \<Longrightarrow> \<bar>tdiv a b\<bar> < \<bar>a\<bar>"
  by (simp add: abs_tdiv int_div_less_self)

text \<open>The exchange of two characters by addition and subtraction, in the arithmetic of a char.\<close>

(* src/src/kernel/utils/stringutils.cpp:2-2 swap *)
definition swap_chars :: "char \<times> char \<Rightarrow> char \<times> char" where
  "swap_chars = (\<lambda>(x, y).
     let x1 = (char_of (of_char x + of_char y :: nat) :: char);
         y1 = (char_of (256 + of_char x1 - of_char y :: nat) :: char);
         x2 = (char_of (256 + of_char x1 - of_char y1 :: nat) :: char)
     in (x2, y1))"

(* src/src/kernel/utils/stringutils.cpp:4-14 reverse *)
function reverse_loop :: "string \<Rightarrow> int \<Rightarrow> int \<Rightarrow> string" where
  "reverse_loop str start end' =
     (if start < end'
      then let (a, b) = swap_chars (str ! nat start, str ! nat end')
           in reverse_loop (str[nat start := a, nat end' := b]) (start + 1) (end' - 1)
      else str)"
  by pat_completeness auto
termination by (relation "measure (\<lambda>(str, start, end'). nat (end' - start))") auto

declare reverse_loop.simps [simp del]

(* src/src/kernel/utils/stringutils.cpp:37-43 itoa *)
function itoa_digits :: "int \<Rightarrow> int \<Rightarrow> string" where
  "itoa_digits num base =
     (if num = 0 \<or> base < 2 then []
      else let r = tmod num base
           in (if r > 9 then char_of (nat ((r - 10) + 97)) else char_of (nat ((r + 48) mod 256)))
              # itoa_digits (tdiv num base) base)"
  by pat_completeness auto
termination by (relation "measure (\<lambda>(num, base). nat \<bar>num\<bar>)") (auto simp: abs_tdiv_less)

declare itoa_digits.simps [simp del]

text \<open>\<open>itoa\<close> writes the digits from the last to the first, a sign, and reverses the buffer. The
  negation of the smallest integer overflows; a base below two never gets to zero.\<close>

(* src/src/kernel/utils/stringutils.cpp:16-55 itoa *)
definition itoa_buf :: "int \<Rightarrow> int \<Rightarrow> string result" where
  "itoa_buf num base =
     (if base < 2 then Inl Undefined
      else if num = 0 then Inr ''0''
      else let isNegative = (num < 0 \<and> base = 10)
           in if isNegative \<and> num = - (2 ^ 31) then Inl Undefined
              else let n = (if isNegative then - num else num);
                       str = itoa_digits n base @ (if isNegative then ''-'' else [])
                   in Inr (reverse_loop str 0 (int (length str) - 1)))"

(* src/src/kernel/utils/stringutils.cpp:59-60 itoa *)
function itoa_extra :: "int \<Rightarrow> int \<Rightarrow> nat" where
  "itoa_extra n base =
     (if base < 2 then 0
      else let n' = tdiv n base in if n' \<noteq> 0 then Suc (itoa_extra n' base) else 0)"
  by pat_completeness auto
termination
proof (relation "measure (\<lambda>(n, base). nat \<bar>n\<bar>)")
  fix n base n' :: int
  assume a: "\<not> base < 2" "n' = tdiv n base" "n' \<noteq> 0"
  then have "n \<noteq> 0" by (auto simp: tdiv_def)
  with a show "((n', base), (n, base)) \<in> measure (\<lambda>(n, base). nat \<bar>n\<bar>)"
    using abs_tdiv_less [of base n] by auto
qed simp

declare itoa_extra.simps [simp del]

text \<open>The variant that returns a string sizes a buffer first and writes into it.\<close>

(* src/src/kernel/utils/stringutils.cpp:57-63 itoa *)
definition itoa :: "int \<Rightarrow> int \<Rightarrow> string result" where
  "itoa num base =
     (let bufferSize = 5 + itoa_extra num base
      in bind_result (itoa_buf num base)
           (\<lambda>s. if length s + 1 \<le> bufferSize then Inr s else Inl Undefined))"

subsection \<open>Reversal\<close>

lemma swap_chars_eq [simp]: "swap_chars (x, y) = (y, x)"
proof -
  have bounds: "(of_char x :: nat) < 256" "(of_char y :: nat) < 256"
    by simp_all
  have "(256 + (a + b) mod 256 - b) mod 256 = a" if "a < 256" "b < 256" for a b :: nat
    using that by (cases "a + b < 256") (simp_all add: mod_if)
  note m = this [OF bounds] this [OF bounds(2,1), unfolded add.commute [of "of_char y"]]
  then have "char_of (256 + (of_char x + of_char y) mod 256 - of_char y :: nat) = x"
    "char_of (256 + (of_char x + of_char y) mod 256 - of_char x :: nat) = y"
    by (metis char_of_char char_of_mod_256 add.commute)+
  with m show ?thesis
    by (simp add: swap_chars_def Let_def)
qed

lemma reverse_loop_nth:
  "0 \<le> start \<Longrightarrow> end' < int (length str) \<Longrightarrow>
   length (reverse_loop str start end') = length str \<and>
   (\<forall>j < length str. reverse_loop str start end' ! j =
      (if start \<le> int j \<and> int j \<le> end' then str ! nat (start + end' - int j) else str ! j))"
proof (induction str start end' rule: reverse_loop.induct)
  case (1 str start end')
  show ?case
  proof (cases "start < end'")
    case True
    let ?str = "str[nat start := str ! nat end', nat end' := str ! nat start]"
    have step: "reverse_loop str start end' = reverse_loop ?str (start + 1) (end' - 1)"
      using True by (subst reverse_loop.simps) simp
    have IH: "length (reverse_loop ?str (start + 1) (end' - 1)) = length ?str \<and>
      (\<forall>j < length ?str. reverse_loop ?str (start + 1) (end' - 1) ! j =
        (if start + 1 \<le> int j \<and> int j \<le> end' - 1
         then ?str ! nat ((start + 1) + (end' - 1) - int j) else ?str ! j))"
      using 1 True by simp
    have "?str ! j = (if int j = end' then str ! nat start else
        if int j = start then str ! nat end' else str ! j)" if "j < length str" for j
      using that 1(2,3) True by (auto simp: nth_list_update)
    with IH 1(2,3) True show ?thesis
      unfolding step by (auto simp: nat_less_iff)
  next
    case False
    then have "reverse_loop str start end' = str"
      by (subst reverse_loop.simps) simp
    moreover have "nat (start + end' - int j) = j" if "start \<le> int j" "int j \<le> end'" for j
      using that False by linarith
    ultimately show ?thesis by auto
  qed
qed

lemma reverse_loop_rev: "reverse_loop str 0 (int (length str) - 1) = rev str"
  using reverse_loop_nth [of 0 "int (length str) - 1" str]
  by (auto intro!: nth_equalityI simp: rev_nth nat_diff_distrib Suc_diff_Suc)

subsection \<open>Printed numbers\<close>

text \<open>Reading a number back: the value of a digit, and of a digit string from its last digit.\<close>

definition digit_value :: "char \<Rightarrow> int" where
  "digit_value c =
     (let n = int (of_char c :: nat) in if 97 \<le> n then n - 87 else n - 48)"

primrec digits_value :: "int \<Rightarrow> string \<Rightarrow> int" where
  "digits_value base [] = 0"
| "digits_value base (c # cs) = digit_value c + base * digits_value base cs"

definition read_number :: "int \<Rightarrow> string \<Rightarrow> int" where
  "read_number base s =
     (if s \<noteq> [] \<and> hd s = CHR ''-'' then - digits_value base (rev (tl s))
      else digits_value base (rev s))"

lemma tdiv_nonneg: "0 \<le> a \<Longrightarrow> 2 \<le> b \<Longrightarrow> tdiv a b = a div b"
  by (cases "a = 0") (auto simp: tdiv_def)

lemma tmod_nonneg: "0 \<le> a \<Longrightarrow> 2 \<le> b \<Longrightarrow> tmod a b = a mod b"
  by (simp add: tmod_def tdiv_nonneg minus_div_mult_eq_mod)

lemma itoa_digits_step:
  "0 < n \<Longrightarrow> 2 \<le> base \<Longrightarrow> itoa_digits n base =
     (if n mod base > 9 then char_of (nat (n mod base + 87)) else char_of (nat ((n mod base + 48) mod 256)))
     # itoa_digits (n div base) base"
  by (subst itoa_digits.simps) (simp add: Let_def tdiv_nonneg tmod_nonneg algebra_simps)

lemma digit_value_print:
  "0 \<le> r \<Longrightarrow> r < 36 \<Longrightarrow>
   digit_value (if r > 9 then char_of (nat (r + 87)) else char_of (nat ((r + 48) mod 256))) = r"
  by (auto simp: digit_value_def Let_def)

lemma digits_value_itoa:
  "0 \<le> n \<Longrightarrow> 2 \<le> base \<Longrightarrow> base \<le> 36 \<Longrightarrow> digits_value base (itoa_digits n base) = n"
proof (induction n base rule: itoa_digits.induct)
  case (1 n base)
  show ?case
  proof (cases "n = 0")
    case True
    then show ?thesis by (subst itoa_digits.simps) simp
  next
    case False
    with 1 have "digits_value base (itoa_digits (n div base) base) = n div base"
      by (simp add: tdiv_nonneg pos_imp_zdiv_nonneg_iff)
    moreover have "0 \<le> n mod base"
      using 1(3) by simp
    moreover have "n mod base < 36"
      using 1(3,4) by (intro less_le_trans [OF pos_mod_bound [of base n]]) simp_all
    ultimately show ?thesis
      using 1(2,3) False digit_value_print [of "n mod base"]
      by (subst itoa_digits_step) auto
  qed
qed

lemma length_itoa_digits:
  "n \<noteq> 0 \<Longrightarrow> 2 \<le> base \<Longrightarrow> length (itoa_digits n base) = Suc (itoa_extra n base)"
proof (induction n base rule: itoa_digits.induct)
  case (1 n base)
  show ?case
  proof (cases "tdiv n base = 0")
    case True
    with 1(2,3) show ?thesis
      by (subst itoa_digits.simps, subst itoa_digits.simps, subst itoa_extra.simps)
        (simp add: Let_def)
  next
    case False
    with 1 show ?thesis
      by (subst itoa_digits.simps, subst itoa_extra.simps) (simp add: Let_def)
  qed
qed

lemma tdiv_uminus: "tdiv (- n) base = - tdiv n base"
  by (simp add: tdiv_def)

lemma itoa_extra_uminus: "itoa_extra (- n) base = itoa_extra n base"
proof (induction n base rule: itoa_extra.induct)
  case (1 n base)
  then show ?case
    by (subst (1 2) itoa_extra.simps) (simp add: Let_def tdiv_uminus)
qed

lemma itoa_digits_decimal:
  "0 \<le> n \<Longrightarrow> CHR ''-'' \<notin> set (itoa_digits n 10)"
proof (induction n "10 :: int" rule: itoa_digits.induct)
  case (1 n)
  show ?case
  proof (cases "n = 0")
    case True
    then show ?thesis by (subst itoa_digits.simps) simp
  next
    case False
    with 1 have "CHR ''-'' \<notin> set (itoa_digits (n div 10) 10)"
      by (simp add: tdiv_nonneg)
    moreover have "CHR ''-'' \<noteq> char_of (nat (n mod 10 + 48))"
    proof
      assume "CHR ''-'' = char_of (nat (n mod 10 + 48))"
      then have "(of_char (CHR ''-'') :: nat) = nat (n mod 10 + 48) mod 256"
        by (metis of_char_of)
      moreover have "nat (n mod 10 + 48) mod 256 = nat (n mod 10 + 48)"
        by (intro mod_less) (simp add: nat_less_iff)
      ultimately show False by simp
    qed
    ultimately show ?thesis
      using 1(2) False by (subst itoa_digits_step) auto
  qed
qed

lemma itoa_buf_decimal:
  assumes "- (2 ^ 31) < n"
  shows "itoa_buf n 10 =
    Inr (if n = 0 then ''0''
         else if n < 0 then CHR ''-'' # rev (itoa_digits (- n) 10) else rev (itoa_digits n 10))"
proof (cases "n < 0")
  case True
  have "reverse_loop (itoa_digits (- n) 10 @ ''-'') 0 (int (length (itoa_digits (- n) 10))) =
      rev (itoa_digits (- n) 10 @ ''-'')"
    using reverse_loop_rev [of "itoa_digits (- n) 10 @ ''-''"] by simp
  with assms True show ?thesis
    by (simp add: itoa_buf_def Let_def)
next
  case False
  then show ?thesis
    using reverse_loop_rev [of "itoa_digits n 10"] by (simp add: itoa_buf_def Let_def)
qed

lemma itoa_decimal:
  assumes "- (2 ^ 31) < n"
  shows "itoa n 10 =
    Inr (if n = 0 then ''0''
         else if n < 0 then CHR ''-'' # rev (itoa_digits (- n) 10) else rev (itoa_digits n 10))"
  using length_itoa_digits [of n 10] length_itoa_digits [of "- n" 10]
  by (auto simp: itoa_def Let_def itoa_buf_decimal [OF assms] itoa_extra_uminus)

lemma read_number_rev_digits:
  assumes "0 \<le> n"
  shows "read_number 10 (rev (itoa_digits n 10)) = n"
proof -
  have "hd (rev (itoa_digits n 10)) \<noteq> CHR ''-''" if "itoa_digits n 10 \<noteq> []"
    using that itoa_digits_decimal [OF assms] hd_in_set [of "rev (itoa_digits n 10)"] by auto
  then show ?thesis
    using assms by (auto simp: read_number_def digits_value_itoa)
qed

lemma itoa_decimal_inj:
  assumes "0 \<le> m" "0 \<le> n" "itoa m 10 = itoa n 10"
  shows "m = n"
proof -
  have reads: "\<exists>s. itoa k 10 = Inr s \<and> read_number 10 s = k" if "0 \<le> k" for k
    using that read_number_rev_digits [OF that]
    by (auto simp: itoa_decimal read_number_def digit_value_def)
  show ?thesis
    using reads [OF assms(1)] reads [OF assms(2)] assms(3) by auto
qed

subsection \<open>Splitting and prefixes\<close>

primrec join_with :: "char \<Rightarrow> string list \<Rightarrow> string" where
  "join_with c [] = []"
| "join_with c (p # ps) = (if ps = [] then p else p @ c # join_with c ps)"

lemma split_loop_plain:
  "c \<notin> set p \<Longrightarrow> split_loop c (p @ rest) ret cur = split_loop c rest ret (cur @ p)"
  by (induction p arbitrary: cur) auto

lemma split_loop_join:
  "\<forall>p \<in> set ps. p \<noteq> [] \<and> c \<notin> set p \<Longrightarrow> split_loop c (join_with c ps) ret [] = ret @ ps"
proof (induction ps arbitrary: ret)
  case Nil
  then show ?case by simp
next
  case (Cons p ps)
  then show ?case
    using split_loop_plain [of c p "[]" ret "[]"]
      split_loop_plain [of c p "c # join_with c ps" ret "[]"]
    by auto
qed

lemma starts_with_from_iff:
  "i \<le> length cmp \<Longrightarrow> length cmp \<le> length str \<Longrightarrow>
   starts_with_from str cmp i \<longleftrightarrow> (\<forall>j. i \<le> j \<and> j < length cmp \<longrightarrow> str ! j = cmp ! j)"
proof (induction str cmp i rule: starts_with_from.induct)
  case (1 str cmp i)
  show ?case
  proof (cases "i < length cmp")
    case True
    have "(\<forall>j. i \<le> j \<and> j < length cmp \<longrightarrow> str ! j = cmp ! j) \<longleftrightarrow>
        str ! i = cmp ! i \<and> (\<forall>j. Suc i \<le> j \<and> j < length cmp \<longrightarrow> str ! j = cmp ! j)"
      using True by (auto simp: Suc_le_eq) (metis le_neq_implies_less)
    with 1 True show ?thesis
      by (subst starts_with_from.simps) auto
  next
    case False
    then show ?thesis by (subst starts_with_from.simps) auto
  qed
qed

lemma starts_with_iff: "starts_with str cmp \<longleftrightarrow> take (length cmp) str = cmp"
proof (cases "length cmp \<le> length str")
  case True
  then show ?thesis
    by (auto simp: starts_with_def starts_with_from_iff list_eq_iff_nth_eq)
next
  case False
  then have "length (take (length cmp) str) \<noteq> length cmp" by simp
  then have "take (length cmp) str \<noteq> cmp" by metis
  with False show ?thesis by (simp add: starts_with_def)
qed

section \<open>Properties\<close>

text \<open>C14. \<open>memmove\<close> moves the bytes as they were before the call, for every overlap of source
  and destination and in both copying directions, and changes nothing else.\<close>

theorem memmove_moves_old_bytes:
  "memmove mem dst src c a = (if dst \<le> a \<and> a < dst + c then mem (src + (a - dst)) else mem a)"
  by (rule memmove_eq)

text \<open>On zero-terminated strings \<open>strlen\<close> and \<open>strcmp\<close> return: \<open>strlen\<close> the number of bytes
  before the zero, \<open>strcmp\<close> zero exactly for equal strings and a negative number exactly when the
  first string comes first in the lexicographic order of unsigned bytes.\<close>

theorem string_scans_return:
  assumes "cstring_at mem a s" "cstring_at mem b t"
  shows "strlen mem a = Some (length s) \<and>
    (\<exists>r. strcmp mem a b = Some r \<and> (r = 0 \<longleftrightarrow> s = t) \<and>
         (r < 0 \<longleftrightarrow> (s, t) \<in> lexord {(x, y). x < y}))"
  using strlen_cstring [OF assms(1)] strcmp_cstring [OF assms] by blast

theorem string_scans_return_witness:
  "strlen ((\<lambda>_. 0)(0 := 65, 10 := 65, 11 := 66)) 0 = Some 1 \<and>
   (\<exists>r. strcmp ((\<lambda>_. 0)(0 := 65, 10 := 65, 11 := 66)) 0 10 = Some r \<and> r \<noteq> 0)"
  using string_scans_return
    [of "(\<lambda>_. 0)(0 := 65, 10 := 65, 11 := 66)" 0 "[65]" 10 "[65, 66]"]
  by auto

text \<open>\<open>strncpy\<close> from a string that does not overlap the destination fills the whole
  destination field: the bytes of the string, cut at the field width, then zeros.\<close>

theorem strncpy_fills_field:
  assumes "cstring_at mem src s" "dest + count \<le> src \<or> src + length s < dest" "j < count"
  shows "strncpy mem dest src count (dest + j) = (if j < length s then s ! j else 0)"
proof -
  have "mem (src + j) = s ! j" if "j < length s"
    using assms(1) that by (simp add: cstring_at_def)
  moreover have "mem (src + length s) = 0"
    using assms(1) by (simp add: cstring_at_def)
  ultimately show ?thesis
    using assms strncpy_copy_eq [of mem src 0 s dest count]
    by (auto simp: strncpy_def memset_loop_eq not_less min_def)
qed

theorem strncpy_fills_field_witness:
  "strncpy ((\<lambda>_. 7)(50 := 65, 51 := 66, 52 := 0)) 0 50 4 3 = 0"
  using strncpy_fills_field [of "(\<lambda>_. 7)(50 := 65, 51 := 66, 52 := 0)" 50 "[65, 66]" 0 4 3]
  by simp

text \<open>Printing an integer in base ten with \<open>itoa\<close> stays within the buffer it sizes, and
  reading the result back gives the integer, for every \<open>int\<close> but the smallest.\<close>

theorem itoa_round_trip:
  assumes "- (2 ^ 31) < n"
  shows "\<exists>s. itoa n 10 = Inr s \<and> read_number 10 s = n"
proof -
  consider "n = 0" | "0 < n" | "n < 0" by linarith
  then show ?thesis
  proof cases
    case 1
    then show ?thesis by (simp add: itoa_decimal read_number_def digit_value_def)
  next
    case 2
    then show ?thesis using read_number_rev_digits [of n] by (simp add: itoa_decimal)
  next
    case 3
    with assms show ?thesis by (simp add: itoa_decimal read_number_def digits_value_itoa)
  qed
qed

theorem itoa_round_trip_witness: "\<exists>s. itoa (- 1203) 10 = Inr s \<and> read_number 10 s = - 1203"
  using itoa_round_trip [of "- 1203"] by simp

text \<open>\<open>string::erase\<close> of a non-empty range reads behind the string's buffer, although the
  range itself is inside the string.\<close>

theorem string_erase_overreads:
  assumes "pos < length p" "0 < len"
  shows "str_erase p pos len = Inl Undefined"
  using assms by (auto simp: str_erase_def Let_def)

theorem string_erase_overreads_witness: "str_erase ''kernel'' 2 1 = Inl Undefined"
  using string_erase_overreads [of 2 "''kernel''" 1] by simp

text \<open>Splitting the text made by joining non-empty pieces with a separator that occurs in
  none of them gives the pieces back.\<close>

theorem split_string_round_trip:
  assumes "\<forall>p \<in> set ps. p \<noteq> [] \<and> c \<notin> set p"
  shows "split_string (join_with c ps) c = ps"
  using split_loop_join [OF assms, of "[]"] by (simp add: split_string_def)

theorem split_string_round_trip_witness:
  "split_string (join_with CHR '':'' [''HDD'', ''BTOS'']) CHR '':'' = [''HDD'', ''BTOS'']"
  using split_string_round_trip [of "[''HDD'', ''BTOS'']" "CHR '':''"] by simp

end
