(* ===== verification/Messaging.thy ===== *)
theory Messaging
  imports Ministl Handles
begin

unbundle bit_operations_syntax

text \<open>
  Inter-process messages, src/src/kernel/messaging.cpp. The message manager holds one list of
  undelivered messages for all processes, a counter for message ids and the processes that
  subscribed to kernel messages. The state below adds what the code keeps elsewhere and uses
  here: the id of the message each process is working on and the messaging status of each
  thread.

  Every method holds the message lock while it works on the list (\<open>LockRecursive\<close>), so each is
  one step; where the code gives up the lock and blocks, the model returns the state in which the
  thread sleeps together with what it needs to resume. Which processes exist is the parameter
  \<open>alive\<close>. A header's \<open>content\<close> pointer is replaced by the bytes it points to.
\<close>

section \<open>Headers, filters and the message list\<close>

(* src/src/include/btos/bt_msg.h:17-28 bt_msg_header *)
record msg_header =
  mh_valid :: bool
  mh_id :: u64
  mh_reply_id :: u64
  mh_flags :: u32
  mh_source :: u16
  mh_from :: u64
  mh_to :: u64
  mh_type :: u32
  mh_length :: u32
  mh_critical :: bool
  mh_recieved :: bool
  mh_replied :: bool

(* src/src/include/btos/bt_msg.h:56-62 bt_msg_filter *)
record msg_filter =
  mf_flags :: u32
  mf_pid :: u64
  mf_reply_to :: u64
  mf_type :: u32
  mf_source :: u32

(* src/src/include/btos/bt_msg.h:32-36 bt_msg_flags *)
definition is_reply :: "msg_header \<Rightarrow> bool" where
  "is_reply h \<longleftrightarrow> mh_flags h AND 2 \<noteq> 0"

(* src/src/include/btos/bt_msg.h:45-54 bt_msg_filter_flags *)
definition filter_flag :: "nat \<Rightarrow> msg_filter \<Rightarrow> bool" where
  "filter_flag n f \<longleftrightarrow> bit (mf_flags f) n"

text \<open>The kernel messages a process can subscribe to, by number.\<close>

(* src/src/include/btos/bt_msg.h:38-43 bt_kernel_messages *)
datatype kernel_message = ProcessStart | ProcessEnd | MessageReceipt

(* src/src/include/btos/bt_msg.h:38-43 bt_kernel_messages *)
fun kernel_message_id :: "kernel_message \<Rightarrow> u32" where
  "kernel_message_id ProcessStart = 1"
| "kernel_message_id ProcessEnd = 2"
| "kernel_message_id MessageReceipt = 3"

text \<open>A queued message: its header and, when its length is not zero, a copy of its bytes.\<close>

(* src/src/kernel/messaging.cpp:85-94 Message *)
record message =
  header :: msg_header
  content :: "u8 list option"

(* src/src/kernel/messaging.cpp:40-56 MessageContent *)
definition make_message :: "msg_header \<Rightarrow> u8 list \<Rightarrow> message" where
  "make_message h body = \<lparr>header = h, content = (if mh_length h \<noteq> 0 then Some body else None)\<rparr>"

datatype msg_status = Normal | Waiting | Processing

(* src/src/kernel/messaging.cpp:96-105 MessageManager *)
record msg_world =
  messages :: "message list"
  idCounter :: u64
  subscribers :: "(u64 \<times> kernel_message) list"
  cur_msg :: "u64 \<Rightarrow> u64"
  msg_status :: "u64 \<Rightarrow> msg_status"

(* src/src/kernel/messaging.cpp:420-430 MessageManager::DoesMessageMatch *)
definition DoesMessageMatch :: "msg_header \<Rightarrow> msg_filter \<Rightarrow> bool" where
  "DoesMessageMatch m f =
     (if mh_critical m then True
      else let r1 = \<not> (filter_flag 4 f \<and> is_reply m);
               r2 = r1 \<and> \<not> (filter_flag 0 f \<and> mh_from m \<noteq> mf_pid f);
               r3 = r2 \<and> \<not> (filter_flag 1 f \<and> mh_reply_id m \<noteq> mf_reply_to f);
               r4 = r3 \<and> \<not> (filter_flag 2 f \<and> mh_type m \<noteq> mf_type f);
               r5 = r4 \<and> \<not> (filter_flag 3 f \<and> ucast (mh_source m) \<noteq> mf_source f)
           in if filter_flag 31 f then \<not> r5 else r5)"

section \<open>The private operations\<close>

(* src/src/kernel/messaging.cpp:107-110 MessageManager::NextID *)
definition NextID :: "msg_world \<Rightarrow> u64 \<times> msg_world" where
  "NextID w = (idCounter w + 1, w\<lparr>idCounter := idCounter w + 1\<rparr>)"

(* src/src/kernel/messaging.cpp:112-121 MessageManager::GetMessage *)
definition GetMessage :: "u64 \<Rightarrow> msg_world \<Rightarrow> message option" where
  "GetMessage i w = List.find (\<lambda>m. mh_id (header m) = i) (messages w)"

(* src/src/kernel/messaging.cpp:123-129 MessageManager::HaveMessage *)
definition HaveMessage :: "u64 \<Rightarrow> msg_world \<Rightarrow> bool" where
  "HaveMessage i w \<longleftrightarrow> (\<exists>m \<in> set (messages w). mh_id (header m) = i)"

text \<open>A message that is not a reply has to wait while another one from the same sender to the
  same receiver is undelivered; messages of the kernel never wait.\<close>

(* src/src/kernel/messaging.cpp:136-144 MessageManager::AddMessage *)
definition must_wait :: "msg_header \<Rightarrow> msg_world \<Rightarrow> bool" where
  "must_wait h w \<longleftrightarrow> mh_from h \<noteq> 0 \<and> \<not> is_reply h \<and>
     (\<exists>m \<in> set (messages w). \<not> is_reply (header m) \<and>
        mh_from (header m) = mh_from h \<and> mh_to (header m) = mh_to h)"

text \<open>One round of \<open>AddMessage\<close>: \<open>None\<close> when the sender has to block first.\<close>

(* src/src/kernel/messaging.cpp:131-165 MessageManager::AddMessage *)
definition AddMessage :: "(u64 \<Rightarrow> bool) \<Rightarrow> message \<Rightarrow> msg_world \<Rightarrow> msg_world option" where
  "AddMessage alive m w =
     (if must_wait (header m) w then None
      else Some (if alive (mh_to (header m)) then w\<lparr>messages := messages w @ [m]\<rparr> else w))"

text \<open>The condition under which the blocked sender is woken. The scheduler evaluates it with the
  lock, or says no when it cannot take the lock.\<close>

(* src/src/kernel/messaging.cpp:152-163 MessageManager::AddMessage *)
definition AddMessageCheck :: "bool \<Rightarrow> message \<Rightarrow> msg_world \<Rightarrow> bool" where
  "AddMessageCheck lockable m w \<longleftrightarrow> lockable \<and>
     \<not> (\<exists>n \<in> set (messages w). \<not> is_reply (header n) \<and>
          mh_from (header n) = mh_from (header m) \<and> mh_to (header n) = mh_to (header m))"

(* src/src/kernel/messaging.cpp:167-177 MessageManager::RemoveMessage *)
definition RemoveMessage :: "u64 \<Rightarrow> msg_world \<Rightarrow> msg_world" where
  "RemoveMessage i w =
     (case find_index (\<lambda>m. mh_id (header m) = i) (messages w) of
        None \<Rightarrow> w
      | Some k \<Rightarrow> w\<lparr>messages := erase_at k (messages w)\<rparr>)"

section \<open>Sending\<close>

text \<open>What a call of \<open>SendMessage\<close> can do: refuse the message (return 0), queue it under a new id,
  or block with the message in hand, its id already drawn.\<close>

datatype send_result =
    Rejected msg_world
  | Sent u64 msg_world
  | SendBlocked message msg_world

(* src/src/kernel/messaging.cpp:202-206 MessageManager::SendMessage *)
definition fresh_header :: "msg_header \<Rightarrow> msg_header" where
  "fresh_header h = h\<lparr>mh_valid := True, mh_recieved := False, mh_replied := False\<rparr>"

text \<open>The checks before a message is accepted. The flag \<open>replied\<close> is set on a local copy of some
  other message (lines 224 to 227), which changes nothing.\<close>

(* src/src/kernel/messaging.cpp:207-228 MessageManager::SendMessage *)
definition accepts :: "(u64 \<Rightarrow> bool) \<Rightarrow> msg_header \<Rightarrow> msg_world \<Rightarrow> bool" where
  "accepts alive h w =
     (if mh_to h \<noteq> 0 \<and> \<not> alive (mh_to h) then False
      else if is_reply h
      then (case GetMessage (mh_reply_id h) w of
              None \<Rightarrow> False
            | Some prev \<Rightarrow>
                if mh_to (header prev) \<noteq> mh_from h \<or> mh_from (header prev) \<noteq> mh_to h then False
                else \<not> mh_replied (header prev))
      else True)"

(* src/src/kernel/messaging.cpp:230-237 MessageManager::SendMessage *)
definition ResumeSend :: "(u64 \<Rightarrow> bool) \<Rightarrow> message \<Rightarrow> msg_world \<Rightarrow> send_result" where
  "ResumeSend alive m w =
     (case AddMessage alive m w of
        None \<Rightarrow> SendBlocked m w
      | Some w' \<Rightarrow> Sent (mh_id (header m)) w')"

(* src/src/kernel/messaging.cpp:201-238 MessageManager::SendMessage *)
definition SendMessage :: "(u64 \<Rightarrow> bool) \<Rightarrow> msg_header \<Rightarrow> u8 list \<Rightarrow> msg_world \<Rightarrow> send_result" where
  "SendMessage alive msgHeader body w =
     (let m = make_message (fresh_header msgHeader) body
      in if \<not> accepts alive (header m) w then Rejected w
         else let (i, w') = NextID w
              in ResumeSend alive (m\<lparr>header := (header m)\<lparr>mh_id := i\<rparr>\<rparr>) w')"

text \<open>Messages of the kernel do not block, so their result is a state. The reply id of such a
  message is a variable the code never sets: \<open>uninit\<close>.\<close>

definition kernel_header :: "u64 \<Rightarrow> kernel_message \<Rightarrow> u64 \<Rightarrow> u32 \<Rightarrow> msg_header" where
  "kernel_header uninit km to len =
     \<lparr>mh_valid = True, mh_id = 0, mh_reply_id = uninit, mh_flags = 0, mh_source = 0, mh_from = 0,
      mh_to = to, mh_type = kernel_message_id km, mh_length = len, mh_critical = False,
      mh_recieved = False, mh_replied = False\<rparr>"

fun after_send :: "send_result \<Rightarrow> msg_world" where
  "after_send (Rejected w) = w"
| "after_send (Sent i w) = w"
| "after_send (SendBlocked m w) = w"

text \<open>The bytes of a header as a structure in memory are the parameter \<open>bytes_of\<close>; the receipt
  carries the header with its length and content cleared.\<close>

(* src/src/kernel/messaging.cpp:179-198 MessageManager::SendMessageReciept *)
definition SendMessageReciept ::
  "(u64 \<Rightarrow> bool) \<Rightarrow> (msg_header \<Rightarrow> u8 list) \<Rightarrow> u64 \<Rightarrow> msg_header \<Rightarrow> msg_world \<Rightarrow> msg_world" where
  "SendMessageReciept alive bytes_of uninit h w =
     fold (\<lambda>sub v.
        if fst sub = mh_from h \<and> snd sub = MessageReceipt
        then (let body = bytes_of (h\<lparr>mh_length := 0\<rparr>)
              in after_send (SendMessage alive
                   (kernel_header uninit MessageReceipt (fst sub) (of_nat (length body))) body v))
        else v) (subscribers w) w"

(* src/src/kernel/messaging.cpp:455-472 MessageManager::SendKernelEvent *)
definition SendKernelEvent ::
  "(u64 \<Rightarrow> bool) \<Rightarrow> u64 \<Rightarrow> kernel_message \<Rightarrow> u8 list \<Rightarrow> msg_world \<Rightarrow> msg_world" where
  "SendKernelEvent alive uninit km body w =
     fold (\<lambda>sub v.
        if snd sub = km
        then after_send (SendMessage alive
               (kernel_header uninit km (fst sub) (of_nat (length body))) body v)
        else v) (subscribers w) w"

section \<open>Receiving\<close>

definition take_message :: "u64 \<Rightarrow> message \<Rightarrow> msg_world \<Rightarrow> msg_header option \<times> msg_world" where
  "take_message thread m w =
     (Some (header m), w\<lparr>msg_status := (msg_status w)(thread := Processing)\<rparr>)"

text \<open>Without a filter: the message the process is working on, while it is in the list, else the
  oldest message for the process. \<open>thread\<close> is the calling thread and \<open>pid\<close> the process.\<close>

(* src/src/kernel/messaging.cpp:240-260 MessageManager::RecieveMessage *)
definition RecieveMessage :: "u64 \<Rightarrow> u64 \<Rightarrow> msg_world \<Rightarrow> msg_header option \<times> msg_world" where
  "RecieveMessage thread pid w =
     (case GetMessage (cur_msg w pid) w of
        Some cmsg \<Rightarrow> take_message thread cmsg w
      | None \<Rightarrow>
          (case List.find (\<lambda>m. mh_to (header m) = pid) (messages w) of
             Some m \<Rightarrow>
               take_message thread m (w\<lparr>cur_msg := (cur_msg w)(pid := mh_id (header m))\<rparr>)
           | None \<Rightarrow> (None, w)))"

(* src/src/kernel/messaging.cpp:262-282 MessageManager::RecieveMessage *)
definition RecieveMessageFilter ::
  "u64 \<Rightarrow> u64 \<Rightarrow> msg_filter \<Rightarrow> msg_world \<Rightarrow> msg_header option \<times> msg_world" where
  "RecieveMessageFilter thread pid f w =
     (case GetMessage (cur_msg w pid) w of
        Some cmsg \<Rightarrow>
          if DoesMessageMatch (header cmsg) f then take_message thread cmsg w
          else (case List.find (\<lambda>m. mh_to (header m) = pid \<and> DoesMessageMatch (header m) f) (messages w) of
                  Some m \<Rightarrow>
                    take_message thread m (w\<lparr>cur_msg := (cur_msg w)(pid := mh_id (header m))\<rparr>)
                | None \<Rightarrow> (None, w))
      | None \<Rightarrow>
          (case List.find (\<lambda>m. mh_to (header m) = pid \<and> DoesMessageMatch (header m) f) (messages w) of
             Some m \<Rightarrow>
               take_message thread m (w\<lparr>cur_msg := (cur_msg w)(pid := mh_id (header m))\<rparr>)
           | None \<Rightarrow> (None, w)))"

text \<open>One round of the waiting loops: a received header, or the state in which the thread sleeps.
  The second component of the loop is the condition under which it is woken.\<close>

(* src/src/kernel/messaging.cpp:284-305 MessageManager::AwaitMessage *)
definition AwaitMessage :: "u64 \<Rightarrow> u64 \<Rightarrow> msg_world \<Rightarrow> (msg_header option \<times> msg_world) blocking" where
  "AwaitMessage thread pid w =
     (case RecieveMessage thread pid w of
        (Some h, w') \<Rightarrow> Returned (Some h, w')
      | (None, w') \<Rightarrow> Sleeps (None, w'\<lparr>msg_status := (msg_status w')(thread := Waiting)\<rparr>))"

(* src/src/kernel/messaging.cpp:289-300 MessageManager::AwaitMessage *)
definition AwaitMessageCheck :: "bool \<Rightarrow> u64 \<Rightarrow> msg_world \<Rightarrow> bool" where
  "AwaitMessageCheck lockable pid w \<longleftrightarrow> lockable \<and> (\<exists>m \<in> set (messages w). mh_to (header m) = pid)"

text \<open>With a filter the message found does not become the current one.\<close>

(* src/src/kernel/messaging.cpp:307-342 MessageManager::AwaitMessage *)
definition AwaitMessageFilter ::
  "u64 \<Rightarrow> u64 \<Rightarrow> msg_filter \<Rightarrow> msg_world \<Rightarrow> (msg_header option \<times> msg_world) blocking" where
  "AwaitMessageFilter thread pid f w =
     (let scan =
        (case List.find (\<lambda>m. mh_to (header m) = pid \<and> DoesMessageMatch (header m) f) (messages w) of
           Some m \<Rightarrow> Returned (take_message thread m w)
         | None \<Rightarrow> Sleeps (None, w\<lparr>msg_status := (msg_status w)(thread := Waiting)\<rparr>))
      in case GetMessage (cur_msg w pid) w of
           Some cmsg \<Rightarrow> if DoesMessageMatch (header cmsg) f then Returned (Some (header cmsg), w) else scan
         | None \<Rightarrow> scan)"

(* src/src/kernel/messaging.cpp:328-339 MessageManager::AwaitMessage *)
definition AwaitMessageFilterCheck :: "bool \<Rightarrow> u64 \<Rightarrow> msg_filter \<Rightarrow> msg_world \<Rightarrow> bool" where
  "AwaitMessageFilterCheck lockable pid f w \<longleftrightarrow> lockable \<and>
     (\<exists>m \<in> set (messages w). mh_to (header m) = pid \<and> DoesMessageMatch (header m) f)"

(* src/src/kernel/messaging.cpp:344-351 MessageManager::MessageContent *)
definition MessageContentOf :: "msg_header \<Rightarrow> msg_world \<Rightarrow> u8 list" where
  "MessageContentOf h w =
     (case GetMessage (mh_id h) w of
        Some m \<Rightarrow> (case content m of Some c \<Rightarrow> c | None \<Rightarrow> [])
      | None \<Rightarrow> [])"

(* src/src/kernel/messaging.cpp:402-407 MessageManager::RecieveMessageReply *)
definition reply_filter :: "msg_filter \<Rightarrow> u64 \<Rightarrow> msg_filter" where
  "reply_filter uninit i = uninit\<lparr>mf_flags := 2, mf_reply_to := i\<rparr>"

(* src/src/kernel/messaging.cpp:402-407 MessageManager::RecieveMessageReply *)
definition RecieveMessageReply ::
  "msg_filter \<Rightarrow> u64 \<Rightarrow> u64 \<Rightarrow> u64 \<Rightarrow> msg_world \<Rightarrow> msg_header option \<times> msg_world" where
  "RecieveMessageReply uninit thread pid i w =
     RecieveMessageFilter thread pid (reply_filter uninit i) w"

(* src/src/kernel/messaging.cpp:409-414 MessageManager::AwaitMessageReply *)
definition AwaitMessageReply ::
  "msg_filter \<Rightarrow> u64 \<Rightarrow> u64 \<Rightarrow> u64 \<Rightarrow> msg_world \<Rightarrow> (msg_header option \<times> msg_world) blocking" where
  "AwaitMessageReply uninit thread pid i w =
     AwaitMessageFilter thread pid (reply_filter uninit i) w"

section \<open>Acknowledging, clearing, subscribing\<close>

(* src/src/kernel/messaging.cpp:353-362 MessageManager::AcknowledgeMessage *)
definition AcknowledgeMessage ::
  "(u64 \<Rightarrow> bool) \<Rightarrow> (msg_header \<Rightarrow> u8 list) \<Rightarrow> u64 \<Rightarrow> u64 \<Rightarrow> u64 \<Rightarrow> bool \<Rightarrow> msg_header \<Rightarrow> msg_world \<Rightarrow> msg_world" where
  "AcknowledgeMessage alive bytes_of uninit thread pid setStatus h w =
     (if \<not> HaveMessage (mh_id h) w then w
      else let w1 = (if cur_msg w pid = mh_id h then w\<lparr>cur_msg := (cur_msg w)(pid := 0)\<rparr> else w);
               w2 = RemoveMessage (mh_id h) w1;
               w3 = (if setStatus then w2\<lparr>msg_status := (msg_status w2)(thread := Normal)\<rparr> else w2)
           in SendMessageReciept alive bytes_of uninit h w3)"

(* src/src/kernel/messaging.cpp:364-367 MessageManager::AwaitNextMessage *)
definition AwaitNextMessage ::
  "(u64 \<Rightarrow> bool) \<Rightarrow> (msg_header \<Rightarrow> u8 list) \<Rightarrow> u64 \<Rightarrow> u64 \<Rightarrow> u64 \<Rightarrow> msg_header \<Rightarrow> msg_world \<Rightarrow>
   (msg_header option \<times> msg_world) blocking" where
  "AwaitNextMessage alive bytes_of uninit thread pid h w =
     AwaitMessage thread pid (AcknowledgeMessage alive bytes_of uninit thread pid False h w)"

text \<open>The two loops of \<open>ClearMessages\<close> reset their own condition at the end of the first round,
  so each body runs exactly once.\<close>

(* src/src/kernel/messaging.cpp:379-387 MessageManager::ClearMessages *)
definition clear_one_message ::
  "(u64 \<Rightarrow> bool) \<Rightarrow> (msg_header \<Rightarrow> u8 list) \<Rightarrow> u64 \<Rightarrow> u64 \<Rightarrow> msg_world \<Rightarrow> msg_world" where
  "clear_one_message alive bytes_of uninit pid w =
     (case find_index (\<lambda>m. mh_to (header m) = pid \<or> mh_from (header m) = pid) (messages w) of
        None \<Rightarrow> w
      | Some i \<Rightarrow>
          (let h = header (messages w ! i);
               w' = w\<lparr>messages := erase_at i (messages w)\<rparr>
           in if mh_to h = pid then SendMessageReciept alive bytes_of uninit h w' else w'))"

(* src/src/kernel/messaging.cpp:391-397 MessageManager::ClearMessages *)
definition clear_one_subscription :: "u64 \<Rightarrow> msg_world \<Rightarrow> msg_world" where
  "clear_one_subscription pid w =
     (case find_index (\<lambda>s. fst s = pid) (subscribers w) of
        None \<Rightarrow> w
      | Some i \<Rightarrow> w\<lparr>subscribers := erase_at i (subscribers w)\<rparr>)"

(* src/src/kernel/messaging.cpp:374-400 MessageManager::ClearMessages *)
definition ClearMessages ::
  "(u64 \<Rightarrow> bool) \<Rightarrow> (msg_header \<Rightarrow> u8 list) \<Rightarrow> u64 \<Rightarrow> u64 \<Rightarrow> msg_world \<Rightarrow> msg_world" where
  "ClearMessages alive bytes_of uninit pid w =
     clear_one_subscription pid (clear_one_message alive bytes_of uninit pid w)"

(* src/src/kernel/messaging.cpp:416-418 MessageManager::HasMessageBeenProcessed *)
definition HasMessageBeenProcessed :: "u64 \<Rightarrow> msg_world \<Rightarrow> bool" where
  "HasMessageBeenProcessed i w \<longleftrightarrow> \<not> HaveMessage i w"

(* src/src/kernel/messaging.cpp:434-441 MessageManager::Subscribe *)
definition Subscribe :: "u64 \<Rightarrow> kernel_message \<Rightarrow> msg_world \<Rightarrow> msg_world" where
  "Subscribe pid km w =
     (if (pid, km) \<in> set (subscribers w) then w
      else w\<lparr>subscribers := subscribers w @ [(pid, km)]\<rparr>)"

(* src/src/kernel/messaging.cpp:443-453 MessageManager::UnSubscribe *)
definition UnSubscribe :: "u64 \<Rightarrow> kernel_message \<Rightarrow> msg_world \<Rightarrow> msg_world" where
  "UnSubscribe pid km w =
     (case find_index (\<lambda>s. s = (pid, km)) (subscribers w) of
        None \<Rightarrow> w
      | Some i \<Rightarrow> w\<lparr>subscribers := erase_at i (subscribers w)\<rparr>)"

section \<open>The receiving handle\<close>

text \<open>\<open>Wait\<close> is evaluated by the scheduler; it receives as soon as the process exists, its lock
  and the message lock can be taken. The header read later is the one received, or invalid.\<close>

(* src/src/kernel/messaging.cpp:489-496 MessageRecieveHandle::Wait *)
definition RecieveHandleWait ::
  "bool \<Rightarrow> u64 \<Rightarrow> u64 \<Rightarrow> msg_filter \<Rightarrow> msg_world \<Rightarrow> bool \<times> msg_header option \<times> msg_world" where
  "RecieveHandleWait available thread pid f w =
     (if \<not> available then (False, None, w)
      else let (r, w') = RecieveMessageFilter thread pid f w
           in (case r of Some h \<Rightarrow> mh_valid h | None \<Rightarrow> False, r, w'))"

section \<open>Content buffers\<close>

(* src/src/kernel/messaging.cpp:15-26 NewContentBuffer *)
definition NewContentBuffer ::
  "(nat \<Rightarrow> bool) \<Rightarrow> u8 vector list \<Rightarrow> (u8 vector \<times> u8 vector list) result" where
  "NewContentBuffer heap pool =
     (if pool \<noteq> [] then Inr (last pool, butlast pool)
      else bind_result (vec_new heap) (\<lambda>v. Inr (v, pool)))"

(* src/src/kernel/messaging.cpp:28-35 ReleaseContentBuffer *)
definition ReleaseContentBuffer :: "u8 vector list \<Rightarrow> u8 vector \<Rightarrow> u8 vector list" where
  "ReleaseContentBuffer pool buffer = (if length pool < 32 then pool @ [buffer] else pool)"

text \<open>A buffer, possibly one that held another message, is resized and overwritten.\<close>

(* src/src/kernel/messaging.cpp:47-56 MessageContent::MessageContent *)
definition FillContent ::
  "(nat \<Rightarrow> bool) \<Rightarrow> u8 vector list \<Rightarrow> u8 list \<Rightarrow> (u8 vector \<times> u8 vector list) result" where
  "FillContent heap pool body =
     bind_result (NewContentBuffer heap pool) (\<lambda>(v, pool').
       bind_result (vec_resize heap 0 v (length body)) (\<lambda>w.
         Inr (w\<lparr>vdata := body @ drop (length body) (vdata w)\<rparr>, pool')))"

section \<open>The invariant of the message list\<close>

text \<open>A message that takes part in the one-at-a-time rule, and the pair of its ends.\<close>

definition plain :: "msg_header \<Rightarrow> bool" where
  "plain h \<longleftrightarrow> \<not> is_reply h \<and> mh_from h \<noteq> 0"

definition ends :: "msg_header \<Rightarrow> u64 \<times> u64" where
  "ends h = (mh_from h, mh_to h)"

definition one_per_pair :: "message list \<Rightarrow> bool" where
  "one_per_pair ms \<longleftrightarrow> distinct (map (ends \<circ> header) (filter (plain \<circ> header) ms))"

definition msg_id :: "message \<Rightarrow> u64" where
  "msg_id m = mh_id (header m)"

text \<open>\<open>pend\<close> are the messages in the hands of blocked senders.\<close>

definition msg_inv :: "msg_world \<Rightarrow> message list \<Rightarrow> bool" where
  "msg_inv w pend \<longleftrightarrow>
     distinct (map msg_id (messages w @ pend)) \<and>
     (\<forall>m \<in> set (messages w @ pend). msg_id m \<noteq> 0 \<and> msg_id m \<le> idCounter w) \<and>
     one_per_pair (messages w)"

definition room :: "nat \<Rightarrow> msg_world \<Rightarrow> bool" where
  "room n w \<longleftrightarrow> unat (idCounter w) + n < 2 ^ 64"

lemma msg_inv_permute: "msg_inv w p \<Longrightarrow> mset p = mset p' \<Longrightarrow> msg_inv w p'"
  unfolding msg_inv_def
  by (metis (no_types, lifting) map_append mset_append mset_eq_imp_distinct_iff mset_eq_setD mset_map)

lemma one_per_pair_snoc:
  assumes "one_per_pair (messages w)" "\<not> must_wait (header m) w"
  shows "one_per_pair (messages w @ [m])"
  using assms by (auto simp: one_per_pair_def must_wait_def plain_def ends_def)

lemma AddMessage_inv:
  "msg_inv w (m # pend) \<Longrightarrow> AddMessage alive m w = Some w' \<Longrightarrow>
   msg_inv w' pend \<and> idCounter w' = idCounter w"
  using one_per_pair_snoc [of w m] unfolding AddMessage_def msg_inv_def
  by (cases "alive (mh_to (header m))") (fastforce split: if_splits)+

lemma next_id_fresh:
  assumes "room 1 w" "i \<le> idCounter w"
  shows "i \<le> idCounter w + 1" "i \<noteq> idCounter w + 1" "idCounter w + 1 \<noteq> 0"
proof -
  have "unat (idCounter w + 1) = unat (idCounter w) + 1"
    using assms(1) by (simp add: room_def unat_word_ariths)
  with assms(2) show "i \<le> idCounter w + 1" "i \<noteq> idCounter w + 1" "idCounter w + 1 \<noteq> 0"
    by (auto simp: word_le_nat_alt)
qed

lemma draw_id_inv:
  assumes "msg_inv w pend" "room 1 w" "msg_id m = idCounter w + 1"
  shows "msg_inv (w\<lparr>idCounter := idCounter w + 1\<rparr>) (m # pend)"
proof -
  have "\<forall>x \<in> set (messages w @ pend).
      msg_id x \<noteq> 0 \<and> msg_id x \<le> idCounter w + 1 \<and> msg_id x \<noteq> msg_id m"
    using assms(1,3) next_id_fresh [OF assms(2)] unfolding msg_inv_def by metis
  then show ?thesis
    using assms(1,3) next_id_fresh(3) [OF assms(2), of 0]
    by (auto simp: msg_inv_def)
qed

lemma room_next: "room (Suc n) w \<Longrightarrow> room n (w\<lparr>idCounter := idCounter w + 1\<rparr>)"
  by (simp add: room_def unat_word_ariths)

lemma room_Suc_1: "room (Suc n) w \<Longrightarrow> room 1 w"
  by (simp add: room_def)

lemma room_world: "idCounter w' = idCounter w \<Longrightarrow> room n w' = room n w"
  by (simp add: room_def)

text \<open>What sending does to the invariant, in each of its outcomes.\<close>

lemma SendMessage_inv:
  assumes "msg_inv w pend" "room (Suc n) w"
  shows "case SendMessage alive h body w of
      Rejected w' \<Rightarrow> w' = w
    | Sent i w' \<Rightarrow> msg_inv w' pend \<and> room n w'
    | SendBlocked m w' \<Rightarrow> msg_inv w' (m # pend) \<and> room n w'"
proof -
  let ?m = "make_message (fresh_header h) body"
  let ?m' = "?m\<lparr>header := (header ?m)\<lparr>mh_id := idCounter w + 1\<rparr>\<rparr>"
  let ?w = "w\<lparr>idCounter := idCounter w + 1\<rparr>"
  have inv: "msg_inv ?w (?m' # pend)"
    using draw_id_inv [OF assms(1) room_Suc_1 [OF assms(2)]] by (simp add: msg_id_def)
  have room: "room n ?w" by (rule room_next [OF assms(2)])
  show ?thesis
  proof (cases "accepts alive (header ?m) w")
    case False
    then show ?thesis by (simp add: SendMessage_def Let_def)
  next
    case True
    then have send: "SendMessage alive h body w = ResumeSend alive ?m' ?w"
      by (simp add: SendMessage_def Let_def NextID_def)
    show ?thesis
    proof (cases "AddMessage alive ?m' ?w")
      case None
      then show ?thesis using inv room by (simp add: send ResumeSend_def)
    next
      case (Some w')
      then show ?thesis
        using AddMessage_inv [OF inv Some] room room_world [of w' ?w n]
        by (simp add: send ResumeSend_def)
    qed
  qed
qed

lemma kernel_send_inv:
  assumes "msg_inv w pend" "room (Suc n) w"
  shows "msg_inv (after_send (SendMessage alive (kernel_header u km to len) body w)) pend \<and>
    room n (after_send (SendMessage alive (kernel_header u km to len) body w))"
proof -
  have "\<not> must_wait (header m) v" if "mh_from (header m) = 0" for m v
    using that by (simp add: must_wait_def)
  then have "SendMessage alive (kernel_header u km to len) body w \<noteq> SendBlocked m v" for m v
    by (auto simp: SendMessage_def Let_def NextID_def ResumeSend_def AddMessage_def
        make_message_def fresh_header_def kernel_header_def must_wait_def split: if_splits)
  moreover have "room n w"
    using assms(2) by (simp add: room_def)
  ultimately show ?thesis
    using SendMessage_inv [OF assms, of alive "kernel_header u km to len" body] assms(1)
    by (cases "SendMessage alive (kernel_header u km to len) body w") auto
qed

lemma fold_kernel_sends_inv:
  assumes "msg_inv w pend" "room (length subs + n) w"
  shows "msg_inv (fold (\<lambda>sub v. if P sub
      then after_send (SendMessage alive (kernel_header u km (fst sub) len) body v) else v) subs w) pend"
  using assms
proof (induction subs arbitrary: w)
  case Nil
  then show ?case by simp
next
  case (Cons s subs)
  show ?case
  proof (cases "P s")
    case True
    then show ?thesis
      using kernel_send_inv [of w pend "length subs + n"] Cons by simp
  next
    case False
    then have "room (length subs + n) w"
      using Cons.prems(2) by (simp add: room_def)
    with Cons False show ?thesis by simp
  qed
qed

lemma SendMessageReciept_inv:
  "msg_inv w pend \<Longrightarrow> room (length (subscribers w)) w \<Longrightarrow>
   msg_inv (SendMessageReciept alive bytes_of u h w) pend"
  using fold_kernel_sends_inv [of w pend "subscribers w" 0
      "\<lambda>sub. fst sub = mh_from h \<and> snd sub = MessageReceipt" alive u MessageReceipt
      "of_nat (length (bytes_of (h\<lparr>mh_length := 0\<rparr>)))" "bytes_of (h\<lparr>mh_length := 0\<rparr>)"]
  unfolding SendMessageReciept_def Let_def by simp

lemma SendKernelEvent_inv:
  "msg_inv w pend \<Longrightarrow> room (length (subscribers w)) w \<Longrightarrow>
   msg_inv (SendKernelEvent alive u km body w) pend"
  using fold_kernel_sends_inv [of w pend "subscribers w" 0 "\<lambda>sub. snd sub = km" alive u km
      "of_nat (length body)" body]
  by (simp add: SendKernelEvent_def)

section \<open>The message system as a state machine\<close>

text \<open>One call of a method, by any process and with any set of living processes. A sender that
  blocks joins the pending list; it leaves the list when its message is queued. Every call has
  room for the ids it may draw, that is, the 64-bit counter does not wrap.\<close>

inductive msg_step ::
  "(msg_header \<Rightarrow> u8 list) \<Rightarrow> u64 \<Rightarrow> msg_world \<times> message list \<Rightarrow> msg_world \<times> message list \<Rightarrow> bool"
  for bytes_of uninit where
  Send: "room 1 w \<Longrightarrow> SendMessage alive h body w = r \<Longrightarrow>
    msg_step bytes_of uninit (w, p) (after_send r, case r of SendBlocked m _ \<Rightarrow> m # p | _ \<Rightarrow> p)"
| Resume: "m \<in> set p \<Longrightarrow> ResumeSend alive m w = Sent i w' \<Longrightarrow>
    msg_step bytes_of uninit (w, p) (w', remove1 m p)"
| Receive: "msg_step bytes_of uninit (w, p) (snd (RecieveMessage t pid w), p)"
| ReceiveFilter: "msg_step bytes_of uninit (w, p) (snd (RecieveMessageFilter t pid f w), p)"
| Await: "AwaitMessage t pid w \<in> {Returned (r, w'), Sleeps (r, w')} \<Longrightarrow>
    msg_step bytes_of uninit (w, p) (w', p)"
| AwaitFilter: "AwaitMessageFilter t pid f w \<in> {Returned (r, w'), Sleeps (r, w')} \<Longrightarrow>
    msg_step bytes_of uninit (w, p) (w', p)"
| Acknowledge: "room (length (subscribers w)) w \<Longrightarrow>
    msg_step bytes_of uninit (w, p) (AcknowledgeMessage alive bytes_of uninit t pid st h w, p)"
| Clear: "room (length (subscribers w)) w \<Longrightarrow>
    msg_step bytes_of uninit (w, p) (ClearMessages alive bytes_of uninit pid w, p)"
| Subscription: "msg_step bytes_of uninit (w, p) (Subscribe pid km w, p)"
| Unsubscription: "msg_step bytes_of uninit (w, p) (UnSubscribe pid km w, p)"
| Event: "room (length (subscribers w)) w \<Longrightarrow>
    msg_step bytes_of uninit (w, p) (SendKernelEvent alive uninit km body w, p)"

definition msg_init :: msg_world where
  "msg_init = \<lparr>messages = [], idCounter = 0, subscribers = [], cur_msg = \<lambda>_. 0, msg_status = \<lambda>_. Normal\<rparr>"

abbreviation msg_reachable ::
  "(msg_header \<Rightarrow> u8 list) \<Rightarrow> u64 \<Rightarrow> msg_world \<times> message list \<Rightarrow> bool" where
  "msg_reachable bytes_of uninit s \<equiv> (msg_step bytes_of uninit)\<^sup>*\<^sup>* (msg_init, []) s"

lemma msg_inv_cong:
  "messages w' = messages w \<Longrightarrow> idCounter w' = idCounter w \<Longrightarrow> msg_inv w' p = msg_inv w p"
  by (simp add: msg_inv_def)

lemma receive_frame:
  "messages (snd (RecieveMessage t pid w)) = messages w"
  "idCounter (snd (RecieveMessage t pid w)) = idCounter w"
  "messages (snd (RecieveMessageFilter t pid f w)) = messages w"
  "idCounter (snd (RecieveMessageFilter t pid f w)) = idCounter w"
  by (simp_all add: RecieveMessage_def RecieveMessageFilter_def take_message_def split: option.split)

lemma await_frame:
  assumes "AwaitMessage t pid w \<in> {Returned (r, w'), Sleeps (r, w')}"
  shows "messages w' = messages w \<and> idCounter w' = idCounter w"
  using assms receive_frame(1,2) [of t pid w]
  by (cases "RecieveMessage t pid w") (auto simp: AwaitMessage_def split: option.splits)

lemma await_filter_frame:
  assumes "AwaitMessageFilter t pid f w \<in> {Returned (r, w'), Sleeps (r, w')}"
  shows "messages w' = messages w \<and> idCounter w' = idCounter w"
  using assms
  by (auto simp: AwaitMessageFilter_def take_message_def Let_def split: option.splits if_splits)

lemma msg_inv_erase:
  assumes "msg_inv w p"
  shows "msg_inv (w\<lparr>messages := erase_at i (messages w)\<rparr>) p"
proof -
  have "distinct (map msg_id (erase_at i (messages w)))"
    using assms distinct_erase_at [of "map msg_id (messages w)" i]
    by (simp add: msg_inv_def map_erase_at)
  moreover have "set (erase_at i (messages w)) \<subseteq> set (messages w)"
    by (rule set_erase_at)
  moreover have "one_per_pair (erase_at i (messages w))"
    using assms by (simp add: msg_inv_def one_per_pair_def distinct_map_filter_erase_at)
  ultimately show ?thesis
    using assms unfolding msg_inv_def by auto
qed

lemma RemoveMessage_inv: "msg_inv w p \<Longrightarrow> msg_inv (RemoveMessage i w) p"
  by (simp add: RemoveMessage_def msg_inv_erase split: option.split)

lemma RemoveMessage_frame [simp]:
  "idCounter (RemoveMessage i w) = idCounter w" "subscribers (RemoveMessage i w) = subscribers w"
  by (simp_all add: RemoveMessage_def split: option.split)

lemma AcknowledgeMessage_inv:
  assumes "msg_inv w p" "room (length (subscribers w)) w"
  shows "msg_inv (AcknowledgeMessage alive bytes_of u t pid st h w) p"
proof -
  let ?w1 = "if cur_msg w pid = mh_id h then w\<lparr>cur_msg := (cur_msg w)(pid := 0)\<rparr> else w"
  let ?w2 = "RemoveMessage (mh_id h) ?w1"
  let ?w3 = "if st then ?w2\<lparr>msg_status := (msg_status ?w2)(t := Normal)\<rparr> else ?w2"
  have "msg_inv ?w1 p" using assms(1) msg_inv_cong [of ?w1 w p] by simp
  then have "msg_inv ?w2 p" by (rule RemoveMessage_inv)
  then have "msg_inv ?w3 p" using msg_inv_cong [of ?w3 ?w2 p] by simp
  moreover have "room (length (subscribers ?w3)) ?w3"
    using assms(2) by (simp add: room_def)
  ultimately have "msg_inv (SendMessageReciept alive bytes_of u h ?w3) p"
    by (rule SendMessageReciept_inv)
  with assms(1) show ?thesis by (simp add: AcknowledgeMessage_def Let_def)
qed

lemma ClearMessages_inv:
  assumes "msg_inv w p" "room (length (subscribers w)) w"
  shows "msg_inv (ClearMessages alive bytes_of u pid w) p"
proof -
  have one: "msg_inv (clear_one_message alive bytes_of u pid w) p"
  proof (cases "find_index (\<lambda>m. mh_to (header m) = pid \<or> mh_from (header m) = pid) (messages w)")
    case None
    with assms(1) show ?thesis by (simp add: clear_one_message_def)
  next
    case (Some i)
    let ?w' = "w\<lparr>messages := erase_at i (messages w)\<rparr>"
    have inv: "msg_inv ?w' p" by (rule msg_inv_erase [OF assms(1)])
    have "room (length (subscribers ?w')) ?w'" using assms(2) by (simp add: room_def)
    from SendMessageReciept_inv [OF inv this] inv Some show ?thesis
      by (simp add: clear_one_message_def Let_def)
  qed
  then show ?thesis
    using msg_inv_cong [of "clear_one_subscription pid v" v p for v]
    by (simp add: ClearMessages_def clear_one_subscription_def split: option.split)
qed

lemma msg_inv_step:
  assumes "msg_step bytes_of u (w, p) (w', p')" "msg_inv w p"
  shows "msg_inv w' p'"
  using assms(1)
proof cases
  case (Send alive h body r)
  then show ?thesis
    using SendMessage_inv [OF assms(2), of 0 alive h body] assms(2) by (cases r) auto
next
  case (Resume m alive i)
  have "mset p = mset (m # remove1 m p)" using Resume(2) by simp
  then have "msg_inv w (m # remove1 m p)" by (rule msg_inv_permute [OF assms(2)])
  with Resume show ?thesis
    using AddMessage_inv by (auto simp: ResumeSend_def split: option.splits)
next
  case (Await t pid r)
  then show ?thesis using await_frame assms(2) msg_inv_cong by metis
next
  case (AwaitFilter t pid f r)
  then show ?thesis using await_filter_frame assms(2) msg_inv_cong by metis
next
  case (Acknowledge alive t pid st h)
  then show ?thesis using AcknowledgeMessage_inv assms(2) by simp
next
  case (Clear alive pid)
  then show ?thesis using ClearMessages_inv assms(2) by simp
next
  case (Event alive km body)
  then show ?thesis using SendKernelEvent_inv assms(2) by simp
qed (use assms(2) receive_frame in
  \<open>auto simp: msg_inv_def Subscribe_def UnSubscribe_def split: option.splits\<close>)

lemma msg_inv_reachable: "msg_reachable bytes_of u (w, p) \<Longrightarrow> msg_inv w p"
proof (induction "(w, p)" arbitrary: w p rule: rtranclp_induct)
  case base
  then show ?case by (simp add: msg_inv_def msg_init_def one_per_pair_def)
next
  case (step s)
  then show ?case using msg_inv_step by (cases s) blast
qed

section \<open>Effects of sending and acknowledging\<close>

lemma kernel_send_effect:
  "\<exists>m. messages (after_send (SendMessage alive (kernel_header u km to len) body w)) =
      messages w @ (if alive to then [m] else []) \<and> mh_from (header m) = 0 \<and>
      mh_to (header m) = to \<and> mh_type (header m) = kernel_message_id km"
proof (cases "to \<noteq> 0 \<and> \<not> alive to")
  case True
  then have "SendMessage alive (kernel_header u km to len) body w = Rejected w"
    by (simp add: SendMessage_def Let_def make_message_def fresh_header_def kernel_header_def
        accepts_def)
  with True show ?thesis
    by (intro exI [of _ "make_message (kernel_header u km to len) body"])
      (simp add: make_message_def kernel_header_def)
next
  case False
  then show ?thesis
    by (intro exI [of _ "make_message ((fresh_header (kernel_header u km to len))
          \<lparr>mh_id := idCounter w + 1\<rparr>) body"])
      (auto simp: SendMessage_def Let_def NextID_def ResumeSend_def AddMessage_def
        make_message_def fresh_header_def kernel_header_def must_wait_def accepts_def is_reply_def)
qed

lemma receipts_effect:
  "\<exists>rs. messages (fold (\<lambda>sub v. if fst sub = src \<and> snd sub = MessageReceipt
       then after_send (SendMessage alive (kernel_header u MessageReceipt (fst sub) len) body v)
       else v) subs w) = messages w @ rs \<and>
     length rs = (if alive src then length (filter ((=) (src, MessageReceipt)) subs) else 0) \<and>
     (\<forall>r \<in> set rs. mh_from (header r) = 0 \<and> mh_to (header r) = src \<and>
        mh_type (header r) = kernel_message_id MessageReceipt)"
proof (induction subs arbitrary: w)
  case Nil
  then show ?case by simp
next
  case (Cons s subs)
  show ?case
  proof (cases "fst s = src \<and> snd s = MessageReceipt")
    case True
    then have s: "s = (src, MessageReceipt)" by (cases s) simp
    let ?w = "after_send (SendMessage alive (kernel_header u MessageReceipt src len) body w)"
    obtain m where m: "messages ?w = messages w @ (if alive src then [m] else [])"
      "mh_from (header m) = 0" "mh_to (header m) = src"
      "mh_type (header m) = kernel_message_id MessageReceipt"
      using kernel_send_effect [of alive u MessageReceipt src len body w] by blast
    from Cons.IH [of ?w] obtain rs where rs:
      "messages (fold (\<lambda>sub v. if fst sub = src \<and> snd sub = MessageReceipt
         then after_send (SendMessage alive (kernel_header u MessageReceipt (fst sub) len) body v)
         else v) subs ?w) = messages ?w @ rs"
      "length rs = (if alive src then length (filter ((=) (src, MessageReceipt)) subs) else 0)"
      "\<forall>r \<in> set rs. mh_from (header r) = 0 \<and> mh_to (header r) = src \<and>
        mh_type (header r) = kernel_message_id MessageReceipt"
      by blast
    show ?thesis
      using m rs by (intro exI [of _ "(if alive src then [m] else []) @ rs"]) (simp add: s)
  next
    case False
    then have "s \<noteq> (src, MessageReceipt)" by auto
    with False Cons.IH [of w] show ?thesis by auto
  qed
qed

lemma RemoveMessage_messages:
  "messages (RemoveMessage i w) = remove_first (\<lambda>m. msg_id m = i) (messages w)"
  by (simp add: RemoveMessage_def remove_first_def msg_id_def split: option.split)

lemma not_in_remove_first_distinct:
  "distinct (map f xs) \<Longrightarrow> x \<in> set (remove_first (\<lambda>m. f m = i) xs) \<Longrightarrow> f x \<noteq> i"
  by (induction xs) (force split: if_splits)+

lemma find_append_old: "List.find P xs = Some x \<Longrightarrow> List.find P (xs @ ys) = Some x"
  by (induction xs) auto

lemma find_append_new: "List.find P xs = None \<Longrightarrow> List.find P (xs @ ys) = List.find P ys"
  by (induction xs) auto

lemma SendMessage_queued:
  assumes "accepts alive (fresh_header h) w" "alive (mh_to h)"
    and "\<not> must_wait (fresh_header h) w"
  shows "SendMessage alive h body w =
    Sent (idCounter w + 1)
      (w\<lparr>idCounter := idCounter w + 1,
         messages := messages w @
           [make_message ((fresh_header h)\<lparr>mh_id := idCounter w + 1\<rparr>) body]\<rparr>)"
proof -
  have "\<not> must_wait ((fresh_header h)\<lparr>mh_id := idCounter w + 1\<rparr>) (w\<lparr>idCounter := idCounter w + 1\<rparr>)"
    using assms(3) by (simp add: must_wait_def is_reply_def)
  with assms(1,2) show ?thesis
    by (simp add: SendMessage_def Let_def make_message_def NextID_def ResumeSend_def AddMessage_def
        fresh_header_def)
qed

section \<open>Properties\<close>

text \<open>C3. In every state the message system can reach, all queued messages and those of blocked
  senders have different, non-zero ids, and for each sender other than the kernel and each
  receiver at most one message that is not a reply is queued.\<close>

theorem message_queue_invariant:
  assumes "msg_reachable bytes_of u (w, p)"
  shows "distinct (map msg_id (messages w @ p)) \<and> 0 \<notin> set (map msg_id (messages w @ p)) \<and>
    (\<forall>m \<in> set (messages w). \<forall>n \<in> set (messages w).
       plain (header m) \<and> plain (header n) \<and> ends (header m) = ends (header n) \<longrightarrow> m = n)"
proof -
  have inv: "msg_inv w p" by (rule msg_inv_reachable [OF assms])
  have "inj_on (ends \<circ> header) (set (filter (plain \<circ> header) (messages w)))"
    using inv unfolding msg_inv_def one_per_pair_def distinct_map by blast
  then have "\<forall>m \<in> set (messages w). \<forall>n \<in> set (messages w).
      plain (header m) \<and> plain (header n) \<and> ends (header m) = ends (header n) \<longrightarrow> m = n"
    by (auto simp: inj_on_def)
  moreover have "0 \<notin> set (map msg_id (messages w @ p))"
    using inv unfolding msg_inv_def by (metis (no_types, lifting) image_iff list.set_map)
  ultimately show ?thesis
    using inv by (simp add: msg_inv_def)
qed

definition sample_header :: msg_header where
  "sample_header = \<lparr>mh_valid = True, mh_id = 0, mh_reply_id = 0, mh_flags = 1, mh_source = 0,
     mh_from = 2, mh_to = 3, mh_type = 9, mh_length = 1, mh_critical = False, mh_recieved = False,
     mh_replied = False\<rparr>"

definition sample_sent :: msg_world where
  "sample_sent = msg_init\<lparr>idCounter := 1,
     messages := [make_message (sample_header\<lparr>mh_id := 1\<rparr>) [42]]\<rparr>"

lemma sample_send: "SendMessage (\<lambda>p. p < 10) sample_header [42] msg_init = Sent 1 sample_sent"
  by (subst SendMessage_queued)
    (simp_all add: sample_header_def sample_sent_def msg_init_def fresh_header_def accepts_def
      is_reply_def must_wait_def make_message_def)

lemma sample_sent_reachable: "msg_reachable bytes_of u (sample_sent, [])"
  using msg_step.Send [of msg_init "\<lambda>p. p < 10" sample_header "[42]" "Sent 1 sample_sent" bytes_of u "[]"]
  by (simp add: sample_send r_into_rtranclp) (simp add: room_def msg_init_def r_into_rtranclp)

theorem message_queue_invariant_witness:
  "distinct (map msg_id (messages sample_sent @ [])) \<and> 0 \<notin> set (map msg_id (messages sample_sent @ []))"
  using message_queue_invariant [OF sample_sent_reachable [of "\<lambda>_. []" 0]] by blast



text \<open>C8. Acknowledging a queued message takes exactly that message out of the queue, so that
  \<open>HasMessageBeenProcessed\<close> becomes true for it, and appends one receipt for each receipt
  subscription of its sender while the sender lives; nothing else is added or removed.\<close>

theorem acknowledge_removes_and_receipts:
  assumes "msg_inv w p" "HaveMessage (mh_id h) w" "room (length (subscribers w)) w"
  shows "\<exists>rs. messages (AcknowledgeMessage alive bytes_of u t pid st h w) =
      remove_first (\<lambda>m. msg_id m = mh_id h) (messages w) @ rs \<and>
    length rs = (if alive (mh_from h)
      then length (filter ((=) (mh_from h, MessageReceipt)) (subscribers w)) else 0) \<and>
    (\<forall>r \<in> set rs. mh_from (header r) = 0 \<and> mh_to (header r) = mh_from h \<and>
       mh_type (header r) = kernel_message_id MessageReceipt) \<and>
    (rs = [] \<longrightarrow> HasMessageBeenProcessed (mh_id h) (AcknowledgeMessage alive bytes_of u t pid st h w))"
proof -
  let ?w1 = "if cur_msg w pid = mh_id h then w\<lparr>cur_msg := (cur_msg w)(pid := 0)\<rparr> else w"
  let ?w2 = "RemoveMessage (mh_id h) ?w1"
  let ?w3 = "if st then ?w2\<lparr>msg_status := (msg_status ?w2)(t := Normal)\<rparr> else ?w2"
  have frame: "messages ?w3 = remove_first (\<lambda>m. msg_id m = mh_id h) (messages w)"
    "subscribers ?w3 = subscribers w"
    by (simp_all add: RemoveMessage_messages)
  have ack: "AcknowledgeMessage alive bytes_of u t pid st h w = SendMessageReciept alive bytes_of u h ?w3"
    using assms(2) by (simp add: AcknowledgeMessage_def Let_def)
  obtain rs where rs: "messages (SendMessageReciept alive bytes_of u h ?w3) = messages ?w3 @ rs"
    "length rs = (if alive (mh_from h)
      then length (filter ((=) (mh_from h, MessageReceipt)) (subscribers w)) else 0)"
    "\<forall>r \<in> set rs. mh_from (header r) = 0 \<and> mh_to (header r) = mh_from h \<and>
       mh_type (header r) = kernel_message_id MessageReceipt"
    using receipts_effect [of "mh_from h" alive u "of_nat (length (bytes_of (h\<lparr>mh_length := 0\<rparr>)))"
        "bytes_of (h\<lparr>mh_length := 0\<rparr>)" "subscribers w" ?w3]
    unfolding SendMessageReciept_def Let_def frame(2) by blast
  have "distinct (map msg_id (messages w))"
    using assms(1) by (simp add: msg_inv_def)
  then have "HasMessageBeenProcessed (mh_id h) (SendMessageReciept alive bytes_of u h ?w3)"
    if "rs = []"
    using that rs(1) frame(1) not_in_remove_first_distinct [of msg_id "messages w"]
    by (auto simp: HasMessageBeenProcessed_def HaveMessage_def msg_id_def)
  with rs show ?thesis unfolding ack frame(1) [symmetric] by blast
qed

theorem acknowledge_removes_and_receipts_witness:
  "HasMessageBeenProcessed 1 (AcknowledgeMessage (\<lambda>_. True) (\<lambda>_. []) 0 7 3 True
     (sample_header\<lparr>mh_id := 1\<rparr>) sample_sent)"
proof -
  have "msg_inv sample_sent []"
    by (rule msg_inv_reachable [OF sample_sent_reachable])
  moreover have "HaveMessage (mh_id (sample_header\<lparr>mh_id := 1\<rparr>)) sample_sent"
    "room (length (subscribers sample_sent)) sample_sent" "subscribers sample_sent = []"
    by (simp_all add: HaveMessage_def sample_sent_def msg_init_def make_message_def room_def)
  ultimately show ?thesis
    using acknowledge_removes_and_receipts
      [of sample_sent "[]" "sample_header\<lparr>mh_id := 1\<rparr>" "\<lambda>_. True" "\<lambda>_. []" 0 7 3 True]
    by auto
qed

text \<open>Clearing the messages of an ending process removes only the first of them: when two
  messages from or to the process are queued, the second is still there afterwards.\<close>

theorem clear_messages_leaves_rest:
  assumes "i < j" "j < length (messages w)"
    and "\<forall>k \<in> {i, j}. mh_to (header (messages w ! k)) = pid \<or> mh_from (header (messages w ! k)) = pid"
  shows "\<exists>m \<in> set (messages (ClearMessages alive bytes_of u pid w)).
    m = messages w ! j \<and> (mh_to (header m) = pid \<or> mh_from (header m) = pid)"
proof -
  let ?P = "\<lambda>m. mh_to (header m) = pid \<or> mh_from (header m) = pid"
  have "find_index ?P (messages w) \<noteq> None"
    unfolding find_index_ex_iff using assms by (meson insertI1 less_trans nth_mem)
  then obtain k where k: "find_index ?P (messages w) = Some k" by blast
  then have "k \<le> i"
    using find_index_SomeD [OF k] assms(3) by (metis insertI1 not_le)
  then have "messages w ! j = erase_at k (messages w) ! (j - 1)" "j - 1 < length (erase_at k (messages w))"
    using assms(1,2) by (auto simp: erase_at_nth)
  then have kept: "messages w ! j \<in> set (erase_at k (messages w))"
    by (metis nth_mem)
  let ?w = "w\<lparr>messages := erase_at k (messages w)\<rparr>"
  have "set (messages ?w) \<subseteq> set (messages (SendMessageReciept alive bytes_of u h ?w))" for h
    using receipts_effect [of "mh_from h" alive u "of_nat (length (bytes_of (h\<lparr>mh_length := 0\<rparr>)))"
        "bytes_of (h\<lparr>mh_length := 0\<rparr>)" "subscribers ?w" ?w]
    unfolding SendMessageReciept_def Let_def by auto
  then have "messages w ! j \<in> set (messages (clear_one_message alive bytes_of u pid w))"
    using kept k by (auto simp: clear_one_message_def Let_def)
  then have "messages w ! j \<in> set (messages (ClearMessages alive bytes_of u pid w))"
    by (simp add: ClearMessages_def clear_one_subscription_def split: option.split)
  with assms(3) show ?thesis by blast
qed

theorem clear_messages_leaves_rest_witness:
  "\<exists>m \<in> set (messages (ClearMessages (\<lambda>_. True) (\<lambda>_. []) 0 3
      (sample_sent\<lparr>messages := [make_message sample_header [1], make_message sample_header [2]]\<rparr>))).
    content m = Some [2]"
  using clear_messages_leaves_rest [of 0 1
      "sample_sent\<lparr>messages := [make_message sample_header [1], make_message sample_header [2]]\<rparr>" 3
      "\<lambda>_. True" "\<lambda>_. []" 0]
  by (force simp: make_message_def sample_header_def)

text \<open>Replies go only to the sender of the message replied to, and only from its receiver. The
  mark that a message has been replied to is never set: a reply that was accepted can be sent
  again and is queued again.\<close>

theorem reply_checked_but_repeatable:
  assumes "is_reply h" "alive (mh_to h)" "SendMessage alive h body w = Sent i w'"
  shows "\<exists>orig w''. GetMessage (mh_reply_id h) w = Some orig \<and>
    mh_to (header orig) = mh_from h \<and> mh_from (header orig) = mh_to h \<and>
    SendMessage alive h body w' = Sent (i + 1) w''"
proof -
  have acc: "accepts alive (fresh_header h) w"
    using assms(3) by (auto simp: SendMessage_def Let_def make_message_def split: if_splits)
  have reply: "is_reply (fresh_header h)"
    using assms(1) by (simp add: is_reply_def fresh_header_def)
  have nowait: "\<not> must_wait (fresh_header h) v" for v
    using reply by (simp add: must_wait_def)
  have alive: "alive (mh_to (fresh_header h))" using assms(2) by (simp add: fresh_header_def)
  have w': "i = idCounter w + 1" "w' = w\<lparr>idCounter := idCounter w + 1,
      messages := messages w @ [make_message ((fresh_header h)\<lparr>mh_id := idCounter w + 1\<rparr>) body]\<rparr>"
    using assms(3) SendMessage_queued [OF acc assms(2) nowait] by auto
  obtain orig where orig: "GetMessage (mh_reply_id (fresh_header h)) w = Some orig"
    "mh_to (header orig) = mh_from (fresh_header h)" "mh_from (header orig) = mh_to (fresh_header h)"
    "\<not> mh_replied (header orig)"
    using acc reply alive by (auto simp: accepts_def split: option.splits if_splits)
  then have "GetMessage (mh_reply_id (fresh_header h)) w' = Some orig"
    unfolding w'(2) GetMessage_def by (simp add: find_append_old)
  then have "accepts alive (fresh_header h) w'"
    using orig alive reply by (simp add: accepts_def)
  from SendMessage_queued [OF this assms(2) nowait] orig w' show ?thesis
    by (simp add: fresh_header_def)
qed

theorem reply_checked_but_repeatable_witness:
  "\<exists>w' w''. SendMessage (\<lambda>_. True) (sample_header\<lparr>mh_flags := 2, mh_reply_id := 1, mh_from := 3, mh_to := 2\<rparr>)
      [1] sample_sent = Sent 2 w' \<and>
    SendMessage (\<lambda>_. True) (sample_header\<lparr>mh_flags := 2, mh_reply_id := 1, mh_from := 3, mh_to := 2\<rparr>)
      [1] w' = Sent 3 w''"
proof -
  let ?h = "sample_header\<lparr>mh_flags := 2, mh_reply_id := 1, mh_from := 3, mh_to := 2\<rparr>"
  have "accepts (\<lambda>_. True) (fresh_header ?h) sample_sent"
    by (simp add: accepts_def is_reply_def fresh_header_def GetMessage_def sample_sent_def
        make_message_def sample_header_def)
  moreover have "\<not> must_wait (fresh_header ?h) sample_sent"
    by (simp add: must_wait_def is_reply_def fresh_header_def)
  ultimately obtain w' where w': "SendMessage (\<lambda>_. True) ?h [1] sample_sent = Sent 2 w'"
    using SendMessage_queued [of "\<lambda>_. True" ?h sample_sent "[1]"] by (simp add: sample_sent_def)
  have "is_reply ?h" by (simp add: is_reply_def)
  from reply_checked_but_repeatable [OF this _ w'] w' show ?thesis by auto
qed

text \<open>A message's bytes do not depend on the pooled buffer they are stored in: whatever buffer is
  reused, after filling it holds exactly the bytes sent.\<close>

theorem content_independent_of_pool:
  assumes "\<And>n. heap n" "\<forall>v \<in> set pool. vec_size v < 2 ^ 32"
  shows "\<exists>v pool'. FillContent heap pool body = Inr (v, pool') \<and> vdata v = body"
proof -
  obtain b pool' where b: "NewContentBuffer heap pool = Inr (b, pool')" "vec_size b < 2 ^ 32"
  proof (cases "pool = []")
    case True
    then show ?thesis
      using that assms(1) by (simp add: NewContentBuffer_def vec_new_def vec_reserve_def vec_size_def)
  next
    case False
    then show ?thesis
      using that [of "last pool" "butlast pool"] assms(2) by (simp add: NewContentBuffer_def)
  qed
  obtain r where r: "vec_resize heap 0 b (length body) = Inr r"
    "vdata r = take (length body) (vdata b) @ replicate (length body - vec_size b) 0"
    using vec_resize_ok [of "length body" b heap 0] assms(1) b(2) by blast
  have "length (vdata r) = length body"
    using r(2) by (simp add: vec_size_def)
  with b r show ?thesis by (simp add: FillContent_def)
qed

theorem content_independent_of_pool_witness:
  "\<exists>v pool'. FillContent (\<lambda>_. True) [\<lparr>vdata = [1, 2, 3, 4], reserved = 10\<rparr>] [9, 8] = Inr (v, pool') \<and>
     vdata v = [9, 8]"
  using content_independent_of_pool [of "\<lambda>_. True" "[\<lparr>vdata = [1, 2, 3, 4], reserved = 10\<rparr>]" "[9, 8]"]
  by (simp add: vec_size_def)

end
