(* ===== verification/Registries.thy ===== *)
theory Registries
  imports Ministl Kstring
begin

text \<open>
  The kernel's small registries, all of them clients of the \<open>map\<close> and \<open>vector\<close> containers:
  configuration variables (src/src/kernel/kvars.cpp), visible devices (devices.cpp), kernel
  extensions (extensions.cpp) and loaded modules (modules.cpp). Each method takes the
  registry's lock for its whole body, so it is modelled as one step on the registry; the
  lemmas come from the interface \<open>key_store\<close> through its interpretation on the map.
\<close>

section \<open>Configuration variables\<close>

type_synonym kvars = "(string, string) kmap"

(* src/src/kernel/kvars.cpp:17-20 KernelConfigVariables::SetVariable *)
definition SetVariable :: "kvars \<Rightarrow> string \<Rightarrow> string \<Rightarrow> kvars" where
  "SetVariable vars name v = map_assign_raw [] vars name v"

text \<open>\<open>variables[name]\<close> inserts an empty string for a name that is not set.\<close>

(* src/src/kernel/kvars.cpp:22-25 KernelConfigVariables::GetVariable *)
definition GetVariable :: "kvars \<Rightarrow> string \<Rightarrow> string \<times> kvars" where
  "GetVariable vars name = map_index [] vars name"

(* src/src/kernel/kvars.cpp:27-30 KernelConfigVariables::IsVariableSet *)
definition IsVariableSet :: "kvars \<Rightarrow> string \<Rightarrow> bool" where
  "IsVariableSet vars name = map_has_key vars name"

(* src/src/kernel/kvars.cpp:43-50 KernelConfigVariables::InfoFS *)
definition kvars_infofs :: "kvars \<Rightarrow> string" where
  "kvars_infofs vars =
     ''# name, value'' @ [CHR 0x0A] @
     concat (map (\<lambda>(n, v). [CHR 0x22] @ n @ [CHR 0x22] @ '', '' @ [CHR 0x22] @ v @ [CHR 0x22, CHR 0x0A])
       (m_data vars))"

section \<open>Visible devices\<close>

type_synonym 'd visible_devices = "(string, 'd) kmap"

text \<open>The search for an unused name: the first suffix that is free.\<close>

(* src/src/kernel/devices.cpp:16-18 VisibleDeviceManager::AddVisibleDevice *)
partial_function (option) free_name ::
  "'d visible_devices \<Rightarrow> string \<Rightarrow> int \<Rightarrow> string result option" where
  "free_name devices name counter =
     (case itoa counter 10 of
        Inl e \<Rightarrow> Some (Inl e)
      | Inr s \<Rightarrow>
          if map_has_key devices (name @ s)
          then (if counter = 2 ^ 31 - 1 then Some (Inl Undefined)
                else free_name devices name (counter + 1))
          else Some (Inr (name @ s)))"

text \<open>The device is told its final name, which is the first component of the result.\<close>

(* src/src/kernel/devices.cpp:13-21 VisibleDeviceManager::AddVisibleDevice *)
definition AddVisibleDevice ::
  "'d visible_devices \<Rightarrow> string \<Rightarrow> 'd \<Rightarrow> (string \<times> 'd visible_devices) result option" where
  "AddVisibleDevice devices given device =
     map_option (\<lambda>r. bind_result r (\<lambda>finalName. Inr (finalName, map_assign devices finalName device)))
       (free_name devices (to_upper given) 0)"

(* src/src/kernel/devices.cpp:23-27 VisibleDeviceManager::GetVisibleDevice *)
definition GetVisibleDevice :: "'d visible_devices \<Rightarrow> string \<Rightarrow> 'd option" where
  "GetVisibleDevice devices name =
     (if map_has_key devices name then map_lookup devices name else None)"

text \<open>The iterator is the name of the current device, empty at the end.\<close>

(* src/src/kernel/devices.cpp:46-58 VisibleDeviceIterator::Increment *)
fun iter_next :: "(string \<times> 'd) list \<Rightarrow> bool \<Rightarrow> string \<Rightarrow> string" where
  "iter_next [] found index = []"
| "iter_next (e # es) found index =
     (if found then fst e else iter_next es (fst e = index) index)"

(* src/src/kernel/devices.cpp:46-58 VisibleDeviceIterator::Increment *)
definition IteratorIncrement :: "'d visible_devices \<Rightarrow> string \<Rightarrow> string" where
  "IteratorIncrement devices index =
     (if index = [] then index else iter_next (m_data devices) False index)"

(* src/src/kernel/devices.cpp:66-75 VisibleDeviceIterator::Decrement *)
fun iter_prev :: "(string \<times> 'd) list \<Rightarrow> string \<Rightarrow> string \<Rightarrow> string" where
  "iter_prev [] prev index = index"
| "iter_prev (e # es) prev index = (if fst e = index then prev else iter_prev es (fst e) index)"

(* src/src/kernel/devices.cpp:60-76 VisibleDeviceIterator::Decrement *)
definition IteratorDecrement :: "'d visible_devices \<Rightarrow> string \<Rightarrow> string result" where
  "IteratorDecrement devices index =
     (case m_data devices of
        [] \<Rightarrow> Inl Undefined
      | e # es \<Rightarrow>
          if index = [] then Inr (fst (last (m_data devices)))
          else Inr (iter_prev (m_data devices) (fst e) index))"

(* src/src/kernel/devices.cpp:41-44 VisibleDeviceIterator::Get *)
definition IteratorGet :: "'d visible_devices \<Rightarrow> string \<Rightarrow> 'd result" where
  "IteratorGet devices index =
     (case map_lookup devices index of Some d \<Rightarrow> Inr d | None \<Rightarrow> Inl Undefined)"

text \<open>The first device is read without asking whether there is one.\<close>

(* src/src/kernel/devices.cpp:89-91 VisibleDeviceManager::begin *)
definition devices_begin :: "'d visible_devices \<Rightarrow> string result" where
  "devices_begin devices =
     (case m_data devices of [] \<Rightarrow> Inl Undefined | e # es \<Rightarrow> Inr (fst e))"

text \<open>A \<open>for\<close> loop over the devices: the names visited until the iterator equals the end.\<close>

(* src/src/kernel/devices.cpp:106-112 Devices_InfoFS *)
fun visit_devices :: "nat \<Rightarrow> 'd visible_devices \<Rightarrow> string \<Rightarrow> string list" where
  "visit_devices 0 devices index = []"
| "visit_devices (Suc n) devices index =
     (if index = [] then [] else index # visit_devices n devices (IteratorIncrement devices index))"

section \<open>Kernel extensions\<close>

type_synonym 'e extensions = "(u16, 'e) kmap"

(* src/src/kernel/extensions.cpp:25-26 KernelExensionManager::AddExtension *)
partial_function (option) free_extension_id :: "'e extensions \<Rightarrow> u16 \<Rightarrow> u16 option" where
  "free_extension_id exts ret =
     (if map_has_key exts ret then free_extension_id exts (ret + 1) else Some ret)"

(* src/src/kernel/extensions.cpp:24-29 KernelExensionManager::AddExtension *)
definition AddExtension :: "'e extensions \<Rightarrow> 'e \<Rightarrow> (u16 \<times> 'e extensions) option" where
  "AddExtension exts ext =
     map_option (\<lambda>ret. (ret, map_assign exts ret ext)) (free_extension_id exts 1)"

(* src/src/kernel/extensions.cpp:31-34 KernelExensionManager::GetExtension *)
definition GetExtension :: "'e extensions \<Rightarrow> u16 \<Rightarrow> 'e option" where
  "GetExtension exts i = (if map_has_key exts i then map_lookup exts i else None)"

(* src/src/kernel/extensions.cpp:36-41 KernelExensionManager::GetExtensionID *)
definition GetExtensionID :: "('e \<Rightarrow> string) \<Rightarrow> 'e extensions \<Rightarrow> string \<Rightarrow> u16" where
  "GetExtensionID name_of exts name =
     (case List.find (\<lambda>e. name_of (snd e) = name) (m_data exts) of Some e \<Rightarrow> fst e | None \<Rightarrow> 0)"

text \<open>\<open>handler\<close> is the extension's own handler on the processor state \<open>'s\<close>, and \<open>set_a\<close> writes
  the accumulator register.\<close>

(* src/src/kernel/extensions.cpp:43-50 KernelExensionManager::ExtensionUserCall *)
definition ExtensionUserCall ::
  "('e \<Rightarrow> u16 \<Rightarrow> 's \<Rightarrow> 's) \<Rightarrow> (u32 \<Rightarrow> 's \<Rightarrow> 's) \<Rightarrow> 'e extensions \<Rightarrow> u16 \<Rightarrow> u16 \<Rightarrow> 's \<Rightarrow> 's" where
  "ExtensionUserCall handler set_a exts i fn state =
     (case map_lookup exts i of Some e \<Rightarrow> handler e fn state | None \<Rightarrow> set_a (- 1) state)"

section \<open>Modules\<close>

(* src/src/kernel/modules.cpp:9-14 ModuleManager::Module *)
record ('f, 'e) kmodule =
  mod_filename :: string
  mod_params :: string
  mod_elf :: 'e
  mod_file :: 'f

text \<open>\<open>open_file\<close> finds the node of a path and opens it for reading, \<open>load_elf\<close> is the ELF loader.
  The result says whether the module's entry point is executed.\<close>

(* src/src/kernel/modules.cpp:25-49 ModuleManager::LoadModule *)
definition LoadModule ::
  "(string \<Rightarrow> 'f option) \<Rightarrow> ('f \<Rightarrow> 'e) \<Rightarrow> ('f, 'e) kmodule list \<Rightarrow> string \<Rightarrow> string option \<Rightarrow>
   'e option \<times> ('f, 'e) kmodule list" where
  "LoadModule open_file load_elf modules path params =
     (if \<exists>m \<in> set modules. to_upper (mod_filename m) = to_upper path then (None, modules)
      else case open_file path of
             None \<Rightarrow> (None, modules)
           | Some file \<Rightarrow>
               (let m = \<lparr>mod_filename = path, mod_params = (case params of Some p \<Rightarrow> p | None \<Rightarrow> []),
                         mod_elf = load_elf file, mod_file = file\<rparr>
                in (Some (mod_elf m), modules @ [m])))"

section \<open>Searching a free key\<close>

text \<open>Both searches count a key up until it is unused. With more candidates than entries one of
  them is free, so the searches return before the counter overflows.\<close>

lemma some_key_free:
  assumes inj: "inj_on f {0..n}" and small: "map_size m \<le> n"
  shows "\<exists>i \<le> n. \<not> map_has_key m (f i)"
proof (rule ccontr)
  assume "\<not> ?thesis"
  then have "f ` {0..n} \<subseteq> dom (map_lookup m)"
    by (auto simp: map_has_key_iff)
  then have "card (f ` {0..n}) \<le> card (dom (map_lookup m))"
    by (intro card_mono) (simp_all add: kernel_map.finite_look)
  then have "Suc n \<le> card (dom (map_lookup m))"
    using card_image [OF inj] by simp
  with card_dom_map_lookup [of m] small show False by simp
qed

lemma first_key_free:
  assumes "inj_on f {0..n}" "map_size m \<le> n"
  obtains i where "i \<le> n" "\<not> map_has_key m (f i)" "\<And>j. j < i \<Longrightarrow> map_has_key m (f j)"
proof -
  let ?P = "\<lambda>i. \<not> map_has_key m (f i)"
  obtain k where k: "k \<le> n" "?P k" using some_key_free [OF assms] by blast
  show ?thesis
  proof (rule that [of "LEAST i. ?P i"])
    show "(LEAST i. ?P i) \<le> n"
      using Least_le [of ?P k] k by linarith
    show "?P (LEAST i. ?P i)"
      by (rule LeastI [of ?P k]) (rule k(2))
    show "map_has_key m (f j)" if "j < (LEAST i. ?P i)" for j
      using not_less_Least [OF that] by simp
  qed
qed

definition decimal :: "nat \<Rightarrow> string" where
  "decimal n = (case itoa (int n) 10 of Inr s \<Rightarrow> s | Inl e \<Rightarrow> [])"

lemma itoa_decimal_nat: "itoa (int n) 10 = Inr (decimal n)"
  using itoa_decimal [of "int n"] by (simp add: decimal_def)

lemma decimal_inj: "decimal m = decimal n \<Longrightarrow> m = n"
  using itoa_decimal_inj [of "int m" "int n"] by (simp add: itoa_decimal_nat)

lemma free_name_found:
  assumes "\<not> map_has_key devices (name @ decimal (c + n))"
    and "\<And>j. j < n \<Longrightarrow> map_has_key devices (name @ decimal (c + j))"
    and "c + n < 2 ^ 31"
  shows "free_name devices name (int c) = Some (Inr (name @ decimal (c + n)))"
  using assms
proof (induction n arbitrary: c)
  case 0
  then show ?case by (simp add: free_name.simps [of devices name] itoa_decimal_nat)
next
  case (Suc n)
  have "map_has_key devices (name @ decimal c)"
    using Suc.prems(2) [of 0] by simp
  moreover have "free_name devices name (int (Suc c)) = Some (Inr (name @ decimal (Suc c + n)))"
  proof (rule Suc.IH)
    show "map_has_key devices (name @ decimal (Suc c + j))" if "j < n" for j
      using Suc.prems(2) [of "Suc j"] that by simp
  qed (use Suc.prems in simp_all)
  ultimately show ?case
    using Suc.prems(3)
    by (subst free_name.simps) (simp add: itoa_decimal_nat add.commute)
qed

lemma free_name_returns:
  assumes "map_size devices < 2 ^ 31"
  obtains i where "free_name devices name 0 = Some (Inr (name @ decimal i))"
    "\<not> map_has_key devices (name @ decimal i)"
    "\<And>j. j < i \<Longrightarrow> map_has_key devices (name @ decimal j)"
proof -
  have "inj_on (\<lambda>i. name @ decimal i) {0..map_size devices}"
    by (auto intro!: inj_onI dest: decimal_inj)
  then obtain i where i: "i \<le> map_size devices" "\<not> map_has_key devices (name @ decimal i)"
    "\<And>j. j < i \<Longrightarrow> map_has_key devices (name @ decimal j)"
    by (rule first_key_free) auto
  have "free_name devices name (int 0) = Some (Inr (name @ decimal (0 + i)))"
    using i assms by (intro free_name_found) auto
  with i show ?thesis by (intro that [of i]) simp_all
qed

lemma free_extension_id_found:
  assumes "\<not> map_has_key exts (ret + of_nat n)"
    and "\<And>j. j < n \<Longrightarrow> map_has_key exts (ret + of_nat j)"
  shows "free_extension_id exts ret = Some (ret + of_nat n)"
  using assms
proof (induction n arbitrary: ret)
  case 0
  then show ?case by (simp add: free_extension_id.simps [of exts ret])
next
  case (Suc n)
  have "map_has_key exts ret"
    using Suc.prems(2) [of 0] by simp
  moreover have "free_extension_id exts (ret + 1) = Some (ret + 1 + of_nat n)"
  proof (rule Suc.IH)
    show "map_has_key exts (ret + 1 + of_nat j)" if "j < n" for j
      using Suc.prems(2) [of "Suc j"] that by (simp add: algebra_simps)
  qed (use Suc.prems(1) in \<open>simp add: algebra_simps\<close>)
  ultimately show ?case
    by (subst free_extension_id.simps) (simp add: algebra_simps)
qed

lemma free_extension_id_returns:
  assumes "map_size exts < 2 ^ 16 - 1"
  obtains ret where "free_extension_id exts 1 = Some ret" "ret \<noteq> 0" "\<not> map_has_key exts ret"
proof -
  let ?f = "\<lambda>i. 1 + of_nat i :: u16"
  have bound: "unat (?f i) = Suc i" if "i \<le> map_size exts" for i
    using that assms by (simp add: unat_word_ariths)
  have "inj_on ?f {0..map_size exts}"
    by (rule inj_onI) (metis atLeastAtMost_iff bound nat.inject)
  then obtain i where i: "i \<le> map_size exts" "\<not> map_has_key exts (?f i)"
    "\<And>j. j < i \<Longrightarrow> map_has_key exts (?f j)"
    by (rule first_key_free) auto
  moreover have "?f i \<noteq> 0"
    using bound [OF i(1)] by (metis nat.distinct(1) unat_0)
  ultimately show ?thesis
    using free_extension_id_found [of exts 1 i] by (intro that [of "?f i"]) auto
qed

section \<open>Iteration\<close>

lemma iter_next_after:
  "distinct (map fst (xs @ e # ys)) \<Longrightarrow>
   iter_next (xs @ e # ys) False (fst e) = (case ys of [] \<Rightarrow> [] | y # _ \<Rightarrow> fst y)"
proof (induction xs)
  case Nil
  then show ?case by (cases ys) auto
next
  case (Cons x xs)
  then show ?case by auto
qed

lemma visit_devices_from:
  assumes "m_data devices = xs @ ys" "distinct (map fst (m_data devices))"
    and "[] \<notin> fst ` set (m_data devices)" "length ys \<le> n"
  shows "visit_devices n devices (case ys of [] \<Rightarrow> [] | y # _ \<Rightarrow> fst y) = map fst ys"
  using assms
proof (induction ys arbitrary: xs n)
  case Nil
  then show ?case by (cases n) simp_all
next
  case (Cons y ys)
  then obtain n' where n: "n = Suc n'" "length ys \<le> n'" by (cases n) auto
  have y: "fst y \<noteq> []" using Cons.prems(1,3) by auto
  have "IteratorIncrement devices (fst y) = (case ys of [] \<Rightarrow> [] | z # _ \<Rightarrow> fst z)"
    using Cons.prems(1,2) y iter_next_after [of xs y ys] by (simp add: IteratorIncrement_def)
  moreover have "visit_devices n' devices (case ys of [] \<Rightarrow> [] | z # _ \<Rightarrow> fst z) = map fst ys"
    using Cons.prems n by (intro Cons.IH [of "xs @ [y]"]) simp_all
  ultimately show ?case using y n by simp
qed

section \<open>Properties\<close>

text \<open>A configuration variable that was set is read back, setting one variable leaves the others
  alone, and reading a variable that is not set gives the empty string but records the name as
  set from then on.\<close>

theorem kvars_read_registers:
  "fst (GetVariable (SetVariable vars name v) name') =
     (if name' = name then v else fst (GetVariable vars name')) \<and>
   fst (GetVariable vars name) = (case map_lookup vars name of Some x \<Rightarrow> x | None \<Rightarrow> []) \<and>
   IsVariableSet (snd (GetVariable vars name)) name"
  by (auto simp: GetVariable_def SetVariable_def IsVariableSet_def map_index_eq kmap_simps
      map_has_key_iff map_lookup_insert split: option.split)

text \<open>Adding a visible device always finds a name for it: the upper-cased name given, followed by
  the smallest number that makes it unused. The device is then found under that name, every
  device registered before is still found under its own, and the registry stays well formed.\<close>

theorem add_visible_device_fresh:
  assumes "map_size devices < 2 ^ 31" "map_ok devices"
  shows "\<exists>i d'. AddVisibleDevice devices given dev =
      Some (Inr (to_upper given @ decimal i, d')) \<and>
    GetVisibleDevice devices (to_upper given @ decimal i) = None \<and>
    (\<forall>j < i. GetVisibleDevice devices (to_upper given @ decimal j) \<noteq> None) \<and>
    GetVisibleDevice d' (to_upper given @ decimal i) = Some dev \<and>
    (\<forall>name. name \<noteq> to_upper given @ decimal i \<longrightarrow>
       GetVisibleDevice d' name = GetVisibleDevice devices name) \<and> map_ok d'"
proof -
  obtain i where i: "free_name devices (to_upper given) 0 = Some (Inr (to_upper given @ decimal i))"
    "\<not> map_has_key devices (to_upper given @ decimal i)"
    "\<And>j. j < i \<Longrightarrow> map_has_key devices (to_upper given @ decimal j)"
    using free_name_returns [OF assms(1)] by blast
  have get: "GetVisibleDevice m name = map_lookup m name" for m :: "('a) visible_devices" and name
    by (simp add: GetVisibleDevice_def map_has_key_iff)
  show ?thesis
    using i assms(2)
    by (intro exI [of _ i] exI [of _ "map_assign devices (to_upper given @ decimal i) dev"])
      (simp add: AddVisibleDevice_def get kmap_simps map_has_key_iff)
qed

theorem add_visible_device_fresh_witness:
  "\<exists>i d'. AddVisibleDevice (map_assign map_new ''ATA0'' (7 :: nat)) ''ata'' 8 =
     Some (Inr (''ATA'' @ decimal i, d')) \<and> GetVisibleDevice d' (''ATA'' @ decimal i) = Some 8"
proof -
  have upper: "to_upper ''ata'' = ''ATA''"
    by code_simp
  have size: "map_size (map_assign map_new ''ATA0'' (7 :: nat)) < 2 ^ 31"
    by (simp add: map_assign_def map_new_def map_insert_def map_has_key_def map_size_def
        map_growth_factor_def)
  have "map_ok (map_assign map_new ''ATA0'' (7 :: nat))" by simp
  from add_visible_device_fresh [OF size this, of "''ata''" 8, unfolded upper]
  show ?thesis
    by (elim exE conjE) (intro exI conjI, assumption+)
qed

text \<open>Iterating over the visible devices from the first one visits every device exactly once, in
  the order in which they were added, and ends.\<close>

theorem device_iteration_complete:
  assumes "map_ok devices" "[] \<notin> fst ` set (m_data devices)" "m_data devices \<noteq> []"
  shows "\<exists>index. devices_begin devices = Inr index \<and>
    visit_devices (map_size devices) devices index = map fst (m_data devices) \<and>
    visit_devices (map_size devices + n) devices index = map fst (m_data devices)"
proof -
  obtain e es where e: "m_data devices = e # es" using assms(3) by (cases "m_data devices") auto
  show ?thesis
    using visit_devices_from [of devices "[]" "e # es"] e assms(1,2)
    by (simp add: devices_begin_def map_ok_def map_size_def del: visit_devices.simps)
qed

theorem device_iteration_complete_witness:
  "\<exists>index. devices_begin \<lparr>m_data = [(''A0'', 1 :: nat), (''B0'', 2)], m_capacity = 64\<rparr> = Inr index \<and>
     visit_devices 2 \<lparr>m_data = [(''A0'', 1 :: nat), (''B0'', 2)], m_capacity = 64\<rparr> index = [''A0'', ''B0'']"
  using device_iteration_complete
    [of "\<lparr>m_data = [(''A0'', 1 :: nat), (''B0'', 2)], m_capacity = 64\<rparr>" 0]
  by (simp add: map_ok_def map_size_def numeral_2_eq_2 del: visit_devices.simps)

text \<open>While fewer than 65535 extensions are registered, adding one returns: the id it gets is not
  zero, was not in use, leads to the new extension, and all other ids lead where they led before.\<close>

theorem add_extension_fresh:
  assumes "map_size exts < 2 ^ 16 - 1" "map_ok exts"
  shows "\<exists>i exts'. AddExtension exts ext = Some (i, exts') \<and> i \<noteq> 0 \<and>
    GetExtension exts i = None \<and> GetExtension exts' i = Some ext \<and>
    (\<forall>j. j \<noteq> i \<longrightarrow> GetExtension exts' j = GetExtension exts j) \<and> map_ok exts'"
proof -
  obtain i where i: "free_extension_id exts 1 = Some i" "i \<noteq> 0" "\<not> map_has_key exts i"
    using free_extension_id_returns [OF assms(1)] by blast
  then show ?thesis
    using assms(2) by (simp add: AddExtension_def GetExtension_def kmap_simps map_has_key_iff)
qed

theorem add_extension_fresh_witness:
  "\<exists>i exts'. AddExtension map_new ''GDI'' = Some (i, exts') \<and> GetExtension exts' i = Some ''GDI''"
  using add_extension_fresh [of map_new "''GDI''"] by auto

text \<open>No file is loaded as a module twice, whatever the case of the letters in which its path is
  spelled.\<close>

theorem modules_loaded_once:
  assumes "distinct (map (to_upper \<circ> mod_filename) modules)"
  shows "distinct (map (to_upper \<circ> mod_filename)
    (snd (LoadModule open_file load_elf modules path params)))"
  using assms by (auto simp: LoadModule_def Let_def split: option.split)

theorem modules_loaded_once_witness:
  "distinct (map (to_upper \<circ> mod_filename)
     (snd (LoadModule (\<lambda>p. Some p) id
        [\<lparr>mod_filename = ''a'', mod_params = [], mod_elf = ''e'', mod_file = ''f''\<rparr>] ''b'' None)))"
  using modules_loaded_once
    [of "[\<lparr>mod_filename = ''a'', mod_params = [], mod_elf = ''e'', mod_file = ''f''\<rparr>]"
      "\<lambda>p. Some p" id "''b''" None]
  by simp

end
