(* ===== verification/Scheduler.thy ===== *)
theory Scheduler
  imports Locks
begin

text \<open>
  Threads and the scheduler, src/src/kernel/scheduler/impl/thread.cpp and scheduler.cpp.

  A pointer to a thread is the thread's id, which is unique; the vector \<open>threads\<close> is the list of
  thread records, and the \<open>next\<close> pointers, which chain the threads of a scheduling cycle, are the
  function \<open>next_of\<close>. The scheduler's own lock is a lock of the theory Locks together with the
  lock counts of the threads. A thread's block check is a function object: the record says
  whether there is one, and the parameter \<open>chk\<close> says what it answers when it is called.

  The lemmas show that planning a cycle never panics and chains exactly the runnable threads of
  least dynamic priority, that scheduling always returns and picks a thread that may run, that
  stopping and resuming a process for debugging are inverse, and that the reaper removes exactly
  the ended threads nobody refers to and keeps the chain intact.
\<close>

section \<open>Threads\<close>

(* src/src/include/module/kernelsys/scheduler.hpp:19-26 ThreadStatus *)
datatype thread_status = Runnable | Blocked | DebugStopped | DebugBlocked | Ending | Special

(* src/src/kernel/scheduler/impl/thread.hpp:9-51 Thread *)
record thread =
  t_id :: u64
  t_pid :: u64
  t_status :: thread_status
  stackToken :: u64
  stackPages :: nat
  staticPriority :: u32
  dynamicPriority :: u32
  loadModifier :: u32
  blockCheck :: bool
  userAbort :: bool
  t_hold :: bool
  yieldPending :: bool
  scheduleCycle :: u32
  refCount :: u32
  awaitingDestruction :: bool
  t_name :: string

(* src/src/kernel/scheduler/impl/thread.hpp:7-49 Thread *)
definition thread_default :: thread where
  "thread_default =
     \<lparr>t_id = 0, t_pid = 0, t_status = Runnable, stackToken = 0, stackPages = 0,
      staticPriority = 10, dynamicPriority = 0, loadModifier = 0, blockCheck = False,
      userAbort = False, t_hold = False, yieldPending = False, scheduleCycle = 0, refCount = 0,
      awaitingDestruction = False, t_name = []\<rparr>"

text \<open>A new thread gets its stack, rounded up to whole pages; the token of the prepared stack is
  made by the hardware layer.\<close>

(* src/src/kernel/scheduler/impl/thread.cpp:16-36 Thread::Thread *)
definition thread_new :: "u64 \<Rightarrow> nat \<Rightarrow> thread" where
  "thread_new token stackSize =
     (let pages = stackSize div 4096;
          pages' = (if pages * 4096 < stackSize then pages + 1 else pages)
      in thread_default\<lparr>stackPages := pages', stackToken := token\<rparr>)"

(* src/src/kernel/scheduler/impl/thread.cpp:42-50 Thread::CheckStatus *)
definition CheckStatus :: "(u64 \<Rightarrow> bool) \<Rightarrow> thread \<Rightarrow> thread" where
  "CheckStatus chk t =
     (if t_status t = Blocked \<and> blockCheck t \<and> chk (t_id t)
      then t\<lparr>t_status := Runnable, blockCheck := False\<rparr> else t)"

text \<open>The part of \<open>Block\<close> that changes the thread.\<close>

(* src/src/kernel/scheduler/impl/thread.cpp:86-94 Thread::Block *)
definition block_status :: "thread \<Rightarrow> thread" where
  "block_status t =
     (case t_status t of
        Runnable \<Rightarrow> t\<lparr>t_status := Blocked\<rparr>
      | DebugStopped \<Rightarrow> t\<lparr>t_status := DebugBlocked\<rparr>
      | _ \<Rightarrow> t)"

(* src/src/kernel/scheduler/impl/thread.cpp:108-125 Thread::Unblock *)
definition Unblock :: "(u64 \<Rightarrow> bool) \<Rightarrow> thread \<Rightarrow> thread" where
  "Unblock chk t =
     (case t_status t of
        Blocked \<Rightarrow>
          if blockCheck t
          then (if chk (t_id t) then t\<lparr>t_status := Runnable, blockCheck := False\<rparr> else t)
          else t\<lparr>t_status := Runnable\<rparr>
      | DebugBlocked \<Rightarrow> if \<not> blockCheck t then t\<lparr>t_status := DebugStopped\<rparr> else t
      | _ \<Rightarrow> t)"

(* src/src/kernel/scheduler/impl/thread.cpp:152-155 Thread::ClearBlock *)
definition ClearBlock :: "(u64 \<Rightarrow> bool) \<Rightarrow> thread \<Rightarrow> thread" where
  "ClearBlock chk t = Unblock chk (t\<lparr>blockCheck := False\<rparr>)"

(* src/src/kernel/scheduler/impl/thread.cpp:127-129 Thread::SetPriority *)
definition SetPriority :: "u32 \<Rightarrow> thread \<Rightarrow> thread" where
  "SetPriority p t = t\<lparr>staticPriority := p\<rparr>"

(* src/src/kernel/scheduler/impl/thread.cpp:131-133 Thread::SetPID *)
definition SetPID :: "u64 \<Rightarrow> thread \<Rightarrow> thread" where
  "SetPID p t = t\<lparr>t_pid := p\<rparr>"

(* src/src/kernel/scheduler/impl/thread.cpp:171-173 Thread::Abort *)
definition thread_Abort :: "thread \<Rightarrow> thread" where
  "thread_Abort t = t\<lparr>userAbort := True\<rparr>"

text \<open>The condition that ends an abortable block, and its result: whether the thread was not
  aborted.\<close>

(* src/src/kernel/scheduler/impl/thread.cpp:145-150 Thread::SetAbortableBlock *)
definition AbortableCheck :: "bool \<Rightarrow> thread \<Rightarrow> bool" where
  "AbortableCheck fn t \<longleftrightarrow> userAbort t \<or> fn"

(* src/src/kernel/scheduler/impl/thread.cpp:145-150 Thread::SetAbortableBlock *)
definition AbortableResult :: "thread \<Rightarrow> bool" where
  "AbortableResult t \<longleftrightarrow> \<not> userAbort t"

(* src/src/kernel/scheduler/impl/thread.cpp:213-217 Thread::IncrementRefCount *)
definition IncrementRefCount :: "thread \<Rightarrow> thread result" where
  "IncrementRefCount t =
     (let c = refCount t + 1
      in if c > 0x7FFFFFFF then Inl (Panic ''(SCH) Thread refcount implausible!'')
         else Inr (t\<lparr>refCount := c\<rparr>))"

section \<open>The scheduler's state\<close>

(* src/src/kernel/scheduler/impl/scheduler.hpp:12-23 Scheduler *)
record scheduler =
  threads :: "thread list"
  next_of :: "u64 \<Rightarrow> u64 option"
  current :: u64
  sch_idCounter :: u64
  scheduleCyle :: u32
  yieldSchedule :: bool
  sch_lock :: lock_world
  idleThread :: u64
  reaperThread :: u64

definition find_thread :: "u64 \<Rightarrow> thread list \<Rightarrow> thread option" where
  "find_thread i ts = List.find (\<lambda>t. t_id t = i) ts"

definition upd_thread :: "u64 \<Rightarrow> (thread \<Rightarrow> thread) \<Rightarrow> thread list \<Rightarrow> thread list" where
  "upd_thread i f ts = map (\<lambda>t. if t_id t = i then f t else t) ts"

definition current_thread :: "scheduler \<Rightarrow> thread option" where
  "current_thread s = find_thread (current s) (threads s)"

text \<open>\<open>NewThread\<close> numbers the thread and appends it, under the lock, and then returns the last
  element of the vector without it: \<open>later\<close> are the threads that others appended in between.\<close>

(* src/src/kernel/scheduler/impl/scheduler.cpp:105-113 Scheduler::NewThread *)
definition NewThread :: "thread list \<Rightarrow> thread \<Rightarrow> scheduler \<Rightarrow> u64 \<times> scheduler" where
  "NewThread later t s =
     (let i = sch_idCounter s + 1;
          t' = t\<lparr>t_id := i\<rparr>;
          s' = s\<lparr>sch_idCounter := i, threads := threads s @ [t']\<rparr>
      in (t_id (last (threads s' @ later)), s'\<lparr>threads := threads s' @ later\<rparr>))"

(* src/src/kernel/scheduler/impl/scheduler.cpp:119-125 Scheduler::GetByID *)
definition GetByID :: "u64 \<Rightarrow> scheduler \<Rightarrow> thread option" where
  "GetByID i s = List.find (\<lambda>t. t_id t = i) (threads s)"

(* src/src/kernel/scheduler/impl/scheduler.cpp:127-134 Scheduler::GetPIDThreadCount *)
definition GetPIDThreadCount :: "u64 \<Rightarrow> scheduler \<Rightarrow> nat" where
  "GetPIDThreadCount pid s = foldl (\<lambda>ret t. if t_pid t = pid then ret + 1 else ret) 0 (threads s)"

(* src/src/kernel/scheduler/impl/scheduler.cpp:141-149 Scheduler::DebugStopThreadsByPID *)
definition debug_stop :: "u64 \<Rightarrow> thread \<Rightarrow> thread" where
  "debug_stop pid t =
     (if t_pid t = pid
      then (if t_status t = Runnable then t\<lparr>t_status := DebugStopped\<rparr>
            else if t_status t = Blocked then t\<lparr>t_status := DebugBlocked\<rparr> else t)
      else t)"

(* src/src/kernel/scheduler/impl/scheduler.cpp:136-151 Scheduler::DebugStopThreadsByPID *)
definition DebugStopThreadsByPID :: "u64 \<Rightarrow> scheduler \<Rightarrow> scheduler result" where
  "DebugStopThreadsByPID pid s =
     (if map_option t_pid (current_thread s) = Some pid
      then Inl (Panic ''(SCH) Cannot debug-stop current PID!'')
      else Inr (s\<lparr>threads := map (debug_stop pid) (threads s)\<rparr>))"

(* src/src/kernel/scheduler/impl/scheduler.cpp:155-163 Scheduler::DebugResumeThreadsByPID *)
definition debug_resume :: "u64 \<Rightarrow> thread \<Rightarrow> thread" where
  "debug_resume pid t =
     (if t_pid t = pid
      then (if t_status t = DebugStopped then t\<lparr>t_status := Runnable\<rparr>
            else if t_status t = DebugBlocked then t\<lparr>t_status := Blocked\<rparr> else t)
      else t)"

(* src/src/kernel/scheduler/impl/scheduler.cpp:153-164 Scheduler::DebugResumeThreadsByPID *)
definition DebugResumeThreadsByPID :: "u64 \<Rightarrow> scheduler \<Rightarrow> scheduler" where
  "DebugResumeThreadsByPID pid s = s\<lparr>threads := map (debug_resume pid) (threads s)\<rparr>"

(* src/src/kernel/scheduler/impl/scheduler.cpp:166-174 Scheduler::HoldThreadsByPID *)
definition HoldThreadsByPID :: "u64 \<Rightarrow> scheduler \<Rightarrow> scheduler" where
  "HoldThreadsByPID pid s =
     s\<lparr>threads := map (\<lambda>t. if t_id t \<noteq> current s \<and> t_pid t = pid then t\<lparr>t_hold := True\<rparr> else t)
       (threads s)\<rparr>"

(* src/src/kernel/scheduler/impl/scheduler.cpp:176-183 Scheduler::UnHoldThreadsByPID *)
definition UnHoldThreadsByPID :: "u64 \<Rightarrow> scheduler \<Rightarrow> scheduler" where
  "UnHoldThreadsByPID pid s =
     s\<lparr>threads := map (\<lambda>t. if t_pid t = pid then t\<lparr>t_hold := False\<rparr> else t) (threads s)\<rparr>"

(* src/src/kernel/scheduler/impl/scheduler.cpp:185-190 Scheduler::AbortThreadsByPID *)
definition AbortThreadsByPID :: "u64 \<Rightarrow> scheduler \<Rightarrow> scheduler" where
  "AbortThreadsByPID pid s =
     s\<lparr>threads := map (\<lambda>t. if t_pid t = pid then thread_Abort t else t) (threads s)\<rparr>"

text \<open>The condition on which a joining thread waits.\<close>

(* src/src/kernel/scheduler/impl/scheduler.cpp:307-314 Scheduler::JoinThread *)
definition JoinThreadCheck :: "u64 \<Rightarrow> scheduler \<Rightarrow> bool" where
  "JoinThreadCheck i s \<longleftrightarrow> \<not> (\<exists>t \<in> set (threads s). t_id t = i)"

section \<open>Yielding and blocking\<close>

(* src/src/kernel/scheduler/impl/scheduler.cpp:192-196 Scheduler::CanLock *)
definition CanLock :: "scheduler \<Rightarrow> (bool \<times> scheduler) result" where
  "CanLock s =
     bind_result (TryTakeExclusive True (current s) (sch_lock s)) (\<lambda>(ret, w).
       if ret then bind_result (Release True (current s) False True w) (\<lambda>(y, w'). Inr (True, s\<lparr>sch_lock := w'\<rparr>))
       else Inr (False, s\<lparr>sch_lock := w\<rparr>))"

(* src/src/kernel/scheduler/impl/scheduler.cpp:294-296 Scheduler::CanYield *)
definition CanYield :: "scheduler \<Rightarrow> bool" where
  "CanYield s \<longleftrightarrow> \<not> IsLocked (the_lock (sch_lock s))"

(* src/src/kernel/scheduler/impl/scheduler.cpp:285-288 Scheduler::EnableScheduler *)
definition EnableScheduler :: "scheduler \<Rightarrow> scheduler result" where
  "EnableScheduler s =
     (if IsLocked (the_lock (sch_lock s)) \<and> owningThreadID (the_lock (sch_lock s)) = current s
      then bind_result (Release True (current s) False False (sch_lock s))
             (\<lambda>(y, w). Inr (s\<lparr>sch_lock := w\<rparr>))
      else Inr s)"

(* src/src/kernel/scheduler/impl/scheduler.cpp:290-292 Scheduler::DisableScheduler *)
definition DisableScheduler :: "scheduler \<Rightarrow> (bool \<times> scheduler) result" where
  "DisableScheduler s =
     bind_result (TryTakeExclusive True (current s) (sch_lock s)) (\<lambda>(b, w). Inr (b, s\<lparr>sch_lock := w\<rparr>))"

text \<open>The loop asks every other thread for its status, which may wake it. A current thread that
  is not in the vector cannot be: the pointer would dangle.\<close>

(* src/src/kernel/scheduler/impl/scheduler.cpp:198-207 Scheduler::ShouldYield *)
definition ShouldYield :: "(u64 \<Rightarrow> bool) \<Rightarrow> scheduler \<Rightarrow> (bool \<times> scheduler) result" where
  "ShouldYield chk s =
     (case current_thread s of
        None \<Rightarrow> Inl Undefined
      | Some c \<Rightarrow>
          if t_status c \<noteq> Runnable then Inr (True, s)
          else let ts = map (\<lambda>t. if t_id t = current s then t else CheckStatus chk t) (threads s)
               in Inr (\<exists>t \<in> set ts. t_id t \<noteq> current s \<and> t_status t = Runnable, s\<lparr>threads := ts\<rparr>))"

text \<open>The result says whether the processor is handed to the scheduler.\<close>

(* src/src/kernel/scheduler/impl/thread.cpp:61-70 Thread::Yield *)
definition Yield :: "(u64 \<Rightarrow> bool) \<Rightarrow> u64 \<Rightarrow> scheduler \<Rightarrow> (bool \<times> scheduler) result" where
  "Yield chk i s =
     (if \<not> CanYield s
      then Inr (False, s\<lparr>threads := upd_thread i (\<lambda>t. t\<lparr>yieldPending := True\<rparr>) (threads s)\<rparr>)
      else bind_result (ShouldYield chk s) (\<lambda>(should, s').
        if should
        then Inr (True, if map_option t_status (find_thread i (threads s')) = Some Runnable
                        then s'\<lparr>yieldSchedule := True\<rparr> else s')
        else Inr (False, s')))"

(* src/src/kernel/scheduler/impl/thread.cpp:72-78 Thread::YieldIfPending *)
definition YieldIfPending :: "(u64 \<Rightarrow> bool) \<Rightarrow> u64 \<Rightarrow> scheduler \<Rightarrow> (bool \<times> scheduler) result" where
  "YieldIfPending chk i s =
     (if \<not> CanYield s then Inr (False, s)
      else case find_thread i (threads s) of
        None \<Rightarrow> Inl Undefined
      | Some t \<Rightarrow>
          if yieldPending t
          then bind_result (ShouldYield chk s) (\<lambda>(should, s').
                 Inr (should, s'\<lparr>threads := upd_thread i (\<lambda>t. t\<lparr>yieldPending := False\<rparr>) (threads s')\<rparr>))
          else Inr (False, s))"

(* src/src/kernel/scheduler/impl/thread.cpp:84-99 Thread::Block *)
definition Block :: "(u64 \<Rightarrow> bool) \<Rightarrow> u64 \<Rightarrow> scheduler \<Rightarrow> (bool \<times> scheduler) result" where
  "Block chk i s =
     (if idleThread s = i then Inl (Panic ''(SCH) Attempt to block idle thread!'')
      else let s' = s\<lparr>threads := upd_thread i block_status (threads s)\<rparr>
           in if current s' = i
              then (if \<not> CanYield s' then Inl (Panic ''(SCH) Attempt to block while holding scheduler lock!'')
                    else Yield chk i s')
              else Inr (False, s'))"

(* src/src/kernel/scheduler/impl/thread.cpp:139-143 Thread::SetBlock *)
definition SetBlock :: "(u64 \<Rightarrow> bool) \<Rightarrow> u64 \<Rightarrow> scheduler \<Rightarrow> (bool \<times> scheduler) result" where
  "SetBlock chk i s =
     (if idleThread s = i then Inl (Panic ''(SCH) Attempt to block idle thread!'')
      else Block chk i (s\<lparr>threads := upd_thread i (\<lambda>t. t\<lparr>blockCheck := True\<rparr>) (threads s)\<rparr>))"

text \<open>Dropping a reference wakes the reaper when the thread waits to be destroyed.\<close>

(* src/src/kernel/scheduler/impl/thread.cpp:219-228 Thread::DecrementRefCount *)
definition DecrementRefCount :: "(u64 \<Rightarrow> bool) \<Rightarrow> u64 \<Rightarrow> scheduler \<Rightarrow> scheduler result" where
  "DecrementRefCount chk i s =
     (case find_thread i (threads s) of
        None \<Rightarrow> Inl Undefined
      | Some t \<Rightarrow>
          if refCount t = 0 then Inl (Panic ''(SCH) Thread refCount inconsistency!'')
          else let c = refCount t - 1;
                   ts = upd_thread i (\<lambda>t. t\<lparr>refCount := c\<rparr>) (threads s);
                   ts' = (if c = 0 \<and> awaitingDestruction t
                          then upd_thread (reaperThread s) (Unblock chk) ts else ts)
               in if c > 0x7FFFFFFF then Inl (Panic ''(SCH) Thread refcount implausible!'')
                  else Inr (s\<lparr>threads := ts'\<rparr>))"

text \<open>The state in which an ending thread hands over the processor, for the last time.\<close>

(* src/src/kernel/scheduler/impl/thread.cpp:52-59 Thread::End *)
definition ThreadEnd :: "(u64 \<Rightarrow> bool) \<Rightarrow> u64 \<Rightarrow> scheduler \<Rightarrow> scheduler result" where
  "ThreadEnd chk i s =
     (if thread_locks (sch_lock s) i \<noteq> 0
      then Inl (Panic ''(SCH) Ending thread with non-zero lock count!'')
      else Inr (s\<lparr>threads := upd_thread (reaperThread s) (Unblock chk)
                   (upd_thread i (\<lambda>t. t\<lparr>t_status := Ending\<rparr>) (threads s))\<rparr>))"

section \<open>Planning a cycle\<close>

text \<open>The first pass: every load modifier goes down by one, and the least dynamic priority of the
  runnable threads is found.\<close>

(* src/src/kernel/scheduler/impl/scheduler.cpp:213-219 Scheduler::PlanCycle *)
fun plan_min :: "thread list \<Rightarrow> u32 \<Rightarrow> bool \<Rightarrow> u32 \<times> bool" where
  "plan_min [] minPriority anyRunnable = (minPriority, anyRunnable)"
| "plan_min (t # ts) minPriority anyRunnable =
     (if t_status t = Runnable
      then plan_min ts (if dynamicPriority t < minPriority then dynamicPriority t else minPriority) True
      else plan_min ts minPriority anyRunnable)"

(* src/src/kernel/scheduler/impl/scheduler.cpp:214-214 Scheduler::PlanCycle *)
definition decay_load :: "thread \<Rightarrow> thread" where
  "decay_load t = (if loadModifier t > 0 then t\<lparr>loadModifier := loadModifier t - 1\<rparr> else t)"

text \<open>The second pass: the runnable threads give up the least priority, and those that reach zero
  are chained in the order of the vector. The accumulators are the \<open>next\<close> pointers, the head and
  the last thread of the chain, and the number of times the load of the current thread is raised.\<close>

(* src/src/kernel/scheduler/impl/scheduler.cpp:220-234 Scheduler::PlanCycle *)
fun plan_link ::
  "u32 \<Rightarrow> u32 \<Rightarrow> thread list \<Rightarrow> (u64 \<Rightarrow> u64 option) \<Rightarrow> u64 option \<Rightarrow> u64 option \<Rightarrow> nat \<Rightarrow>
   thread list \<times> (u64 \<Rightarrow> u64 option) \<times> u64 option \<times> nat" where
  "plan_link cyc m [] nx head lst n = ([], nx, head, n)"
| "plan_link cyc m (t # ts) nx head lst n =
     (if t_status t = Runnable
      then let t1 = t\<lparr>dynamicPriority := dynamicPriority t - m\<rparr>
           in if dynamicPriority t1 = 0
              then let t2 = t1\<lparr>scheduleCycle := cyc\<rparr>;
                       head' = (case head of None \<Rightarrow> Some (t_id t) | Some h \<Rightarrow> Some h);
                       nx1 = (case lst of None \<Rightarrow> nx | Some l \<Rightarrow> nx(l := Some (t_id t)));
                       nx2 = nx1(t_id t := None);
                       (ts', r) = plan_link cyc m ts nx2 head' (Some (t_id t)) (n + 1)
                   in (t2 # ts', r)
              else let (ts', r) = plan_link cyc m ts nx head lst n in (t1 # ts', r)
      else let (ts', r) = plan_link cyc m ts nx head lst n in (t # ts', r))"

(* src/src/kernel/scheduler/impl/scheduler.cpp:209-241 Scheduler::PlanCycle *)
definition PlanCycle :: "scheduler \<Rightarrow> (u64 \<times> scheduler) result" where
  "PlanCycle s =
     (let cyc = scheduleCyle s + 1;
          (m, anyRunnable) = plan_min (threads s) 0xFFFFFFFF False;
          (ts, nx, head, n) = plan_link cyc m (map decay_load (threads s)) (next_of s) None None 0;
          ts1 = upd_thread (current s) (\<lambda>t. t\<lparr>loadModifier := loadModifier t + of_nat n\<rparr>) ts;
          s1 = s\<lparr>scheduleCyle := cyc, threads := ts1, next_of := nx\<rparr>
      in case head of
           Some h \<Rightarrow> Inr (h, s1)
         | None \<Rightarrow>
             if anyRunnable then Inl (Panic ''(SCH) Going idle with runnable threads?!'')
             else Inr (idleThread s,
                    s1\<lparr>threads := upd_thread (idleThread s) (\<lambda>t. t\<lparr>loadModifier := loadModifier t + 1\<rparr>) ts1\<rparr>))"

section \<open>Scheduling\<close>

text \<open>The walk along the chain to the next thread that can run. Following a pointer to a thread
  that is gone is \<open>Undefined\<close>.\<close>

(* src/src/kernel/scheduler/impl/scheduler.cpp:253-256 Scheduler::Schedule *)
partial_function (option) next_runnable ::
  "thread list \<Rightarrow> (u64 \<Rightarrow> u64 option) \<Rightarrow> u64 option \<Rightarrow> u64 option result option" where
  "next_runnable ts nx p =
     (case p of
        None \<Rightarrow> Some (Inr None)
      | Some i \<Rightarrow>
          (case find_thread i ts of
             None \<Rightarrow> Some (Inl Undefined)
           | Some t \<Rightarrow> if t_status t \<noteq> Runnable then next_runnable ts nx (nx i) else Some (Inr (Some i))))"

(* src/src/kernel/scheduler/impl/scheduler.cpp:268-269 Scheduler::Schedule *)
definition charge :: "thread \<Rightarrow> thread" where
  "charge t =
     (let l = (if loadModifier t < 128 then loadModifier t + 1 else loadModifier t)
      in t\<lparr>loadModifier := l, dynamicPriority := staticPriority t + l\<rparr>)"

text \<open>The switch to the chosen thread. The process switch is done by the process manager, once
  there is one.\<close>

(* src/src/kernel/scheduler/impl/scheduler.cpp:275-282 Scheduler::Schedule *)
definition switch_to :: "bool \<Rightarrow> u64 \<Rightarrow> scheduler \<Rightarrow> (u64 \<times> scheduler) result" where
  "switch_to processes_ready nxt s =
     bind_result (Transfer (current s) nxt (sch_lock s)) (\<lambda>w.
       case find_thread nxt (threads s) of
         None \<Rightarrow> Inl Undefined
       | Some t \<Rightarrow>
           if \<not> processes_ready \<and> t_pid t \<noteq> 0 then Inl (Panic ''(SCH) PID != 0 before processes!'')
           else Inr (stackToken t,
                  s\<lparr>sch_lock := w, current := nxt, threads := upd_thread nxt charge (threads s)\<rparr>))"

(* src/src/kernel/scheduler/impl/scheduler.cpp:243-283 Scheduler::Schedule *)
definition Schedule ::
  "(u64 \<Rightarrow> bool) \<Rightarrow> bool \<Rightarrow> u64 \<Rightarrow> scheduler \<Rightarrow> (u64 \<times> scheduler) result option" where
  "Schedule chk processes_ready token s =
     (let was = yieldSchedule s;
          s1 = s\<lparr>yieldSchedule := False,
                 threads := upd_thread (current s) (\<lambda>t. t\<lparr>stackToken := token\<rparr>) (threads s)\<rparr>
      in map_option (\<lambda>r. bind_result r (\<lambda>nxt.
        case nxt of
          Some i \<Rightarrow> switch_to processes_ready i s1
        | None \<Rightarrow>
            (case current_thread s1 of
               None \<Rightarrow> Inl Undefined
             | Some c \<Rightarrow>
                 (let ts = (if was then threads s1 else map (CheckStatus chk) (threads s1));
                      shouldSchedule = (was \<or> t_status c \<noteq> Runnable \<or>
                        (\<exists>t \<in> set ts. t_status t = Runnable \<and> t_id t \<noteq> current s1));
                      s2 = s1\<lparr>threads := ts\<rparr>
                  in if \<not> shouldSchedule
                     then Inr (token, s2\<lparr>threads := upd_thread (current s2) charge (threads s2)\<rparr>)
                     else bind_result (PlanCycle s2) (\<lambda>(i, s3). switch_to processes_ready i s3)))))
        (next_runnable (threads s1) (next_of s1) (next_of s1 (current s1))))"

section \<open>The reaper\<close>

text \<open>One scan: ended threads that are still referred to are marked, and the first one that is not
  is taken out.\<close>

(* src/src/kernel/scheduler/impl/scheduler.cpp:56-81 Scheduler::TheReaperThread *)
fun reap_scan :: "thread list \<Rightarrow> thread list \<times> thread option" where
  "reap_scan [] = ([], None)"
| "reap_scan (t # ts) =
     (if t_status t = Ending
      then (if refCount t > 0
            then let (ts', r) = reap_scan ts in (t\<lparr>awaitingDestruction := True\<rparr> # ts', r)
            else (ts, Some t))
      else let (ts', r) = reap_scan ts in (t # ts', r))"

(* src/src/kernel/scheduler/impl/scheduler.cpp:66-71 Scheduler::TheReaperThread *)
partial_function (option) reap_unlink ::
  "u64 \<Rightarrow> u64 option \<Rightarrow> (u64 \<Rightarrow> u64 option) \<Rightarrow> (u64 \<Rightarrow> u64 option) option" where
  "reap_unlink th n nx =
     (case n of
        None \<Rightarrow> Some nx
      | Some i \<Rightarrow>
          (let nx' = (if nx i = Some th then nx(i := nx th) else nx)
           in reap_unlink th (nx' i) nx'))"

lemma reap_scan_shrinks: "reap_scan ts = (ts', Some t) \<Longrightarrow> length ts = Suc (length ts')"
  by (induction ts arbitrary: ts') (auto split: if_splits prod.splits)

text \<open>The scans repeat until nothing was found: the threads destroyed and those left.\<close>

(* src/src/kernel/scheduler/impl/scheduler.cpp:52-82 Scheduler::TheReaperThread *)
function reap_all :: "thread list \<Rightarrow> thread list \<times> thread list" where
  "reap_all ts =
     (case reap_scan ts of
        (ts', None) \<Rightarrow> ([], ts')
      | (ts', Some t) \<Rightarrow> (let (dead, left) = reap_all ts' in (t # dead, left)))"
  by pat_completeness auto
termination by (relation "measure length") (auto dest: reap_scan_shrinks [OF sym])

declare reap_all.simps [simp del]

text \<open>The same scans on the scheduler: each thread found is taken out of the chain that starts at
  the running thread before it is destroyed. The lock is given back only while the memory of the
  thread is freed.\<close>

(* src/src/kernel/scheduler/impl/scheduler.cpp:47-85 Scheduler::TheReaperThread *)
partial_function (option) TheReaperThread :: "scheduler \<Rightarrow> scheduler option" where
  "TheReaperThread s =
     (case reap_scan (threads s) of
        (ts', None) \<Rightarrow> Some (s\<lparr>threads := ts'\<rparr>)
      | (ts', Some t) \<Rightarrow>
          Option.bind (reap_unlink (t_id t) (Some (current s)) (next_of s))
            (\<lambda>nx. TheReaperThread (s\<lparr>threads := ts', next_of := nx\<rparr>)))"

section \<open>Chains\<close>

text \<open>The pointer \<open>p\<close> leads through exactly these threads to the end of the chain.\<close>

fun is_chain :: "(u64 \<Rightarrow> u64 option) \<Rightarrow> u64 option \<Rightarrow> u64 list \<Rightarrow> bool" where
  "is_chain nx p [] \<longleftrightarrow> p = None"
| "is_chain nx p (i # is) \<longleftrightarrow> p = Some i \<and> is_chain nx (nx i) is"

lemma is_chain_frame: "\<forall>i \<in> set is. nx' i = nx i \<Longrightarrow> is_chain nx' p is = is_chain nx p is"
  by (induction "is" arbitrary: p) auto

lemma is_chain_extend:
  "is_chain nx p (cs @ [l]) \<Longrightarrow> distinct (cs @ [l, i]) \<Longrightarrow>
   is_chain (nx(l := Some i, i := None)) p (cs @ [l, i])"
proof (induction cs arbitrary: p)
  case Nil
  then show ?case by simp
next
  case (Cons c cs)
  then show ?case by simp
qed

lemma is_chain_suffix: "is_chain nx p (is @ i # js) \<Longrightarrow> is_chain nx (Some i) (i # js)"
  by (induction "is" arbitrary: p) auto

lemma next_runnable_chain:
  assumes "is_chain nx p cs" "\<forall>i \<in> set cs. find_thread i ts \<noteq> None"
  shows "\<exists>r. next_runnable ts nx p = Some (Inr r) \<and>
    (case r of None \<Rightarrow> True
     | Some i \<Rightarrow> \<exists>t post. find_thread i ts = Some t \<and> t_status t = Runnable \<and> i \<in> set cs \<and>
         set post \<subseteq> set cs \<and> is_chain nx (nx i) post)"
  using assms
proof (induction cs arbitrary: p)
  case Nil
  then show ?case by (simp add: next_runnable.simps [of ts nx None])
next
  case (Cons c cs)
  then obtain t where t: "find_thread c ts = Some t" "p = Some c" "is_chain nx (nx c) cs" by auto
  show ?case
  proof (cases "t_status t = Runnable")
    case True
    then show ?thesis
      using t by (subst next_runnable.simps) (auto intro!: exI [of _ cs])
  next
    case False
    then have "next_runnable ts nx p = next_runnable ts nx (nx c)"
      using t by (subst next_runnable.simps) simp
    moreover obtain r where "next_runnable ts nx (nx c) = Some (Inr r)"
      "case r of None \<Rightarrow> True
       | Some i \<Rightarrow> \<exists>t post. find_thread i ts = Some t \<and> t_status t = Runnable \<and> i \<in> set cs \<and>
           set post \<subseteq> set cs \<and> is_chain nx (nx i) post"
      using Cons.IH [OF t(3)] Cons.prems(2) by auto
    ultimately show ?thesis
      by (intro exI [of _ r]) (cases r; simp; blast)
  qed
qed

lemma reap_unlink_absent:
  "is_chain nx (nx c) cs \<Longrightarrow> th \<notin> set cs \<Longrightarrow> reap_unlink th (Some c) nx = Some nx"
proof (induction cs arbitrary: c)
  case Nil
  then show ?case
    by (simp add: reap_unlink.simps [of th "Some c"] reap_unlink.simps [of th None])
next
  case (Cons d cs)
  then have "reap_unlink th (Some c) nx = reap_unlink th (Some d) nx"
    by (subst reap_unlink.simps) (auto simp: Let_def)
  with Cons show ?case by simp
qed

lemma reap_unlink_chain:
  assumes "is_chain nx (nx c) cs" "distinct (c # cs)" "th \<noteq> c"
  shows "\<exists>nx'. reap_unlink th (Some c) nx = Some nx' \<and>
    is_chain nx' (nx' c) (filter ((\<noteq>) th) cs) \<and> (\<forall>i. nx i \<noteq> Some th \<longrightarrow> nx' i = nx i)"
  using assms
proof (induction cs arbitrary: c)
  case Nil
  then show ?case using reap_unlink_absent [of nx c "[]" th] by simp
next
  case (Cons d cs)
  then have d: "nx c = Some d" "is_chain nx (nx d) cs" and dist: "distinct (c # d # cs)" by auto
  show ?case
  proof (cases "d = th")
    case True
    let ?nx = "nx(c := nx d)"
    have notin: "th \<notin> set cs" using Cons.prems(2) True by simp
    have chain: "is_chain ?nx (?nx c) cs"
      using d(2) Cons.prems(2) is_chain_frame [of cs ?nx nx "nx d"] by auto
    have "reap_unlink th (Some c) nx = reap_unlink th (?nx c) ?nx"
      using d(1) True by (subst reap_unlink.simps) (simp add: Let_def)
    also have "reap_unlink th (?nx c) ?nx = Some ?nx"
    proof (cases cs)
      case Nil
      then show ?thesis using d(2) by (simp add: reap_unlink.simps [of th None])
    next
      case (Cons e es)
      then show ?thesis using chain notin dist reap_unlink_absent [of ?nx e es th] by auto
    qed
    finally have "reap_unlink th (Some c) nx = Some ?nx" .
    moreover have "filter ((\<noteq>) th) cs = cs"
      using notin by (intro filter_True) auto
    ultimately show ?thesis
      using chain True d(1) by auto
  next
    case False
    have step: "reap_unlink th (Some c) nx = reap_unlink th (Some d) nx"
      using d(1) False by (subst reap_unlink.simps) (simp add: Let_def)
    from Cons.IH [OF d(2)] Cons.prems(2) False obtain nx' where nx':
      "reap_unlink th (Some d) nx = Some nx'" "is_chain nx' (nx' d) (filter ((\<noteq>) th) cs)"
      "\<forall>i. nx i \<noteq> Some th \<longrightarrow> nx' i = nx i"
      by auto
    with step d(1) False Cons.prems(2) show ?thesis by auto
  qed
qed

section \<open>Planning chains the runnable threads of least priority\<close>

definition chosen :: "u32 \<Rightarrow> thread list \<Rightarrow> thread list" where
  "chosen m ts = filter (\<lambda>t. t_status t = Runnable \<and> dynamicPriority t = m) ts"

definition plan_thread :: "u32 \<Rightarrow> u32 \<Rightarrow> thread \<Rightarrow> thread" where
  "plan_thread cyc m t =
     (if t_status t = Runnable
      then (if dynamicPriority t = m then t\<lparr>dynamicPriority := 0, scheduleCycle := cyc\<rparr>
            else t\<lparr>dynamicPriority := dynamicPriority t - m\<rparr>)
      else t)"

lemma plan_min_spec:
  assumes "plan_min ts m a = (m', a')"
  shows "m' \<le> m \<and> (\<forall>t \<in> set ts. t_status t = Runnable \<longrightarrow> m' \<le> dynamicPriority t) \<and>
    (m' = m \<or> (\<exists>t \<in> set ts. t_status t = Runnable \<and> dynamicPriority t = m')) \<and>
    (a' \<longleftrightarrow> a \<or> (\<exists>t \<in> set ts. t_status t = Runnable))"
  using assms
proof (induction ts m a rule: plan_min.induct)
  case (1 m a)
  then show ?case by simp
next
  case (2 t ts m a)
  show ?case
  proof (cases "t_status t = Runnable")
    case False
    with 2 show ?thesis by auto
  next
    case True
    with 2(1,3) show ?thesis
      by (cases "dynamicPriority t < m") (auto simp: not_less)
  qed
qed

lemma plan_link_spec:
  assumes "plan_link cyc m ts nx head lst n = (ts', nx', head', n')"
    and "lst = (if cs = [] then None else Some (last cs))"
    and "head = (if cs = [] then None else Some (List.hd cs))"
    and "is_chain nx head cs" "distinct (cs @ map t_id ts)"
  shows "ts' = map (plan_thread cyc m) ts \<and> n' = n + length (chosen m ts) \<and>
    (let all = cs @ map t_id (chosen m ts)
     in head' = (if all = [] then None else Some (List.hd all)) \<and> is_chain nx' head' all \<and>
        (\<forall>i. i \<notin> set all \<longrightarrow> nx' i = nx i))"
  using assms
proof (induction ts arbitrary: nx head lst n cs ts')
  case Nil
  then show ?case by (simp add: chosen_def)
next
  case (Cons t ts)
  note prems = Cons.prems
  show ?case
  proof (cases "t_status t = Runnable \<and> dynamicPriority t = m")
    case False
    then obtain us where us: "plan_link cyc m ts nx head lst n = (us, nx', head', n')"
      "ts' = plan_thread cyc m t # us"
      using prems(1) by (auto simp: plan_thread_def Let_def split: if_splits prod.splits)
    have "us = map (plan_thread cyc m) ts \<and> n' = n + length (chosen m ts) \<and>
      (let all = cs @ map t_id (chosen m ts)
       in head' = (if all = [] then None else Some (List.hd all)) \<and> is_chain nx' head' all \<and>
          (\<forall>i. i \<notin> set all \<longrightarrow> nx' i = nx i))"
      using prems(5) by (intro Cons.IH [OF us(1) prems(2-4)]) simp
    with False us(2) show ?thesis by (auto simp: chosen_def)
  next
    case True
    let ?nx = "(case lst of None \<Rightarrow> nx | Some l \<Rightarrow> nx(l := Some (t_id t)))(t_id t := None)"
    let ?head = "case head of None \<Rightarrow> Some (t_id t) | Some h \<Rightarrow> Some h"
    obtain us where us: "plan_link cyc m ts ?nx ?head (Some (t_id t)) (n + 1) = (us, nx', head', n')"
      "ts' = plan_thread cyc m t # us"
      using prems(1) True by (auto simp: plan_thread_def Let_def split: prod.splits)
    have chain: "is_chain ?nx ?head (cs @ [t_id t])"
    proof (cases cs rule: rev_cases)
      case Nil
      with prems(2,3) show ?thesis by simp
    next
      case (snoc ds d)
      then have "distinct (ds @ [d, t_id t])" using prems(5) by auto
      moreover have "is_chain nx head (ds @ [d])" "head = Some (List.hd cs)" "lst = Some d"
        using prems(2-4) snoc by auto
      ultimately show ?thesis
        using is_chain_extend [of nx head ds d "t_id t"] snoc by simp
    qed
    have head: "?head = Some (List.hd (cs @ [t_id t]))"
      using prems(3) by (cases cs) auto
    have "us = map (plan_thread cyc m) ts \<and> n' = n + 1 + length (chosen m ts) \<and>
      (let all = (cs @ [t_id t]) @ map t_id (chosen m ts)
       in head' = (if all = [] then None else Some (List.hd all)) \<and> is_chain nx' head' all \<and>
          (\<forall>i. i \<notin> set all \<longrightarrow> nx' i = ?nx i))"
      using prems(5) by (intro Cons.IH [OF us(1) _ _ chain]) (simp_all add: head)
    moreover have "?nx i = nx i" if "i \<notin> set (cs @ [t_id t])" for i
      using that prems(2) by (cases cs rule: rev_cases) auto
    ultimately show ?thesis
      using True us(2) by (auto simp: chosen_def Let_def)
  qed
qed

section \<open>Updates that keep threads in place\<close>

lemma find_thread_map: "(\<And>t. t_id (g t) = t_id t) \<Longrightarrow> find_thread i (map g ts) = map_option g (find_thread i ts)"
  by (induction ts) (simp_all add: find_thread_def)

lemma find_thread_upd:
  "(\<And>t. t_id (f t) = t_id t) \<Longrightarrow>
   find_thread i (upd_thread j f ts) = map_option (\<lambda>t. if t_id t = j then f t else t) (find_thread i ts)"
  unfolding upd_thread_def by (rule find_thread_map) simp

lemma ids_upd [simp]: "(\<And>t. t_id (f t) = t_id t) \<Longrightarrow> map t_id (upd_thread j f ts) = map t_id ts"
  by (simp add: upd_thread_def comp_def if_distrib)

lemma find_thread_id: "find_thread i ts = Some t \<Longrightarrow> t_id t = i"
  by (auto simp: find_thread_def find_Some_iff)

lemma find_thread_member: "distinct (map t_id ts) \<Longrightarrow> t \<in> set ts \<Longrightarrow> find_thread (t_id t) ts = Some t"
  unfolding find_thread_def by (induction ts) force+

lemma find_thread_iff: "find_thread i ts \<noteq> None \<longleftrightarrow> i \<in> t_id ` set ts"
  by (auto simp: find_thread_def find_None_iff)

definition status_of :: "u64 \<Rightarrow> thread list \<Rightarrow> thread_status option" where
  "status_of i ts = map_option t_status (find_thread i ts)"

lemma status_of_upd [simp]:
  "(\<And>t. t_id (f t) = t_id t) \<Longrightarrow> (\<And>t. t_status (f t) = t_status t) \<Longrightarrow>
   status_of i (upd_thread j f ts) = status_of i ts"
  by (simp add: status_of_def find_thread_upd option.map_comp comp_def if_distrib cong: if_cong)

lemma status_of_map:
  "(\<And>t. t_id (g t) = t_id t) \<Longrightarrow> (\<And>t. t_status (g t) = t_status t) \<Longrightarrow>
   status_of i (map g ts) = status_of i ts"
  by (simp add: status_of_def find_thread_map option.map_comp comp_def)

lemma keeps_id_status [simp]:
  "t_id (decay_load t) = t_id t" "t_status (decay_load t) = t_status t"
  "dynamicPriority (decay_load t) = dynamicPriority t"
  "t_id (plan_thread cyc m t) = t_id t" "t_status (plan_thread cyc m t) = t_status t"
  "t_id (charge t) = t_id t" "t_status (charge t) = t_status t"
  "t_id (CheckStatus chk t) = t_id t"
  by (simp_all add: decay_load_def plan_thread_def charge_def CheckStatus_def Let_def)

lemma ids_chosen_decay: "map t_id (chosen m (map decay_load ts)) = map t_id (chosen m ts)"
  by (simp add: chosen_def filter_map comp_def)

text \<open>What planning a cycle does, whatever the threads.\<close>

lemma PlanCycle_spec:
  assumes "distinct (map t_id (threads s))"
  shows "\<exists>h s' m. PlanCycle s = Inr (h, s') \<and>
    map t_id (threads s') = map t_id (threads s) \<and>
    (\<forall>i. status_of i (threads s') = status_of i (threads s)) \<and>
    current s' = current s \<and> idleThread s' = idleThread s \<and> sch_lock s' = sch_lock s \<and>
    (\<forall>t \<in> set (threads s). t_status t = Runnable \<longrightarrow> m \<le> dynamicPriority t) \<and>
    (if \<exists>t \<in> set (threads s). t_status t = Runnable
     then chosen m (threads s) \<noteq> [] \<and> is_chain (next_of s') (Some h) (map t_id (chosen m (threads s)))
     else h = idleThread s) \<and>
    (\<forall>i. i \<notin> t_id ` set (chosen m (threads s)) \<longrightarrow> next_of s' i = next_of s i)"
proof -
  obtain m a where ma: "plan_min (threads s) 0xFFFFFFFF False = (m, a)" by fastforce
  note pm = plan_min_spec [OF ma]
  obtain ts nx head n where pl: "plan_link (scheduleCyle s + 1) m (map decay_load (threads s))
      (next_of s) None None 0 = (ts, nx, head, n)"
    by (metis prod_cases4)
  have ids: "map t_id (map decay_load (threads s)) = map t_id (threads s)" by simp
  have link: "ts = map (plan_thread (scheduleCyle s + 1) m) (map decay_load (threads s))"
    "head = (if map t_id (chosen m (threads s)) = [] then None
             else Some (List.hd (map t_id (chosen m (threads s)))))"
    "is_chain nx head (map t_id (chosen m (threads s)))"
    "\<forall>i. i \<notin> t_id ` set (chosen m (threads s)) \<longrightarrow> nx i = next_of s i"
    using plan_link_spec [OF pl, of "[]"] assms unfolding ids_chosen_decay ids Let_def append_Nil by (auto split: if_splits)
  let ?ts1 = "upd_thread (current s) (\<lambda>t. t\<lparr>loadModifier := loadModifier t + of_nat n\<rparr>) ts"
  have idsts: "map t_id ?ts1 = map t_id (threads s)"
    by (simp add: link(1) comp_def)
  have stts: "status_of i ?ts1 = status_of i (threads s)" for i
    by (simp add: link(1) status_of_map)
  show ?thesis
  proof (cases "\<exists>t \<in> set (threads s). t_status t = Runnable")
    case True
    have "\<exists>t \<in> set (threads s). t_status t = Runnable \<and> dynamicPriority t = m"
    proof (cases "m = 0xFFFFFFFF")
      case True
      with pm \<open>\<exists>t \<in> set (threads s). t_status t = Runnable\<close> show ?thesis
        by (metis u32_le_max order_antisym)
    next
      case False
      with pm show ?thesis by auto
    qed
    then have ne: "chosen m (threads s) \<noteq> []" by (auto simp: chosen_def filter_empty_conv)
    then obtain h where h: "head = Some h" using link(2) by simp
    let ?s' = "s\<lparr>scheduleCyle := scheduleCyle s + 1, threads := ?ts1, next_of := nx\<rparr>"
    have plan: "PlanCycle s = Inr (h, ?s')"
      using h by (simp add: PlanCycle_def ma pl)
    show ?thesis
      using True ne link(3,4) h idsts stts pm
      by (intro exI [of _ h] exI [of _ ?s'] exI [of _ m] conjI plan) simp_all
  next
    case False
    then have "chosen m (threads s) = []" by (auto simp: chosen_def filter_empty_conv)
    then have "head = None" "\<not> a" using link(2) pm False by auto
    let ?s' = "s\<lparr>scheduleCyle := scheduleCyle s + 1,
      threads := upd_thread (idleThread s) (\<lambda>t. t\<lparr>loadModifier := loadModifier t + 1\<rparr>) ?ts1,
      next_of := nx\<rparr>"
    have plan: "PlanCycle s = Inr (idleThread s, ?s')"
      using \<open>head = None\<close> \<open>\<not> a\<close> by (simp add: PlanCycle_def ma pl)
    show ?thesis
      using False link(4) idsts stts pm
      by (intro exI [of _ "idleThread s"] exI [of _ ?s'] exI [of _ m] conjI plan) auto
  qed
qed

section \<open>Scheduling keeps the scheduler consistent\<close>

text \<open>The threads have different ids, the current thread is one of them, the idle thread is one of
  them and in no chain, the chain behind the current thread leads through existing threads and
  ends, and the current thread holds the scheduler's lock.\<close>

definition sched_inv :: "scheduler \<Rightarrow> bool" where
  "sched_inv s \<longleftrightarrow>
     distinct (map t_id (threads s)) \<and> current s \<in> t_id ` set (threads s) \<and>
     status_of (idleThread s) (threads s) = Some Special \<and> next_of s (idleThread s) = None \<and>
     (\<exists>cs. is_chain (next_of s) (next_of s (current s)) cs \<and> set cs \<subseteq> t_id ` set (threads s)) \<and>
     owningThreadID (the_lock (sch_lock s)) = current s"

lemma sched_inv_ids: "map t_id ts = map t_id us \<Longrightarrow> t_id ` set ts = t_id ` set us"
  by (metis list.set_map)

lemma sched_inv_cong:
  assumes "sched_inv s" "map t_id (threads s') = map t_id (threads s)"
    and "status_of (idleThread s) (threads s') = Some Special"
    and "next_of s' = next_of s" "current s' = current s" "idleThread s' = idleThread s"
    and "sch_lock s' = sch_lock s"
  shows "sched_inv s'"
  using assms sched_inv_ids [OF assms(2)] unfolding sched_inv_def by auto

lemma switch_to_ready:
  assumes "owningThreadID (the_lock (sch_lock s)) = current s" "find_thread i (threads s) = Some t"
  shows "\<exists>s'. switch_to True i s = Inr (stackToken t, s') \<and> current s' = i \<and>
    map t_id (threads s') = map t_id (threads s) \<and> next_of s' = next_of s \<and>
    (\<forall>j. status_of j (threads s') = status_of j (threads s)) \<and> idleThread s' = idleThread s \<and>
    owningThreadID (the_lock (sch_lock s')) = i"
  using assms
  by (simp add: switch_to_def Transfer_def Let_def IncrementLockCount_def DecrementLockCount_def)

lemma switch_to_inv:
  assumes "distinct (map t_id (threads s))" "status_of (idleThread s) (threads s) = Some Special"
    and "next_of s (idleThread s) = None" "owningThreadID (the_lock (sch_lock s)) = current s"
    and "i \<in> t_id ` set (threads s)"
    and "is_chain (next_of s) (next_of s i) cs" "set cs \<subseteq> t_id ` set (threads s)"
    and "status_of i (threads s) = Some Runnable \<or> i = idleThread s"
  shows "\<exists>tok s'. switch_to True i s = Inr (tok, s') \<and> sched_inv s' \<and>
    (status_of (current s') (threads s') = Some Runnable \<or> current s' = idleThread s)"
proof -
  obtain t where t: "find_thread i (threads s) = Some t"
    using assms(5) find_thread_iff [of i "threads s"] by auto
  obtain s' where s': "switch_to True i s = Inr (stackToken t, s')" "current s' = i"
    "map t_id (threads s') = map t_id (threads s)" "next_of s' = next_of s"
    "\<forall>j. status_of j (threads s') = status_of j (threads s)" "idleThread s' = idleThread s"
    "owningThreadID (the_lock (sch_lock s')) = i"
    using switch_to_ready [OF assms(4) t] by blast
  have "sched_inv s'"
    unfolding sched_inv_def s'(2-7) sched_inv_ids [OF s'(3)]
    using assms s'(5) by auto
  with s' assms(8) show ?thesis by auto
qed

lemma status_of_check:
  "status_of i ts = Some Runnable \<Longrightarrow> status_of i (map (CheckStatus chk) ts) = Some Runnable"
  "status_of i ts = Some Special \<Longrightarrow> status_of i (map (CheckStatus chk) ts) = Some Special"
  by (cases "find_thread i ts"; simp add: status_of_def find_thread_map CheckStatus_def)+

lemma plan_and_switch_inv:
  assumes "distinct (map t_id (threads s))" "status_of (idleThread s) (threads s) = Some Special"
    and "next_of s (idleThread s) = None" "owningThreadID (the_lock (sch_lock s)) = current s"
  shows "\<exists>i s1 tok s'. PlanCycle s = Inr (i, s1) \<and> switch_to True i s1 = Inr (tok, s') \<and>
    sched_inv s' \<and> (status_of (current s') (threads s') = Some Runnable \<or> current s' = idleThread s)"
proof -
  obtain h s1 m where p: "PlanCycle s = Inr (h, s1)"
    "map t_id (threads s1) = map t_id (threads s)"
    "\<forall>i. status_of i (threads s1) = status_of i (threads s)"
    "current s1 = current s" "idleThread s1 = idleThread s" "sch_lock s1 = sch_lock s"
    "if \<exists>t \<in> set (threads s). t_status t = Runnable
     then chosen m (threads s) \<noteq> [] \<and> is_chain (next_of s1) (Some h) (map t_id (chosen m (threads s)))
     else h = idleThread s"
    "\<forall>i. i \<notin> t_id ` set (chosen m (threads s)) \<longrightarrow> next_of s1 i = next_of s i"
    using PlanCycle_spec [OF assms(1)] by blast
  have runs: "status_of (t_id t) (threads s) = Some Runnable"
    if "t \<in> set (chosen m (threads s))" for t
  proof -
    have t: "t \<in> set (threads s)" "t_status t = Runnable"
      using that by (auto simp: chosen_def)
    obtain u where u: "find_thread (t_id t) (threads s) = Some u"
      using t(1) find_thread_iff by (metis image_eqI option.exhaust)
    then have "u \<in> set (threads s)" "t_id u = t_id t"
      by (auto simp: find_thread_def find_Some_iff)
    then have "u = t"
      using t(1) assms(1) by (metis distinct_map inj_onD)
    with u t(2) show ?thesis by (simp add: status_of_def)
  qed
  then have "idleThread s \<notin> t_id ` set (chosen m (threads s))"
    using assms(2) by auto
  then have idle: "next_of s1 (idleThread s1) = None"
    using p(5,8) assms(3) by simp
  have base: "distinct (map t_id (threads s1))"
    "status_of (idleThread s1) (threads s1) = Some Special"
    "owningThreadID (the_lock (sch_lock s1)) = current s1"
    using assms p(2-6) by simp_all
  have ids: "t_id ` set (threads s1) = t_id ` set (threads s)"
    by (rule sched_inv_ids [OF p(2)])
  have "\<exists>tok s'. switch_to True h s1 = Inr (tok, s') \<and> sched_inv s' \<and>
    (status_of (current s') (threads s') = Some Runnable \<or> current s' = idleThread s1)"
  proof (cases "\<exists>t \<in> set (threads s). t_status t = Runnable")
    case True
    then obtain c cs where c: "chosen m (threads s) = c # cs" "h = t_id c"
      "is_chain (next_of s1) (next_of s1 h) (map t_id cs)"
      using p(7) by (cases "chosen m (threads s)") auto
    have sub: "set (chosen m (threads s)) \<subseteq> set (threads s)" by (auto simp: chosen_def)
    show ?thesis
    proof (rule switch_to_inv [OF base(1,2) idle base(3) _ c(3)])
      show "h \<in> t_id ` set (threads s1)" using c(1,2) sub ids by auto
      show "set (map t_id cs) \<subseteq> t_id ` set (threads s1)" using c(1) sub ids by auto
      show "status_of h (threads s1) = Some Runnable \<or> h = idleThread s1"
        using runs [of c] c(1,2) p(3) by simp
    qed
  next
    case False
    then have h: "h = idleThread s1" using p(5,7) by simp
    have "idleThread s1 \<in> t_id ` set (threads s1)"
      using base(2) find_thread_iff [of "idleThread s1" "threads s1"] by (auto simp: status_of_def)
    then show ?thesis
      unfolding h using idle by (intro switch_to_inv [OF base(1,2) idle base(3), where cs = "[]"]) auto
  qed
  with p show ?thesis by auto
qed

lemma plan_and_switch:
  assumes "sched_inv s"
  shows "\<exists>i s1 tok s'. PlanCycle s = Inr (i, s1) \<and> switch_to True i s1 = Inr (tok, s') \<and>
    sched_inv s' \<and> (status_of (current s') (threads s') = Some Runnable \<or> current s' = idleThread s)"
  using assms by (intro plan_and_switch_inv) (simp_all add: sched_inv_def)

text \<open>The body of \<open>Schedule\<close> once the token is stored, branch by branch.\<close>

lemma Schedule_unfold:
  assumes "s1 = s\<lparr>yieldSchedule := False,
    threads := upd_thread (current s) (\<lambda>t. t\<lparr>stackToken := tok\<rparr>) (threads s)\<rparr>"
    and "ts = (if yieldSchedule s then threads s1 else map (CheckStatus chk) (threads s1))"
    and "s2 = s1\<lparr>threads := ts\<rparr>"
    and "next_runnable (threads s1) (next_of s1) (next_of s1 (current s1)) = Some (Inr r)"
  shows "Schedule chk True tok s = Some (case r of
      Some i \<Rightarrow> switch_to True i s1
    | None \<Rightarrow> (case current_thread s1 of None \<Rightarrow> Inl Undefined
        | Some c \<Rightarrow> (if yieldSchedule s \<or> t_status c \<noteq> Runnable \<or>
                      (\<exists>t \<in> set ts. t_status t = Runnable \<and> t_id t \<noteq> current s1)
               then bind_result (PlanCycle s2) (\<lambda>(i, s3). switch_to True i s3)
               else Inr (tok, s2\<lparr>threads := upd_thread (current s2) charge (threads s2)\<rparr>))))"
  using assms(4)
  unfolding Schedule_def Let_def assms(1) [symmetric] assms(2) [symmetric] assms(3) [symmetric]
  by (auto split: option.split)

lemma sched_inv_chain:
  assumes "sched_inv s"
  shows "\<exists>cs r. is_chain (next_of s) (next_of s (current s)) cs \<and> set cs \<subseteq> t_id ` set (threads s) \<and>
    next_runnable (threads s) (next_of s) (next_of s (current s)) = Some (Inr r) \<and>
    (case r of None \<Rightarrow> True
     | Some i \<Rightarrow> \<exists>t post. find_thread i (threads s) = Some t \<and> t_status t = Runnable \<and> i \<in> set cs \<and>
         set post \<subseteq> set cs \<and> is_chain (next_of s) (next_of s i) post)"
proof -
  obtain cs where cs: "is_chain (next_of s) (next_of s (current s)) cs"
    "set cs \<subseteq> t_id ` set (threads s)"
    using assms unfolding sched_inv_def by blast
  then have ids: "\<forall>i \<in> set cs. find_thread i (threads s) \<noteq> None"
    unfolding find_thread_iff by blast
  show ?thesis
    using cs next_runnable_chain [OF cs(1) ids] by blast
qed

lemma Schedule_inv:
  assumes inv: "sched_inv s"
  shows "\<exists>tok' s'. Schedule chk True tok s = Some (Inr (tok', s')) \<and> sched_inv s' \<and>
    (status_of (current s') (threads s') = Some Runnable \<or> current s' = idleThread s)"
proof -
  define s1 where s1: "s1 = s\<lparr>yieldSchedule := False,
    threads := upd_thread (current s) (\<lambda>t. t\<lparr>stackToken := tok\<rparr>) (threads s)\<rparr>"
  have inv1: "sched_inv s1"
    unfolding s1 using inv by (intro sched_inv_cong [OF inv]) (simp_all add: sched_inv_def)
  have keep: "idleThread s1 = idleThread s" "current s1 = current s" by (simp_all add: s1)
  obtain cs r where cs: "is_chain (next_of s1) (next_of s1 (current s1)) cs"
    "set cs \<subseteq> t_id ` set (threads s1)" and
    r: "next_runnable (threads s1) (next_of s1) (next_of s1 (current s1)) = Some (Inr r)"
    "case r of None \<Rightarrow> True
     | Some i \<Rightarrow> \<exists>t post. find_thread i (threads s1) = Some t \<and> t_status t = Runnable \<and> i \<in> set cs \<and>
         set post \<subseteq> set cs \<and> is_chain (next_of s1) (next_of s1 i) post"
    using sched_inv_chain [OF inv1] by (elim exE conjE) (rule that)
  define ts where ts: "ts = (if yieldSchedule s then threads s1 else map (CheckStatus chk) (threads s1))"
  define s2 where s2: "s2 = s1\<lparr>threads := ts\<rparr>"
  note body = Schedule_unfold [OF s1 ts s2 r(1)]
  show ?thesis
  proof (cases r)
    case (Some i)
    then obtain t post where post: "find_thread i (threads s1) = Some t" "t_status t = Runnable"
      "i \<in> set cs" "set post \<subseteq> set cs" "is_chain (next_of s1) (next_of s1 i) post"
      using r(2) by auto
    have "\<exists>tok' s'. switch_to True i s1 = Inr (tok', s') \<and> sched_inv s' \<and>
        (status_of (current s') (threads s') = Some Runnable \<or> current s' = idleThread s1)"
    proof (rule switch_to_inv [OF _ _ _ _ _ post(5)])
      show "i \<in> t_id ` set (threads s1)" "set post \<subseteq> t_id ` set (threads s1)"
        using cs(2) post(3,4) by auto
      show "status_of i (threads s1) = Some Runnable \<or> i = idleThread s1"
        using post(1,2) by (simp add: status_of_def)
    qed (use inv1 in \<open>simp_all add: sched_inv_def\<close>)
    then obtain tok' s' where p: "switch_to True i s1 = Inr (tok', s')" "sched_inv s'"
      "status_of (current s') (threads s') = Some Runnable \<or> current s' = idleThread s1"
      by (elim exE conjE) (rule that)
    have "Schedule chk True tok s = Some (Inr (tok', s'))"
      using body Some p(1) by simp
    with p(2,3) show ?thesis
      by (intro exI [of _ tok'] exI [of _ s'] conjI) (simp_all add: keep)
  next
    case None
    have inv2: "sched_inv s2"
      using inv1 status_of_check(2) [of "idleThread s1" "threads s1" chk]
      by (intro sched_inv_cong [OF inv1]) (simp_all add: sched_inv_def comp_def s2 ts)
    obtain c where c: "current_thread s1 = Some c"
      using inv1 find_thread_iff [of "current s1" "threads s1"]
      unfolding sched_inv_def current_thread_def by auto
    let ?should = "yieldSchedule s \<or> t_status c \<noteq> Runnable \<or>
      (\<exists>t \<in> set ts. t_status t = Runnable \<and> t_id t \<noteq> current s1)"
    show ?thesis
    proof (cases ?should)
      case True
      obtain i s3 tok' s' where p: "PlanCycle s2 = Inr (i, s3)" "switch_to True i s3 = Inr (tok', s')"
        "sched_inv s'" "status_of (current s') (threads s') = Some Runnable \<or> current s' = idleThread s1"
        using plan_and_switch [OF inv2] by (elim exE conjE) (rule that, simp_all add: s2)
      have "Schedule chk True tok s = Some (Inr (tok', s'))"
        using body None c True p(1,2) by simp
      with p(3,4) show ?thesis
        by (intro exI [of _ tok'] exI [of _ s'] conjI) (simp_all add: keep)
    next
      case False
      let ?s3 = "s2\<lparr>threads := upd_thread (current s2) charge (threads s2)\<rparr>"
      have inv3: "sched_inv ?s3"
        using inv2 by (intro sched_inv_cong [OF inv2]) (simp_all add: sched_inv_def)
      have "status_of (current s1) (threads s1) = Some Runnable"
        using False c by (simp add: current_thread_def status_of_def)
      then have runs: "status_of (current ?s3) (threads ?s3) = Some Runnable"
        using False status_of_check(1) [of "current s1" "threads s1" chk] by (simp add: s2 ts)
      have "Schedule chk True tok s = Some (Inr (tok, ?s3))"
        using body None c False by auto
      with inv3 runs show ?thesis
        by (intro exI [of _ tok] exI [of _ ?s3] conjI disjI1)
    qed
  qed
qed

section \<open>The reaper\<close>

definition reapable :: "thread \<Rightarrow> bool" where
  "reapable t \<longleftrightarrow> t_status t = Ending \<and> refCount t = 0"

definition reap_mark :: "thread \<Rightarrow> thread" where
  "reap_mark t = (if t_status t = Ending then t\<lparr>awaitingDestruction := True\<rparr> else t)"

lemma reapable_mark [simp]: "reapable (reap_mark t) = reapable t" "reap_mark (reap_mark t) = reap_mark t"
  by (simp_all add: reapable_def reap_mark_def)

lemma reap_scan_spec:
  "reap_scan ts =
     (case find_index reapable ts of
        None \<Rightarrow> (map reap_mark ts, None)
      | Some k \<Rightarrow> (map reap_mark (take k ts) @ drop (Suc k) ts, Some (ts ! k)))"
proof (induction ts)
  case Nil
  then show ?case by simp
next
  case (Cons t ts)
  then show ?case
    by (auto simp: reapable_def reap_mark_def word_gt_0 split: option.splits)
qed

lemma filter_find_index:
  "find_index P xs = Some k \<Longrightarrow> filter P xs = xs ! k # filter P (drop (Suc k) xs) \<and>
     filter P (take k xs) = [] \<and> filter (\<lambda>x. \<not> P x) (take k xs) = take k xs"
  by (induction xs arbitrary: k) (auto split: if_splits)

lemma reap_all_spec:
  "reap_all ts = (filter reapable ts, map reap_mark (filter (\<lambda>t. \<not> reapable t) ts))"
proof (induction ts rule: reap_all.induct)
  case (1 ts)
  show ?case
  proof (cases "find_index reapable ts")
    case None
    then have "filter reapable ts = []" "filter (\<lambda>t. \<not> reapable t) ts = ts"
      by (auto simp: find_index_None_iff filter_empty_conv filter_id_conv)
    with None show ?thesis
      by (subst reap_all.simps) (simp add: reap_scan_spec)
  next
    case (Some k)
    let ?ts' = "map reap_mark (take k ts) @ drop (Suc k) ts"
    have scan: "reap_scan ts = (?ts', Some (ts ! k))"
      using Some by (simp add: reap_scan_spec)
    have IH: "reap_all ?ts' = (filter reapable ?ts', map reap_mark (filter (\<lambda>t. \<not> reapable t) ?ts'))"
      using 1 [OF scan [symmetric] refl] by simp
    have k: "k < length ts" "reapable (ts ! k)"
      using find_index_SomeD [OF Some] by auto
    have split: "ts = take k ts @ ts ! k # drop (Suc k) ts"
      using k(1) by (rule id_take_nth_drop)
    note fi = filter_find_index [OF Some]
    have f1: "filter reapable ?ts' = filter reapable (drop (Suc k) ts)"
      using fi by (simp add: filter_map comp_def)
    have "filter (\<lambda>t. \<not> reapable t) ts =
        take k ts @ filter (\<lambda>t. \<not> reapable t) (drop (Suc k) ts)"
      using fi k(2) by (subst split) simp
    moreover have "filter (\<lambda>t. \<not> reapable t) ?ts' =
        map reap_mark (take k ts) @ filter (\<lambda>t. \<not> reapable t) (drop (Suc k) ts)"
      using fi by (simp add: filter_map comp_def)
    ultimately show ?thesis
      using fi scan IH f1 by (subst reap_all.simps) (simp add: comp_def)
  qed
qed

lemma is_chain_unique: "is_chain nx p xs \<Longrightarrow> is_chain nx p ys \<Longrightarrow> xs = ys"
proof (induction xs arbitrary: p ys)
  case Nil
  then show ?case by (cases ys) auto
next
  case (Cons x xs)
  then show ?case by (cases ys) auto
qed

lemma is_chain_distinct: "is_chain nx p cs \<Longrightarrow> distinct cs"
proof (induction cs arbitrary: p)
  case Nil
  then show ?case by simp
next
  case (Cons c cs)
  have "c \<notin> set cs"
  proof
    assume "c \<in> set cs"
    then obtain as bs where cs: "cs = as @ c # bs" by (auto dest: split_list)
    then have "is_chain nx (Some c) (c # bs)" "is_chain nx (Some c) (c # cs)"
      using Cons.prems is_chain_suffix [of nx "nx c" as c bs] by auto
    then have "bs = cs" using is_chain_unique by blast
    with cs show False by simp
  qed
  with Cons show ?case by auto
qed

text \<open>What the reaper does to the scheduler: the invariant of scheduling survives, provided that
  neither the running thread (the reaper itself) nor the idle thread is ending.\<close>

lemma reap_scan_ids:
  assumes "reap_scan ts = (ts', Some t)" "distinct (map t_id ts)"
  shows "reapable t \<and> t_id ` set ts' = t_id ` set ts - {t_id t} \<and> distinct (map t_id ts') \<and> t \<in> set ts"
proof -
  obtain k where k: "find_index reapable ts = Some k" "ts' = map reap_mark (take k ts) @ drop (Suc k) ts"
    "t = ts ! k"
    using assms(1) by (auto simp: reap_scan_spec split: option.splits)
  then have lt: "k < length ts" "reapable (ts ! k)" using find_index_SomeD by auto
  have "map t_id ts = map t_id (take k ts) @ t_id t # map t_id (drop (Suc k) ts)"
    using lt(1) k(3) id_take_nth_drop [OF lt(1)] by (metis list.simps(9) map_append)
  moreover have "map t_id ts' = map t_id (take k ts) @ map t_id (drop (Suc k) ts)"
    using k(2) by (simp add: comp_def reap_mark_def)
  moreover have "t_id ` set ts = set (map t_id ts)" "t_id ` set ts' = set (map t_id ts')" by simp_all
  ultimately show ?thesis
    using assms(2) lt k(3) by (auto simp del: set_map)
qed

lemma reap_scan_keeps:
  assumes "reap_scan ts = (ts', r)" "status_of i ts = Some st" "st \<noteq> Ending" "distinct (map t_id ts)"
  shows "status_of i ts' = Some st"
  using assms
proof (induction ts arbitrary: ts' r)
  case Nil
  then show ?case by (simp add: status_of_def find_thread_def)
next
  case (Cons t ts)
  then show ?case
    by (auto simp: status_of_def find_thread_def split: if_splits prod.splits)
qed


lemma TheReaperThread_spec:
  assumes "sched_inv s" "status_of (current s) (threads s) = Some st" "st \<noteq> Ending"
  shows "\<exists>s'. TheReaperThread s = Some s' \<and> sched_inv s' \<and> current s' = current s \<and>
    threads s' = map reap_mark (filter (\<lambda>t. \<not> reapable t) (threads s))"
  using assms
proof (induction "length (threads s)" arbitrary: s rule: less_induct)
  case less
  note inv = less.prems(1)
  obtain ts' r where scan: "reap_scan (threads s) = (ts', r)" by fastforce
  have all: "reap_all (threads s) = (filter reapable (threads s),
      map reap_mark (filter (\<lambda>t. \<not> reapable t) (threads s)))"
    by (rule reap_all_spec)
  show ?case
  proof (cases r)
    case None
    have eq: "TheReaperThread s = Some (s\<lparr>threads := ts'\<rparr>)"
      using scan None by (subst TheReaperThread.simps) simp
    have ts': "ts' = map reap_mark (threads s)" "filter (\<lambda>t. \<not> reapable t) (threads s) = threads s"
      using scan None by (auto simp: reap_scan_spec find_index_None_iff filter_id_conv split: option.splits)
    have "sched_inv (s\<lparr>threads := ts'\<rparr>)"
      using inv ts'(1) by (intro sched_inv_cong [OF inv]) (auto simp: sched_inv_def comp_def reap_mark_def
          status_of_map [of reap_mark])
    with eq ts' show ?thesis by simp
  next
    case (Some t)
    have dist: "distinct (map t_id (threads s))"
      and idle: "status_of (idleThread s) (threads s) = Some Special" "next_of s (idleThread s) = None"
      using inv by (simp_all add: sched_inv_def)
    note ids = reap_scan_ids [OF scan [unfolded Some] dist]
    obtain cs where cs: "is_chain (next_of s) (next_of s (current s)) cs"
      "set cs \<subseteq> t_id ` set (threads s)"
      using inv unfolding sched_inv_def by blast
    have dcs: "distinct (current s # cs)"
      using cs(1) by (intro is_chain_distinct [of "next_of s" "Some (current s)"]) simp
    have curr: "t_id t \<noteq> current s"
      using ids less.prems(2,3) find_thread_member [OF dist, of t]
      by (auto simp: status_of_def reapable_def)
    obtain nx where nx: "reap_unlink (t_id t) (Some (current s)) (next_of s) = Some nx"
      "is_chain nx (nx (current s)) (filter ((\<noteq>) (t_id t)) cs)"
      "\<forall>i. next_of s i \<noteq> Some (t_id t) \<longrightarrow> nx i = next_of s i"
      using reap_unlink_chain [OF cs(1) dcs curr] by (elim exE conjE) (rule that)
    let ?s = "s\<lparr>threads := ts', next_of := nx\<rparr>"
    have step: "TheReaperThread s = TheReaperThread ?s"
      using scan Some nx(1) by (subst TheReaperThread.simps) simp
    have ts': "length ts' < length (threads s)"
      using reap_scan_shrinks [OF scan [unfolded Some]] by simp
    have marks: "map reap_mark (filter (\<lambda>t. \<not> reapable t) ts') =
        map reap_mark (filter (\<lambda>t. \<not> reapable t) (threads s))"
      using all reap_all_spec [of ts'] scan Some by (simp add: reap_all.simps [of "threads s"])
    have "sched_inv ?s"
      unfolding sched_inv_def
    proof (intro conjI)
      show "current ?s \<in> t_id ` set (threads ?s)" using ids curr inv by (simp add: sched_inv_def)
      show "status_of (idleThread ?s) (threads ?s) = Some Special"
        using reap_scan_keeps [OF scan idle(1) _ dist] by simp
      show "\<exists>cs. is_chain (next_of ?s) (next_of ?s (current ?s)) cs \<and> set cs \<subseteq> t_id ` set (threads ?s)"
        using nx(2) ids cs(2) by (intro exI [of _ "filter ((\<noteq>) (t_id t)) cs"]) auto
    qed (use ids idle(2) nx(3) inv in \<open>simp_all add: sched_inv_def\<close>)
    moreover have "status_of (current ?s) (threads ?s) = Some st"
      using reap_scan_keeps [OF scan less.prems(2,3) dist] by simp
    ultimately obtain s' where s': "TheReaperThread ?s = Some s'" "sched_inv s'" "current s' = current ?s"
      "threads s' = map reap_mark (filter (\<lambda>t. \<not> reapable t) (threads ?s))"
      using less.hyps [of ?s] less.prems(3) ts' by simp (elim exE conjE, rule that, simp_all)
    then show ?thesis
      using step marks by (intro exI [of _ s']) simp
  qed
qed


section \<open>Properties\<close>

text \<open>C4. Planning a cycle never panics, whatever the threads' states. When threads are runnable, the
  chain it builds from the thread it returns consists of exactly the runnable threads of least
  dynamic priority, in the order of the vector; otherwise the idle thread is returned. The status
  of every thread is untouched.\<close>

theorem plan_cycle_chains_least:
  assumes "distinct (map t_id (threads s))"
  shows "\<exists>h s' m. PlanCycle s = Inr (h, s') \<and>
    (\<forall>i. status_of i (threads s') = status_of i (threads s)) \<and>
    (\<forall>t \<in> set (threads s). t_status t = Runnable \<longrightarrow> m \<le> dynamicPriority t) \<and>
    (if \<exists>t \<in> set (threads s). t_status t = Runnable
     then chosen m (threads s) \<noteq> [] \<and> is_chain (next_of s') (Some h) (map t_id (chosen m (threads s)))
     else h = idleThread s)"
  using PlanCycle_spec [OF assms] by (elim exE conjE) (intro exI conjI, assumption+)

definition demo_scheduler :: scheduler where
  "demo_scheduler =
     \<lparr>threads = [thread_default\<lparr>t_id := 1, t_status := Blocked, t_pid := 7\<rparr>,
                 thread_default\<lparr>t_id := 2, t_status := Special\<rparr>,
                 thread_default\<lparr>t_id := 3\<rparr>,
                 thread_default\<lparr>t_id := 4, t_pid := 7\<rparr>,
                 thread_default\<lparr>t_id := 5, t_status := Ending\<rparr>],
      next_of = (\<lambda>i. if i = 3 then Some 4 else if i = 4 then Some 5 else None), current = 3,
      sch_idCounter = 5, scheduleCyle = 1, yieldSchedule = False,
      sch_lock = \<lparr>the_lock = \<lparr>owningThreadID = 3, recursionCount = 1, lk_waiting = False\<rparr>,
        thread_locks = (\<lambda>_. 0)(3 := 1)\<rparr>,
      idleThread = 2, reaperThread = 3\<rparr>"

theorem plan_cycle_chains_least_witness:
  "\<exists>h s' m. PlanCycle demo_scheduler = Inr (h, s') \<and>
    (\<forall>i. status_of i (threads s') = status_of i (threads demo_scheduler)) \<and>
    (\<forall>t \<in> set (threads demo_scheduler). t_status t = Runnable \<longrightarrow> m \<le> dynamicPriority t) \<and>
    (if \<exists>t \<in> set (threads demo_scheduler). t_status t = Runnable
     then chosen m (threads demo_scheduler) \<noteq> [] \<and>
       is_chain (next_of s') (Some h) (map t_id (chosen m (threads demo_scheduler)))
     else h = idleThread demo_scheduler)"
  by (rule plan_cycle_chains_least) (simp add: demo_scheduler_def thread_default_def)



lemma demo_scheduler_inv: "sched_inv demo_scheduler"
  unfolding sched_inv_def
proof (intro conjI)
  show "\<exists>cs. is_chain (next_of demo_scheduler) (next_of demo_scheduler (current demo_scheduler)) cs \<and>
      set cs \<subseteq> t_id ` set (threads demo_scheduler)"
    by (intro exI [of _ "[4, 5]"]) (simp add: demo_scheduler_def)
qed (simp_all add: demo_scheduler_def thread_default_def status_of_def find_thread_def)


text \<open>Stopping a process for debugging leaves none of its threads runnable and touches no other
  thread; resuming it gives back exactly the state before, if no thread was stopped already. The
  process of the running thread cannot be stopped: that panics.\<close>

theorem debug_stop_resume:
  assumes "\<forall>t \<in> set (threads s). t_pid t = pid \<longrightarrow> t_status t \<noteq> DebugStopped \<and> t_status t \<noteq> DebugBlocked"
  shows "(case DebugStopThreadsByPID pid s of
      Inl e \<Rightarrow> e = Panic ''(SCH) Cannot debug-stop current PID!'' \<and>
        map_option t_pid (current_thread s) = Some pid
    | Inr s' \<Rightarrow> map_option t_pid (current_thread s) \<noteq> Some pid \<and>
        (\<forall>t \<in> set (threads s'). t_pid t = pid \<longrightarrow> t_status t \<noteq> Runnable \<and> t_status t \<noteq> Blocked) \<and>
        filter (\<lambda>t. t_pid t \<noteq> pid) (threads s') = filter (\<lambda>t. t_pid t \<noteq> pid) (threads s) \<and>
        DebugResumeThreadsByPID pid s' = s)"
proof -
  have "debug_resume pid (debug_stop pid t) = t" if "t \<in> set (threads s)" for t
    using assms that by (cases "t_pid t = pid"; cases "t_status t") (simp_all add: debug_stop_def debug_resume_def)
  then have undoes: "map (debug_resume pid) (map (debug_stop pid) (threads s)) = threads s"
    by (simp add: map_idI)
  have others: "filter (\<lambda>t. t_pid t \<noteq> pid) (map (debug_stop pid) ts) = filter (\<lambda>t. t_pid t \<noteq> pid) ts" for ts
    by (induction ts) (auto simp: debug_stop_def)
  have stopped: "t_pid (debug_stop pid t) = pid \<longrightarrow>
      t_status (debug_stop pid t) \<noteq> Runnable \<and> t_status (debug_stop pid t) \<noteq> Blocked" for t
    by (simp add: debug_stop_def)
  show ?thesis
  proof (cases "map_option t_pid (current_thread s) = Some pid")
    case True
    then show ?thesis unfolding DebugStopThreadsByPID_def by simp
  next
    case False
    then have "DebugStopThreadsByPID pid s = Inr (s\<lparr>threads := map (debug_stop pid) (threads s)\<rparr>)"
      unfolding DebugStopThreadsByPID_def by simp
    moreover have "DebugResumeThreadsByPID pid (s\<lparr>threads := map (debug_stop pid) (threads s)\<rparr>) = s"
      using undoes by (simp add: DebugResumeThreadsByPID_def)
    ultimately show ?thesis
      using False others stopped by simp
  qed
qed

theorem debug_stop_resume_witness:
  "\<exists>s'. DebugStopThreadsByPID 7 demo_scheduler = Inr s' \<and> DebugResumeThreadsByPID 7 s' = demo_scheduler"
proof -
  have "\<forall>t \<in> set (threads demo_scheduler). t_pid t = 7 \<longrightarrow>
      t_status t \<noteq> DebugStopped \<and> t_status t \<noteq> DebugBlocked"
    by (simp add: demo_scheduler_def thread_default_def)
  note here = debug_stop_resume [OF this]
  have "map_option t_pid (current_thread demo_scheduler) \<noteq> Some 7"
    by (simp add: current_thread_def find_thread_def demo_scheduler_def thread_default_def)
  then obtain s' where "DebugStopThreadsByPID 7 demo_scheduler = Inr s'"
    by (simp add: DebugStopThreadsByPID_def)
  with here show ?thesis by simp
qed

text \<open>C9. The reaper ends: it removes exactly the threads that are ending and to which nobody refers,
  marks those that are ending and still referred to, and leaves all others alone; the scheduler
  stays consistent, so no \<open>next\<close> pointer of the current cycle leads to a destroyed thread.\<close>

theorem reaper_removes_dead:
  assumes "sched_inv s" "status_of (current s) (threads s) = Some Runnable"
  shows "\<exists>s'. TheReaperThread s = Some s' \<and> sched_inv s' \<and>
    threads s' = map (\<lambda>t. if t_status t = Ending then t\<lparr>awaitingDestruction := True\<rparr> else t)
      (filter (\<lambda>t. \<not> (t_status t = Ending \<and> refCount t = 0)) (threads s))"
  using TheReaperThread_spec [OF assms thread_status.distinct(7)] unfolding reap_mark_def reapable_def
  by (elim exE conjE) (intro exI conjI, assumption+)

theorem reaper_removes_dead_witness:
  "\<exists>s'. TheReaperThread demo_scheduler = Some s' \<and> sched_inv s' \<and> map t_id (threads s') = [1, 2, 3, 4]"
proof -
  have "status_of (current demo_scheduler) (threads demo_scheduler) = Some Runnable"
    by (simp add: demo_scheduler_def thread_default_def status_of_def find_thread_def)
  from reaper_removes_dead [OF demo_scheduler_inv this] obtain s' where s':
    "TheReaperThread demo_scheduler = Some s'" "sched_inv s'"
    "threads s' = map (\<lambda>t. if t_status t = Ending then t\<lparr>awaitingDestruction := True\<rparr> else t)
      (filter (\<lambda>t. \<not> (t_status t = Ending \<and> refCount t = 0)) (threads demo_scheduler))"
    by (elim exE conjE) (rule that)
  then show ?thesis
    by (intro exI [of _ s'] conjI) (simp_all add: demo_scheduler_def thread_default_def)
qed

end
