(* ===== verification/Vfs.thy ===== *)
theory Vfs
  imports Ministl Kstring
begin

text \<open>
  Paths, mount points and filesystem types, src/src/kernel/filesystems.cpp. A pointer to a
  mounted filesystem or a filesystem is a value of type \<open>'m option\<close>, \<open>None\<close> for null. Every
  method of the two managers holds the manager's lock while it uses the map and is modelled as
  one step on it. What a mounted filesystem finds under a path is the parameter \<open>node_of\<close>.
\<close>

section \<open>Names and paths\<close>

definition validNameChars :: string where
  "validNameChars = ''ABCDEFGHIJKLMNOPQRSTUVWXYZabcdefghijklmnopqrstuvwxyz_1234567890''"

text \<open>The inner loop: it advances through the valid characters until it meets the character, and
  fails when it has used them up.\<close>

(* src/src/kernel/filesystems.cpp:12-16 IsNameValid *)
fun name_char_ok :: "char \<Rightarrow> string \<Rightarrow> bool" where
  "name_char_ok c [] = False"
| "name_char_ok c (s # search) =
     (if c \<noteq> s then (if search = [] then False else name_char_ok c search) else True)"

(* src/src/kernel/filesystems.cpp:11-19 IsNameValid *)
fun name_scan :: "string \<Rightarrow> nat \<Rightarrow> bool" where
  "name_scan [] len = (len > 0)"
| "name_scan (c # name) len =
     (if \<not> name_char_ok c validNameChars then False else name_scan name (Suc len))"

(* src/src/kernel/filesystems.cpp:7-20 IsNameValid *)
definition IsNameValid :: "string option \<Rightarrow> bool" where
  "IsNameValid name = (case name of None \<Rightarrow> False | Some n \<Rightarrow> name_scan n 0)"

text \<open>The scan from the end for a separator; position 0 counts as none.\<close>

(* src/src/kernel/filesystems.cpp:36-42 Path::GetParent *)
fun last_separator :: "string \<Rightarrow> nat \<Rightarrow> nat" where
  "last_separator path 0 = 0"
| "last_separator path (Suc i) =
     (if path ! i = CHR ''/'' \<or> path ! i = CHR '':'' then i else last_separator path i)"

(* src/src/kernel/filesystems.cpp:34-49 Path::GetParent *)
definition GetParent :: "string \<Rightarrow> string result" where
  "GetParent path =
     (let pos = last_separator path (length path)
      in if pos \<noteq> 0 then str_substr path 0 (pos + 1) else Inr [])"

(* src/src/kernel/filesystems.cpp:50-65 Path::GetLeaf *)
definition GetLeaf :: "string \<Rightarrow> string result" where
  "GetLeaf path =
     (let pos = last_separator path (length path)
      in if pos \<noteq> 0 then str_substr path (pos + 1) (length path - (pos + 1)) else Inr [])"

section \<open>Mounted filesystems\<close>

type_synonym 'm mounts = "(string, 'm option) kmap"

(* src/src/kernel/filesystems.cpp:88-95 VirtualFilesystem::Attach *)
definition vfs_Attach :: "'m mounts \<Rightarrow> string option \<Rightarrow> 'm option \<Rightarrow> bool \<times> 'm mounts" where
  "vfs_Attach mounts name mount =
     (case name of
        None \<Rightarrow> (False, mounts)
      | Some n \<Rightarrow>
          if \<not> IsNameValid name then (False, mounts)
          else let sname = to_upper n
               in if map_has_key mounts sname then (False, mounts)
                  else (True, map_assign mounts sname mount))"

(* src/src/kernel/filesystems.cpp:97-104 VirtualFilesystem::Detach *)
definition vfs_Detach :: "'m mounts \<Rightarrow> string \<Rightarrow> 'm option \<times> 'm mounts" where
  "vfs_Detach mounts name =
     (let sname = to_upper name
      in if \<not> map_has_key mounts sname then (None, mounts)
         else (fst (map_index None mounts sname), map_erase mounts sname))"

text \<open>The test upper-cases the name, the access does not.\<close>

(* src/src/kernel/filesystems.cpp:106-111 VirtualFilesystem::GetByName *)
definition vfs_GetByName :: "'m mounts \<Rightarrow> string option \<Rightarrow> 'm option \<times> 'm mounts" where
  "vfs_GetByName mounts name =
     (case name of
        None \<Rightarrow> (None, mounts)
      | Some n \<Rightarrow>
          if \<not> IsNameValid name then (None, mounts)
          else if \<not> map_has_key mounts (to_upper n) then (None, mounts)
          else map_index None mounts n)"

text \<open>A mount name in the map whose pointer is null is dereferenced.\<close>

(* src/src/kernel/filesystems.cpp:113-137 VirtualFilesystem::GetNode *)
definition vfs_GetNode ::
  "('m \<Rightarrow> string \<Rightarrow> 'n option) \<Rightarrow> 'm mounts \<Rightarrow> string \<Rightarrow> 'n option result" where
  "vfs_GetNode node_of mounts path =
     (let mountName = takeWhile (\<lambda>c. c \<noteq> CHR '':'') path;
          rest = dropWhile (\<lambda>c. c \<noteq> CHR '':'') path
      in if rest = [] \<or> \<not> IsNameValid (Some mountName) then Inr None
         else if length path < length mountName + 2 then Inr None
         else bind_result (str_substr path (length mountName + 1) (length path - length mountName - 1))
           (\<lambda>pathPart.
              let upperMountName = to_upper mountName
              in if \<not> map_has_key mounts upperMountName then Inr None
                 else case fst (map_index None mounts upperMountName) of
                        None \<Rightarrow> Inl Undefined
                      | Some mount \<Rightarrow> Inr (node_of mount pathPart)))"

section \<open>Filesystem types\<close>

type_synonym 'f filesystems = "(string, 'f option) kmap"

(* src/src/kernel/filesystems.cpp:155-158 FilesystemManager::RegisterFilesystem *)
definition RegisterFilesystem :: "'f filesystems \<Rightarrow> string \<Rightarrow> 'f option \<Rightarrow> 'f filesystems" where
  "RegisterFilesystem fss name fs =
     (if IsNameValid (Some name) \<and> \<not> map_has_key fss name then map_assign fss name fs else fss)"

(* src/src/kernel/filesystems.cpp:160-168 FilesystemManager::UnRegisterFileystem *)
definition UnRegisterFileystem :: "'f filesystems \<Rightarrow> string \<Rightarrow> 'f option \<times> 'f filesystems" where
  "UnRegisterFileystem fss name =
     (if map_has_key fss name then (fst (map_index None fss name), map_erase fss name)
      else (None, fss))"

(* src/src/kernel/filesystems.cpp:170-175 FilesystemManager::GetByName *)
definition fsm_GetByName :: "'f filesystems \<Rightarrow> string \<Rightarrow> 'f option" where
  "fsm_GetByName fss name =
     (if \<not> IsNameValid (Some name) then None
      else if map_has_key fss name then fst (map_index None fss name) else None)"

(* src/src/kernel/filesystems.cpp:177-182 FilesystemManager::FilesystemName *)
definition FilesystemName :: "'f filesystems \<Rightarrow> 'f option \<Rightarrow> string" where
  "FilesystemName fss fs =
     (case List.find (\<lambda>e. fs = snd e) (m_data fss) of Some e \<Rightarrow> fst e | None \<Rightarrow> ''Unknown'')"

section \<open>Behaviour\<close>

lemma name_char_ok_iff: "name_char_ok c search \<longleftrightarrow> c \<in> set search"
  by (induction search) auto

lemma name_scan_iff:
  "name_scan name len \<longleftrightarrow> (0 < len \<or> name \<noteq> []) \<and> set name \<subseteq> set validNameChars"
  by (induction name arbitrary: len) (auto simp: name_char_ok_iff)

lemma IsNameValid_iff:
  "IsNameValid (Some name) \<longleftrightarrow> name \<noteq> [] \<and> set name \<subseteq> set validNameChars"
  by (simp add: IsNameValid_def name_scan_iff)

lemma colon_not_valid: "CHR '':'' \<notin> set validNameChars"
  by (simp add: validNameChars_def)

lemma last_separator_bound: "last_separator path i < i \<or> last_separator path i = 0"
  by (induction i) auto

lemma last_separator_after:
  "last_separator path i < j \<Longrightarrow> j < i \<Longrightarrow> path ! j \<noteq> CHR ''/'' \<and> path ! j \<noteq> CHR '':''"
  by (induction i) (auto split: if_splits simp: less_Suc_eq)

lemma last_separator_is:
  "last_separator path i \<noteq> 0 \<Longrightarrow>
   path ! last_separator path i = CHR ''/'' \<or> path ! last_separator path i = CHR '':''"
  by (induction i) (auto split: if_splits)

lemma vfs_GetNode_split:
  assumes "IsNameValid (Some name)" "rest \<noteq> []"
  shows "vfs_GetNode node_of mounts (name @ CHR '':'' # rest) =
    (case map_lookup mounts (to_upper name) of
       None \<Rightarrow> Inr None
     | Some None \<Rightarrow> Inl Undefined
     | Some (Some mount) \<Rightarrow> Inr (node_of mount rest))"
proof -
  have "CHR '':'' \<notin> set name"
    using assms(1) colon_not_valid by (auto simp: IsNameValid_iff)
  then have name: "takeWhile (\<lambda>c. c \<noteq> CHR '':'') (name @ CHR '':'' # rest) = name"
    "dropWhile (\<lambda>c. c \<noteq> CHR '':'') (name @ CHR '':'' # rest) = CHR '':'' # rest"
    by (auto simp: takeWhile_append dropWhile_append)
  have "str_substr (name @ CHR '':'' # rest) (length name + 1) (length rest) = Inr rest"
    by (subst str_substr_inside) simp_all
  with assms name show ?thesis
    by (auto simp: vfs_GetNode_def Let_def map_has_key_iff map_index_eq neq_Nil_conv
        split: option.split)
qed

section \<open>Properties\<close>

text \<open>A path with a separator behind its first character is its parent followed by its leaf; the
  parent ends with a separator and the leaf holds none.\<close>

theorem path_parent_leaf:
  assumes "last_separator path (length path) \<noteq> 0"
  shows "\<exists>parent leaf. GetParent path = Inr parent \<and> GetLeaf path = Inr leaf \<and> parent @ leaf = path \<and>
    last parent \<in> {CHR ''/'', CHR '':''} \<and> CHR ''/'' \<notin> set leaf \<and> CHR '':'' \<notin> set leaf"
proof -
  let ?pos = "last_separator path (length path)"
  have pos: "?pos < length path"
    using last_separator_bound [of path "length path"] assms by auto
  have parent: "GetParent path = Inr (take (?pos + 1) path)"
    using assms pos by (simp add: GetParent_def Let_def str_substr_inside)
  have leaf: "GetLeaf path = Inr (drop (?pos + 1) path)"
    using assms pos by (simp add: GetLeaf_def Let_def str_substr_inside)
  have "last (take (?pos + 1) path) = path ! ?pos"
    using pos by (simp add: take_Suc_conv_app_nth)
  moreover have "\<forall>c \<in> set (drop (?pos + 1) path). c \<noteq> CHR ''/'' \<and> c \<noteq> CHR '':''"
  proof
    fix c
    assume "c \<in> set (drop (?pos + 1) path)"
    then obtain k where "k < length path - (?pos + 1)" "c = path ! (?pos + 1 + k)"
      by (auto simp: in_set_conv_nth)
    then show "c \<noteq> CHR ''/'' \<and> c \<noteq> CHR '':''"
      using last_separator_after [of path "length path" "?pos + 1 + k"] by simp
  qed
  ultimately show ?thesis
    using parent leaf last_separator_is [OF assms] append_take_drop_id [of "?pos + 1" path] by auto
qed

theorem path_parent_leaf_witness:
  "\<exists>parent leaf. GetParent ''HDD:/BTOS/INIT'' = Inr parent \<and> GetLeaf ''HDD:/BTOS/INIT'' = Inr leaf \<and>
     parent @ leaf = ''HDD:/BTOS/INIT''"
proof -
  have "last_separator ''HDD:/BTOS/INIT'' (length ''HDD:/BTOS/INIT'') \<noteq> 0"
    by code_simp
  from path_parent_leaf [OF this] show ?thesis by blast
qed



text \<open>Looking a filesystem up by the lower-case name under which it was attached gives null, and
  enters a null filesystem under that name in the mount table.\<close>

theorem get_by_name_lower_case:
  assumes "IsNameValid (Some name)" "to_upper name \<noteq> name" "map_lookup mounts name = None"
    and "map_lookup mounts (to_upper name) = Some (Some fs)"
  shows "fst (vfs_GetByName mounts (Some name)) = None \<and>
    map_lookup (snd (vfs_GetByName mounts (Some name))) name = Some None"
  using assms
  by (simp add: vfs_GetByName_def map_has_key_iff map_index_eq map_lookup_insert)

theorem get_by_name_lower_case_witness:
  "fst (vfs_GetByName (map_assign map_new ''HDD'' (Some ''fat'')) (Some ''hdd'')) = None"
proof -
  have up: "to_upper ''hdd'' = ''HDD''" by code_simp
  show ?thesis
    using get_by_name_lower_case [of "''hdd''" "map_assign map_new ''HDD'' (Some ''fat'')" "''fat''"]
    by (simp add: up kmap_simps IsNameValid_iff validNameChars_def)
qed

end
