(* ===== verification/Process_Objects.thy ===== *)
theory Process_Objects
  imports Kstring Handles
begin

text \<open>
  Process objects, src/src/kernel/processes/impl/process.cpp, and the permission manager,
  src/src/kernel/perms.cpp: the environment with its inherited, global, read-only and private
  variables, the table of handles with delayed closes, arguments, return values and the
  permission masks.

  Every method runs under the process's own lock, so it is a function on the record. The maps
  are those of Ministl; a handle is a pointer, of a type \<open>'h\<close>, null being \<open>None\<close>. A bit that is set
  in a permission mask takes the permission away.

  The lemmas show that user code cannot change or hide a variable of its own environment that is
  read-only or private, but that it can overwrite a read-only global one; that permissions can only
  be given up; that a handle keeps its number until it is closed, and that handles are closed in
  an order that respects their dependencies.
\<close>

section \<open>The environment\<close>

(* src/src/include/module/kernelsys/process.hpp:19-24 EnvironemntVariableFlags *)
datatype env_flag = Global | ReadOnly | Private | NoInherit

(* src/src/include/module/kernelsys/process.hpp:19-24 EnvironemntVariableFlags *)
fun env_flag_bit :: "env_flag \<Rightarrow> nat" where
  "env_flag_bit Global = 0" | "env_flag_bit ReadOnly = 1"
| "env_flag_bit Private = 2" | "env_flag_bit NoInherit = 3"

definition has_flag :: "u8 \<Rightarrow> env_flag \<Rightarrow> bool" where
  "has_flag flags f \<longleftrightarrow> bit flags (env_flag_bit f)"

(* src/src/kernel/processes/impl/process.hpp:12-16 Environment::EnvironmentVariable *)
record env_var =
  ev_value :: string
  ev_flags :: u8

type_synonym env = "(string, env_var) kmap"

text \<open>The part of \<open>SetEnvironmentVariable\<close> that acts on the process's own map; an empty value removes
  the variable.\<close>

(* src/src/kernel/processes/impl/process.cpp:17-34 Environment::SetEnvironmentVariable *)
definition env_set :: "string \<Rightarrow> string \<Rightarrow> u8 \<Rightarrow> bool \<Rightarrow> env \<Rightarrow> env" where
  "env_set name val flags userspace e =
     (let upperName = to_upper name;
          stored = (if val \<noteq> [] then map_assign e upperName \<lparr>ev_value = val, ev_flags = flags\<rparr>
                    else if map_has_key e upperName then map_erase e upperName else e)
      in if userspace
         then (if has_flag flags Private then e
               else case map_lookup e upperName of
                      Some v \<Rightarrow> if has_flag (ev_flags v) Private \<or> has_flag (ev_flags v) ReadOnly then e
                                else stored
                    | None \<Rightarrow> stored)
         else stored)"

(* src/src/kernel/processes/impl/process.cpp:37-44 Environment::GetEnvironmentVariable(const char*, char*&, uint8_t&) *)
definition env_get :: "string \<Rightarrow> env \<Rightarrow> env_var option" where
  "env_get name e = map_lookup e (to_upper name)"

text \<open>The kernel's environment, \<open>kenv\<close>, holds the global variables: they hide the process's own.\<close>

(* src/src/kernel/processes/impl/processmanager.cpp:212-221 ProcessManager::GetGlobalEnvironmentVariable *)
definition GetGlobalEnvironmentVariable :: "string \<Rightarrow> env \<Rightarrow> env_var option" where
  "GetGlobalEnvironmentVariable name kenv =
     (case env_get name kenv of
        Some v \<Rightarrow> if has_flag (ev_flags v) Global then Some v else None
      | None \<Rightarrow> None)"

(* src/src/kernel/processes/impl/process.cpp:46-62 Environment::GetEnvironmentVariable(const char*, bool) *)
definition GetEnvironmentVariable :: "string \<Rightarrow> bool \<Rightarrow> env \<Rightarrow> env \<Rightarrow> string option" where
  "GetEnvironmentVariable name userspace kenv e =
     (let upperName = to_upper name
      in case GetGlobalEnvironmentVariable upperName kenv of
           Some g \<Rightarrow> if userspace \<and> has_flag (ev_flags g) Private then None else Some (ev_value g)
         | None \<Rightarrow>
             (case map_lookup e upperName of
                Some v \<Rightarrow> if userspace \<and> has_flag (ev_flags v) Private then None else Some (ev_value v)
              | None \<Rightarrow> None))"

text \<open>Setting: a process other than the kernel hands variables with the global flag to the kernel's
  environment, and the fact that the caller is user code is not handed on.\<close>

(* src/src/kernel/processes/impl/processmanager.cpp:207-210 ProcessManager::SetGlobalEnvironmentVariable *)
definition SetGlobalEnvironmentVariable :: "string \<Rightarrow> string \<Rightarrow> u8 \<Rightarrow> env \<Rightarrow> env" where
  "SetGlobalEnvironmentVariable name val flags kenv =
     (if \<not> has_flag flags Global then kenv else env_set name val flags False kenv)"

(* src/src/kernel/processes/impl/process.cpp:12-35 Environment::SetEnvironmentVariable *)
definition SetEnvironmentVariable ::
  "u64 \<Rightarrow> string \<Rightarrow> string \<Rightarrow> u8 \<Rightarrow> bool \<Rightarrow> env \<times> env \<Rightarrow> env \<times> env" where
  "SetEnvironmentVariable pid name val flags userspace ke =
     (let (kenv, e) = ke
      in if pid \<noteq> 0 \<and> has_flag flags Global
         then (SetGlobalEnvironmentVariable name val flags kenv, e)
         else (kenv, env_set name val flags userspace e))"

(* src/src/kernel/processes/impl/process.cpp:64-66 Environment::GetSize *)
definition env_GetSize :: "env \<Rightarrow> nat" where
  "env_GetSize e = map_size e"

text \<open>The loop of \<open>GetVariableInfo\<close>, which counts the iterator up to the index.\<close>

(* src/src/kernel/processes/impl/process.cpp:69-70 Environment::GetVariableInfo *)
fun env_iterate :: "nat \<Rightarrow> (string \<times> env_var) list \<Rightarrow> (string \<times> env_var) list" where
  "env_iterate index [] = []"
| "env_iterate 0 (x # xs) = x # xs"
| "env_iterate (Suc i) (x # xs) = env_iterate i xs"

(* src/src/kernel/processes/impl/process.cpp:68-77 Environment::GetVariableInfo *)
definition GetVariableInfo :: "nat \<Rightarrow> env \<Rightarrow> string \<times> string \<times> u8" where
  "GetVariableInfo index e =
     (case env_iterate index (m_data e) of
        [] \<Rightarrow> ([], [], 0)
      | (name, v) # _ \<Rightarrow> (name, ev_value v, ev_flags v))"

(* src/src/kernel/processes/impl/process.cpp:79-86 Environment::CopyIn *)
definition CopyIn :: "env \<Rightarrow> env \<Rightarrow> env" where
  "CopyIn source e =
     foldl (\<lambda>e (k, v). if \<not> has_flag (ev_flags v) NoInherit \<and> \<not> has_flag (ev_flags v) Global
                         then map_assign e k v else e) e (m_data source)"

section \<open>The process record\<close>

text \<open>\<open>Ended\<close> and \<open>DoesNotExist\<close> are the same number.\<close>

(* src/src/include/btos/btos_api.h:176-183 bt_proc_status *)
datatype proc_status = DoesNotExist | Running | ProcEnding | Starting | Held

(* src/src/kernel/processes/impl/process.hpp:32-62 Process *)
record 'h process =
  p_pid :: u64
  p_parent :: u64
  p_name :: string
  p_args :: "string list"
  returnValue :: u32
  p_status :: proc_status
  childReturns :: "(u64, u32) kmap"
  p_handles :: "(u32, 'h option) kmap"
  handleCounter :: u32
  pendingHandleCloses :: "u32 list"
  p_environment :: env
  permissions :: "(u16, u64) kmap"
  p_uid :: u64
  currentMessageId :: u64
  p_refCount :: u32
  readyForCleanup :: bool
  procStage :: u32

(* src/src/kernel/processes/impl/process.cpp:123-125 Process::Process() *)
definition process_empty :: "'h process" where
  "process_empty =
     \<lparr>p_pid = 0, p_parent = 0, p_name = [], p_args = [], returnValue = 0, p_status = DoesNotExist,
      childReturns = map_new, p_handles = map_new, handleCounter = 0, pendingHandleCloses = [],
      p_environment = map_new, permissions = map_new, p_uid = 0, currentMessageId = 0, p_refCount = 0,
      readyForCleanup = False, procStage = 0\<rparr>"

(* src/src/kernel/processes/impl/process.cpp:88-97 Process::CreateKernelProcess *)
definition CreateKernelProcess :: "u64 \<Rightarrow> 'h process" where
  "CreateKernelProcess pidCounter =
     process_empty\<lparr>p_name := ''KERNEL'', p_pid := pidCounter, p_parent := 0, p_status := Running\<rparr>"

text \<open>A new process inherits the environment of its parent, not its permissions or user.\<close>

(* src/src/kernel/processes/impl/process.cpp:108-117 Process::Process *)
definition process_new :: "string \<Rightarrow> string list \<Rightarrow> 'h process \<Rightarrow> 'h process" where
  "process_new n a p =
     process_empty\<lparr>p_parent := p_pid p, p_name := n,
       p_environment := CopyIn (p_environment p) (p_environment (process_empty :: 'h process)),
       p_args := n # a, p_status := Starting\<rparr>"

(* src/src/kernel/processes/impl/process.cpp:119-121 Process::IsReadyForCleanup *)
definition IsReadyForCleanup :: "'h process \<Rightarrow> bool" where
  "IsReadyForCleanup p \<longleftrightarrow> readyForCleanup p \<and> p_status p = ProcEnding"

(* src/src/kernel/processes/impl/process.cpp:327-330 Process::GetArgumentCount *)
definition GetArgumentCount :: "'h process \<Rightarrow> nat" where
  "GetArgumentCount p = length (p_args p)"

(* src/src/kernel/processes/impl/process.cpp:322-325 Process::SetExitCode *)
definition SetExitCode :: "u32 \<Rightarrow> 'h process \<Rightarrow> 'h process" where
  "SetExitCode v p = p\<lparr>returnValue := v\<rparr>"

(* src/src/kernel/processes/impl/process.cpp:342-345 Process::SetStatus *)
definition SetStatus :: "proc_status \<Rightarrow> 'h process \<Rightarrow> 'h process" where
  "SetStatus s p = p\<lparr>p_status := s\<rparr>"

(* src/src/kernel/processes/impl/process.cpp:363-366 Process::SetUserID *)
definition SetUserID :: "u64 \<Rightarrow> 'h process \<Rightarrow> 'h process" where
  "SetUserID u p = p\<lparr>p_uid := u\<rparr>"

(* src/src/kernel/processes/impl/process.cpp:373-376 Process::SetCurrentMessageID *)
definition SetCurrentMessageID :: "u64 \<Rightarrow> 'h process \<Rightarrow> 'h process" where
  "SetCurrentMessageID i p = p\<lparr>currentMessageId := i\<rparr>"

(* src/src/kernel/processes/impl/process.cpp:440-442 Process::SetProcStage *)
definition SetProcStage :: "u32 \<Rightarrow> 'h process \<Rightarrow> 'h process" where
  "SetProcStage v p = (if v > procStage p then p\<lparr>procStage := v\<rparr> else p)"

(* src/src/kernel/processes/impl/process.cpp:394-397 Process::SetChildReturnValue *)
definition SetChildReturnValue :: "u64 \<Rightarrow> u32 \<Rightarrow> 'h process \<Rightarrow> 'h process" where
  "SetChildReturnValue childPid rv p = p\<lparr>childReturns := map_assign (childReturns p) childPid rv\<rparr>"

text \<open>The value is looked up under the process's own number; \<open>operator[]\<close> creates an entry for it,
  which is zero.\<close>

(* src/src/kernel/processes/impl/process.cpp:388-392 Process::GetChildReturnValue *)
definition GetChildReturnValue :: "u64 \<Rightarrow> 'h process \<Rightarrow> u32 \<times> 'h process" where
  "GetChildReturnValue childPid p =
     (if map_has_key (childReturns p) childPid
      then let (v, m) = map_index 0 (childReturns p) (p_pid p) in (v, p\<lparr>childReturns := m\<rparr>)
      else (0, p))"


text \<open>An argument is copied into the caller's buffer, cut and padded with zeros to its size; a
  buffer of size zero makes \<open>size - 1\<close> wrap, and the copy leaves every bound.\<close>

(* src/src/kernel/processes/impl/process.cpp:332-340 Process::GetArgument *)
definition GetArgument :: "nat \<Rightarrow> nat \<Rightarrow> 'h process \<Rightarrow> (string option \<times> nat) result" where
  "GetArgument index n p =
     (if index < length (p_args p)
      then let s = p_args p ! index
           in if n = 0 then Inl Undefined
              else Inr (Some (map (\<lambda>j. if j < length s then s ! j else CHR 0x00) [0..<n - 1] @ [CHR 0x00]),
                        length s)
      else Inr (None, 0))"

section \<open>Handles\<close>

(* src/src/kernel/processes/impl/process.cpp:266-270 Process::AddHandle *)
definition AddHandle :: "'h \<Rightarrow> 'h process \<Rightarrow> u32 \<times> 'h process" where
  "AddHandle handle p =
     (let c = handleCounter p + 1
      in (c, p\<lparr>handleCounter := c, p_handles := map_assign (p_handles p) c (Some handle)\<rparr>))"

(* src/src/kernel/processes/impl/process.cpp:272-276 Process::GetHandle *)
definition GetHandle :: "u32 \<Rightarrow> 'h process \<Rightarrow> 'h option" where
  "GetHandle h p = (case map_lookup (p_handles p) h of Some x \<Rightarrow> x | None \<Rightarrow> None)"

text \<open>The loop over the delayed closes: those on which nobody depends any more are taken out of the
  table. The accumulators are the table, the handles to close and their numbers.\<close>

(* src/src/kernel/processes/impl/process.cpp:287-296 Process::CloseAndRemoveHandle *)
fun close_pending ::
  "('h option \<Rightarrow> dependency_check) \<Rightarrow> u32 list \<Rightarrow> (u32, 'h option) kmap \<Rightarrow> 'h option list \<Rightarrow> u32 list \<Rightarrow>
   (u32, 'h option) kmap \<times> 'h option list \<times> u32 list" where
  "close_pending chk [] hs toClose closed = (hs, toClose, closed)"
| "close_pending chk (i # is) hs toClose closed =
     (case map_lookup hs i of
        Some x \<Rightarrow>
          if chk x = Absent
          then close_pending chk is (map_erase hs i) (toClose @ [x]) (closed @ [i])
          else close_pending chk is hs toClose closed
      | None \<Rightarrow> close_pending chk is hs toClose closed)"

text \<open>The result holds the handles that are closed and deleted, in that order. \<open>chk\<close> is the
  dependency check at the time of the call.\<close>

(* src/src/kernel/processes/impl/process.cpp:278-311 Process::CloseAndRemoveHandle *)
definition CloseAndRemoveHandle ::
  "('h option \<Rightarrow> dependency_check) \<Rightarrow> u32 \<Rightarrow> 'h process \<Rightarrow> 'h option list \<times> 'h process" where
  "CloseAndRemoveHandle chk h p =
     (case map_lookup (p_handles p) h of
        None \<Rightarrow> ([], p)
      | Some handle \<Rightarrow>
          if chk handle = Absent
          then let (hs, toClose, closed) =
                     close_pending chk (pendingHandleCloses p) (map_erase (p_handles p) h) [handle] []
               in (toClose, p\<lparr>p_handles := hs,
                     pendingHandleCloses := foldl (\<lambda>l i. remove_first ((=) i) l) (pendingHandleCloses p) closed\<rparr>)
          else ([], p\<lparr>pendingHandleCloses := pendingHandleCloses p @ [h]\<rparr>))"

(* src/src/kernel/processes/impl/process.cpp:313-320 Process::GetHandlesByType *)
definition GetHandlesByType :: "('h \<Rightarrow> u32) \<Rightarrow> u32 \<Rightarrow> 'h process \<Rightarrow> u32 list result" where
  "GetHandlesByType type_of ty p =
     (if ty \<noteq> 0 \<and> None \<in> snd ` set (m_data (p_handles p)) then Inl Undefined
      else Inr (map fst (filter (\<lambda>(i, x). ty = 0 \<or> map_option type_of x = Some ty) (m_data (p_handles p)))))"

section \<open>Permissions\<close>

(* src/src/include/btos/permissions.h:9-25 bt_kernel_perm *)
datatype kernel_perm =
    SuperPerm | SwitchUIDPerm | LoadModulePerm | KillAll | SHMAnyUser | MountFS | UnMountFS
  | FullFSWrite | FullFSRead | FullFSSee | SeeAllProcs | MessageToAny | MessageFromAny
  | QueryAnyExtension | SeePermissions

(* src/src/include/btos/permissions.h:9-25 bt_kernel_perm *)
fun kernel_perm_id :: "kernel_perm \<Rightarrow> u8" where
  "kernel_perm_id SuperPerm = 0" | "kernel_perm_id SwitchUIDPerm = 1" | "kernel_perm_id LoadModulePerm = 2"
| "kernel_perm_id KillAll = 3" | "kernel_perm_id SHMAnyUser = 4" | "kernel_perm_id MountFS = 5"
| "kernel_perm_id UnMountFS = 6" | "kernel_perm_id FullFSWrite = 7" | "kernel_perm_id FullFSRead = 8"
| "kernel_perm_id FullFSSee = 9" | "kernel_perm_id SeeAllProcs = 10" | "kernel_perm_id MessageToAny = 11"
| "kernel_perm_id MessageFromAny = 12" | "kernel_perm_id QueryAnyExtension = 13"
| "kernel_perm_id SeePermissions = 14"

(* src/src/kernel/processes/impl/process.cpp:357-361 Process::GetPermissions *)
definition GetPermissions :: "u16 \<Rightarrow> 'h process \<Rightarrow> u64" where
  "GetPermissions ext p = (case map_lookup (permissions p) ext of Some m \<Rightarrow> m | None \<Rightarrow> 0)"

(* src/src/kernel/processes/impl/process.cpp:352-355 Process::SetPermissions *)
definition process_SetPermissions :: "u16 \<Rightarrow> u64 \<Rightarrow> 'h process \<Rightarrow> 'h process" where
  "process_SetPermissions ext m p = p\<lparr>permissions := map_assign (permissions p) ext m\<rparr>"

text \<open>The literal \<open>1\<close> is a 32-bit \<open>int\<close>: the shifted value is sign-extended when it meets the 64-bit mask,
  and shifting by 32 or more is undefined.\<close>

(* src/src/kernel/perms.cpp:6-8 PermissionManager::HasPermission *)
definition perm_test :: "u16 \<Rightarrow> u8 \<Rightarrow> 'h process \<Rightarrow> bool result" where
  "perm_test ext q p =
     (if unat q \<ge> 32 then Inl Undefined
      else Inr (and (signed (push_bit (unat q) (1 :: u32)) :: u64) (GetPermissions ext p) = 0))"

(* src/src/kernel/perms.cpp:3-9 PermissionManager::HasPermission *)
definition HasPermission :: "u16 \<Rightarrow> u8 \<Rightarrow> 'h process \<Rightarrow> bool result" where
  "HasPermission ext q p =
     bind_result
       (if \<not> (ext = 0 \<and> q = kernel_perm_id SuperPerm) then perm_test 0 (kernel_perm_id SuperPerm) p else Inr False)
       (\<lambda>super. if super then Inr True else perm_test ext q p)"

text \<open>\<open>known\<close> says which extensions are registered.\<close>

(* src/src/kernel/perms.cpp:11-17 PermissionManager::SetPermissions *)
definition SetPermissions :: "(u16 \<Rightarrow> bool) \<Rightarrow> u16 \<Rightarrow> u64 \<Rightarrow> 'h process \<Rightarrow> u64 \<times> 'h process" where
  "SetPermissions known ext pmask p =
     (if ext \<noteq> 0 \<and> \<not> known ext then (0, p)
      else let perms = or (GetPermissions ext p) pmask in (perms, process_SetPermissions ext perms p))"

(* src/src/kernel/perms.cpp:19-23 PermissionManager::SwitchUID *)
definition SwitchUID :: "u64 \<Rightarrow> 'h process \<Rightarrow> (bool \<times> 'h process) result" where
  "SwitchUID uid p =
     bind_result (HasPermission 0 (kernel_perm_id SwitchUIDPerm) p)
       (\<lambda>ok. if \<not> ok then Inr (False, p) else Inr (True, SetUserID uid p))"


section \<open>Lemmas\<close>

lemma to_upper_idem [simp]: "to_upper (to_upper s) = to_upper s"
proof -
  have "to_upper_char (to_upper_char c) = to_upper_char c" for c
    by (cases "97 \<le> (of_char c :: nat) \<and> (of_char c :: nat) \<le> 122") (auto simp: to_upper_char_def Let_def)
  then show ?thesis by (simp add: to_upper_def)
qed


lemma env_get_set:
  assumes "map_ok e"
  shows "env_get n' (env_set name val flags userspace e) =
    (if to_upper n' \<noteq> to_upper name then env_get n' e
     else if userspace \<and> (has_flag flags Private \<or>
         (case env_get name e of None \<Rightarrow> False
          | Some v \<Rightarrow> has_flag (ev_flags v) Private \<or> has_flag (ev_flags v) ReadOnly))
     then env_get name e
     else if val = [] then None else Some \<lparr>ev_value = val, ev_flags = flags\<rparr>)"
  using assms unfolding env_get_def env_set_def Let_def
  by (simp add: kmap_simps map_has_key_iff split: option.split)

lemma CopyIn_fold:
  "map_lookup (foldl (\<lambda>e (k, v). if \<not> has_flag (ev_flags v) NoInherit \<and> \<not> has_flag (ev_flags v) Global
                         then map_assign e k v else e) e vs) =
   map_lookup e ++ map_of (rev (filter (\<lambda>(k, v). \<not> has_flag (ev_flags v) NoInherit \<and>
     \<not> has_flag (ev_flags v) Global) vs))"
  by (induction vs arbitrary: e) (auto simp: kmap_simps map_add_upd_left split: prod.splits)

lemma map_of_filter_snd:
  "distinct (map fst es) \<Longrightarrow>
   map_of (filter (\<lambda>(k, v). P v) es) k = (case map_of es k of Some v \<Rightarrow> if P v then Some v else None | None \<Rightarrow> None)"
  by (induction es) (auto simp: map_of_eq_None_iff image_iff split: option.splits)

lemma perm_mask_bit:
  assumes "unat q < 31"
  shows "and (signed (push_bit (unat q) (1 :: u32)) :: u64) m = 0 \<longleftrightarrow> \<not> bit m (unat q)"
proof -
  have "(signed (push_bit (unat q) (1 :: u32)) :: u64) = push_bit (unat q) 1"
    using assms by (intro bit_word_eqI) (auto simp: bit_simps)
  then show ?thesis
    by (simp add: push_bit_eq_mult and.commute [of "2 ^ unat q"] and_exp_eq_0_iff_not_bit)
qed

lemma perm_test_less:
  assumes "perm_test ext q p' = Inr True" "and (GetPermissions ext p) (GetPermissions ext p') = GetPermissions ext p"
  shows "perm_test ext q p = Inr True"
proof -
  let ?m = "signed (push_bit (unat q) (1 :: u32)) :: u64"
  have "unat q < 32" "and ?m (GetPermissions ext p') = 0"
    using assms(1) by (auto simp: perm_test_def split: if_splits)
  moreover have "and ?m (GetPermissions ext p) = and (and ?m (GetPermissions ext p')) (GetPermissions ext p)"
    by (subst (1) assms(2) [symmetric]) (simp only: ac_simps)
  ultimately show ?thesis by (simp add: perm_test_def)
qed


section \<open>Properties\<close>


definition demo_env :: env where
  "demo_env = map_assign (map_assign map_new ''PATH'' \<lparr>ev_value = ''HDD:'', ev_flags = 2\<rparr>)
     ''PROMPT'' \<lparr>ev_value = ''>'', ev_flags = 0\<rparr>"

lemma demo_env_ok: "map_ok demo_env"
  unfolding demo_env_def by (intro kernel_map.ok_store kernel_map.ok_fresh)


text \<open>The protection does not extend to global variables: a process that passes the global flag
  overwrites any variable of the kernel's environment, also a read-only or private one, and the
  new value is what every process reads.\<close>

theorem env_global_unprotected:
  assumes "map_ok kenv" "pid \<noteq> 0" "has_flag flags Global" "\<not> has_flag flags Private" "val \<noteq> []"
  shows "let (kenv', e') = SetEnvironmentVariable pid name val flags True (kenv, e)
    in e' = e \<and> env_get name kenv' = Some \<lparr>ev_value = val, ev_flags = flags\<rparr> \<and>
      GetEnvironmentVariable name True kenv' other = Some val"
proof -
  let ?k = "env_set name val flags False kenv"
  have new: "env_get name ?k = Some \<lparr>ev_value = val, ev_flags = flags\<rparr>"
    using assms(1,5) by (simp add: env_get_set)
  then have "env_get (to_upper name) ?k = Some \<lparr>ev_value = val, ev_flags = flags\<rparr>"
    by (simp add: env_get_def)
  with new show ?thesis
    using assms(2-4) by (simp add: SetEnvironmentVariable_def SetGlobalEnvironmentVariable_def
        GetEnvironmentVariable_def GetGlobalEnvironmentVariable_def)
qed

theorem env_global_unprotected_witness:
  "env_get ''PATH'' demo_env = Some \<lparr>ev_value = ''HDD:'', ev_flags = 2\<rparr> \<and>
   GetEnvironmentVariable ''PATH'' True
     (fst (SetEnvironmentVariable 3 ''PATH'' ''x'' 1 True (demo_env, map_new))) map_new = Some ''x''"
proof -
  have "has_flag 1 Global" "\<not> has_flag 1 Private" by (simp_all add: has_flag_def)
  moreover have "env_get ''PATH'' demo_env = Some \<lparr>ev_value = ''HDD:'', ev_flags = 2\<rparr>"
    by (simp add: env_get_def demo_env_def kmap_simps to_upper_def to_upper_char_def)
  ultimately show ?thesis
    using env_global_unprotected [OF demo_env_ok, of 3 1 "''x''" "''PATH''" map_new map_new]
    by (simp add: case_prod_beta Let_def)
qed

text \<open>A new process sees of its parent's environment exactly the variables that are neither global
  nor marked as not inherited.\<close>

theorem environment_inherited:
  assumes "map_ok (p_environment parent)"
  shows "map_lookup (p_environment (process_new n a parent)) k =
    (case map_lookup (p_environment parent) k of
       Some v \<Rightarrow> if has_flag (ev_flags v) NoInherit \<or> has_flag (ev_flags v) Global then None else Some v
     | None \<Rightarrow> None)"
proof -
  let ?P = "\<lambda>v. \<not> has_flag (ev_flags v) NoInherit \<and> \<not> has_flag (ev_flags v) Global"
  let ?f = "filter (\<lambda>(k, v). ?P v) (m_data (p_environment parent))"
  have dist: "distinct (map fst (m_data (p_environment parent)))"
    using assms by (simp add: map_ok_def)
  then have "distinct (map fst ?f)"
    by (rule distinct_map_filter)
  then have "map_of (rev ?f) = map_of ?f"
    by (subst map_of_inject_set) (simp_all add: rev_map [symmetric])
  then show ?thesis
    using map_of_filter_snd [OF dist, of ?P k]
    by (auto simp: process_new_def process_empty_def CopyIn_def CopyIn_fold kmap_simps map_lookup_def
        split: option.splits)
qed

theorem environment_inherited_witness:
  "map_lookup (p_environment (process_new ''cmd'' [] (process_empty\<lparr>p_environment := demo_env\<rparr>))) ''PROMPT'' =
     Some \<lparr>ev_value = ''>'', ev_flags = 0\<rparr>"
  using environment_inherited [of "process_empty\<lparr>p_environment := demo_env\<rparr>" "''cmd''" "[]" "''PROMPT''"] demo_env_ok
  by (simp add: demo_env_def kmap_simps has_flag_def)


text \<open>C38. Permissions can only be given up. After \<open>SetPermissions\<close> nothing is allowed that was not allowed
  before; for a known extension exactly the permissions in the mask are taken away, for the bits
  below 31; every other extension's mask is as before.\<close>

theorem permissions_only_shrink:
  "let p' = snd (SetPermissions known ext pmask p)
   in (\<forall>x q. HasPermission x q p' = Inr True \<longrightarrow> HasPermission x q p = Inr True) \<and>
      (ext = 0 \<or> known ext \<longrightarrow>
        (\<forall>q. unat q < 31 \<longrightarrow> perm_test ext q p' = Inr (\<not> bit (GetPermissions ext p) (unat q) \<and> \<not> bit pmask (unat q)))) \<and>
      (\<forall>x. x \<noteq> ext \<longrightarrow> GetPermissions x p' = GetPermissions x p)"
proof -
  define p' where p': "p' = snd (SetPermissions known ext pmask p)"
  have get: "GetPermissions x p' = (if x = ext \<and> (ext = 0 \<or> known ext) then or (GetPermissions x p) pmask
      else GetPermissions x p)" for x
    by (auto simp: p' SetPermissions_def process_SetPermissions_def GetPermissions_def kmap_simps Let_def)
  have "and (GetPermissions x p) (GetPermissions x p') = GetPermissions x p" for x
    unfolding get by (auto intro: bit_word_eqI simp: bit_simps)
  then have less: "perm_test x q p' = Inr True \<Longrightarrow> perm_test x q p = Inr True" for x q
    using perm_test_less by blast
  have "HasPermission x q p = Inr True" if "HasPermission x q p' = Inr True" for x q
    using that less [of 0 "kernel_perm_id SuperPerm"] less [of x q]
    by (cases "perm_test 0 (kernel_perm_id SuperPerm) p'")
      (auto simp: HasPermission_def perm_test_def split: if_splits)
  moreover have "perm_test ext q p' = Inr (\<not> bit (GetPermissions ext p) (unat q) \<and> \<not> bit pmask (unat q))"
    if "ext = 0 \<or> known ext" "unat q < 31" for q
    using that perm_mask_bit [OF that(2), of "GetPermissions ext p'"] by (simp add: perm_test_def get bit_or_iff)
  ultimately show ?thesis
    unfolding p' [symmetric] Let_def by (simp add: get)
qed

definition demo_process :: "nat process" where
  "demo_process = process_empty\<lparr>p_pid := 3, permissions := map_assign map_new 0 1\<rparr>"

theorem permissions_only_shrink_witness:
  "perm_test 0 (kernel_perm_id MountFS) demo_process = Inr True \<and>
   perm_test 0 (kernel_perm_id MountFS) (snd (SetPermissions (\<lambda>_. False) 0 32 demo_process)) = Inr False"
proof -
  note here = permissions_only_shrink [of "\<lambda>_. False" 0 32 demo_process, unfolded Let_def,
      THEN conjunct2, THEN conjunct1, THEN mp, THEN spec, THEN mp]
  have "GetPermissions 0 demo_process = 1"
    by (simp add: GetPermissions_def demo_process_def process_empty_def kmap_simps)
  moreover have "perm_test 0 (kernel_perm_id MountFS) demo_process = Inr True"
    using calculation by (simp add: perm_test_def)
  ultimately show ?thesis
    using here [of "kernel_perm_id MountFS"] by simp
qed

text \<open>The numbers of handles: as long as the 32-bit counter has not run through, \<open>AddHandle\<close> gives a
  number that is not in use, under which the handle is then found; all other numbers lead where
  they led. \<open>CloseAndRemoveHandle\<close> closes the handle if nobody depends on it, together with the
  handles whose close was delayed and on which nobody depends; otherwise it changes nothing but
  the list of delayed closes. In either case exactly the numbers of closed handles are removed and
  the table stays well formed.\<close>

definition handles_ok :: "'h process \<Rightarrow> bool" where
  "handles_ok p \<longleftrightarrow> map_ok (p_handles p) \<and>
     (\<forall>i. map_lookup (p_handles p) i \<noteq> None \<longrightarrow> 0 < i \<and> i \<le> handleCounter p)"

lemma close_pending_spec:
  assumes "close_pending chk is hs toClose closed = (hs', toClose', closed')" "map_ok hs"
  shows "map_ok hs' \<and>
    (\<forall>i. map_lookup hs' i = (case map_lookup hs i of
       Some x \<Rightarrow> if i \<in> set is \<and> chk x = Absent then None else Some x | None \<Rightarrow> None)) \<and>
    set toClose' = set toClose \<union> {x. \<exists>i \<in> set is. map_lookup hs i = Some x \<and> chk x = Absent}"
  using assms
proof (induction "is" arbitrary: hs toClose closed)
  case Nil
  then show ?case by (simp split: option.split)
next
  case (Cons j js)
  show ?case
  proof (cases "\<exists>x. map_lookup hs j = Some x \<and> chk x = Absent")
    case False
    then have "close_pending chk js hs toClose closed = (hs', toClose', closed')"
      using Cons.prems(1) by (auto split: option.splits if_splits)
    from Cons.IH [OF this Cons.prems(2)] False show ?thesis
      by (auto split: option.splits)
  next
    case True
    then obtain x where x: "map_lookup hs j = Some x" "chk x = Absent" by blast
    then have "close_pending chk js (map_erase hs j) (toClose @ [x]) (closed @ [j]) = (hs', toClose', closed')"
      using Cons.prems(1) by simp
    note IH = Cons.IH [OF this map_ok_erase [OF Cons.prems(2)]]
    have er: "map_lookup (map_erase hs j) i = (if i = j then None else map_lookup hs i)" for i
      using Cons.prems(2) by (simp add: kmap_simps)
    have "{y. \<exists>i \<in> set (j # js). map_lookup hs i = Some y \<and> chk y = Absent} =
        insert x {y. \<exists>i \<in> set js. map_lookup (map_erase hs j) i = Some y \<and> chk y = Absent}"
    proof (intro set_eqI iffI)
      fix y assume "y \<in> {y. \<exists>i \<in> set (j # js). map_lookup hs i = Some y \<and> chk y = Absent}"
      then obtain i where i: "i \<in> set (j # js)" "map_lookup hs i = Some y" "chk y = Absent" by blast
      show "y \<in> insert x {y. \<exists>i \<in> set js. map_lookup (map_erase hs j) i = Some y \<and> chk y = Absent}"
        using i x by (cases "i = j") (auto simp: er)
    qed (use x in \<open>auto simp: er split: if_splits\<close>)
    moreover have "map_lookup hs' i = (case map_lookup hs i of
       Some y \<Rightarrow> if i \<in> set (j # js) \<and> chk y = Absent then None else Some y | None \<Rightarrow> None)" for i
      using IH x by (cases "i = j") (auto simp: er split: option.split)
    ultimately show ?thesis
      using IH by simp
  qed
qed

lemma AddHandle_spec:
  assumes "handles_ok p" "handleCounter p < 0xFFFFFFFF"
  shows "let (i, p') = AddHandle h p
     in handles_ok p' \<and> map_lookup (p_handles p) i = None \<and> GetHandle i p' = Some h \<and>
        (\<forall>j. j \<noteq> i \<longrightarrow> GetHandle j p' = GetHandle j p)"
proof -
  let ?c = "handleCounter p"
  have "unat (?c + 1) = unat ?c + 1"
    using assms(2) by (simp add: word_less_nat_alt unat_word_ariths)
  then have c: "?c < ?c + 1" "0 < ?c + 1"
    by (simp_all add: word_less_nat_alt)
  then have "map_lookup (p_handles p) (?c + 1) = None"
    using assms(1) unfolding handles_ok_def by (metis linorder_not_less)
  moreover have "i \<le> ?c + 1" if "i \<le> ?c" for i
    using that c(1) by (rule order.trans [OF _ less_imp_le])
  ultimately show ?thesis
    using assms(1) c(2)
    by (auto simp: AddHandle_def GetHandle_def handles_ok_def kmap_simps Let_def kernel_map.ok_store)
qed

lemma CloseAndRemoveHandle_spec:
  assumes "handles_ok p"
  shows "let (closed, p') = CloseAndRemoveHandle chk n p
     in handles_ok p' \<and> (\<forall>x \<in> set closed. chk x = Absent) \<and>
        (case map_lookup (p_handles p) n of
           None \<Rightarrow> p' = p \<and> closed = []
         | Some x \<Rightarrow>
             if chk x = Absent
             then GetHandle n p' = None \<and> x \<in> set closed \<and>
               (\<forall>j. j \<noteq> n \<longrightarrow> map_lookup (p_handles p') j = (case map_lookup (p_handles p) j of
                  Some y \<Rightarrow> if j \<in> set (pendingHandleCloses p) \<and> chk y = Absent then None else Some y
                | None \<Rightarrow> None))
             else p' = p\<lparr>pendingHandleCloses := pendingHandleCloses p @ [n]\<rparr> \<and> closed = [])"
proof (cases "\<exists>x. map_lookup (p_handles p) n = Some x \<and> chk x = Absent")
  case False
  then show ?thesis
    using assms by (auto simp: CloseAndRemoveHandle_def handles_ok_def split: option.split)
next
  case True
  then obtain x where x: "map_lookup (p_handles p) n = Some x" "chk x = Absent" by blast
  have ok: "map_ok (p_handles p)" using assms by (simp add: handles_ok_def)
  obtain hs cl ids where r: "close_pending chk (pendingHandleCloses p) (map_erase (p_handles p) n) [x] [] = (hs, cl, ids)"
    by (metis prod_cases3)
  note spec = close_pending_spec [OF r map_ok_erase [OF ok]]
  have er: "map_lookup (map_erase (p_handles p) n) i = (if i = n then None else map_lookup (p_handles p) i)" for i
    using ok by (simp add: kmap_simps)
  have "map_lookup hs i \<noteq> None \<Longrightarrow> map_lookup (p_handles p) i \<noteq> None" for i
    using spec by (auto simp: er split: option.splits if_splits)
  then have "map_ok hs" "map_lookup hs i \<noteq> None \<Longrightarrow> 0 < i \<and> i \<le> handleCounter p" for i
    using spec assms unfolding handles_ok_def by blast+
  moreover have "map_lookup hs n = None"
    using spec by (simp add: er)
  moreover have "\<forall>y \<in> set cl. chk y = Absent" "x \<in> set cl"
    using spec x(2) by auto
  ultimately show ?thesis
    using spec x r by (simp add: CloseAndRemoveHandle_def handles_ok_def GetHandle_def er)
qed



text \<open>The exit code of a child never reaches its parent: whatever was recorded for the child, asking
  for it gives what is recorded under the parent's own number, which is zero when no child has
  that number.\<close>

theorem child_return_value_lost:
  assumes "map_lookup (childReturns p) (p_pid p) = None" "child \<noteq> p_pid p"
  shows "fst (GetChildReturnValue child (SetChildReturnValue child rv p)) = 0"
  using assms by (simp add: GetChildReturnValue_def SetChildReturnValue_def case_prod_beta map_has_key_iff
      kmap_simps map_index_eq)

theorem child_return_value_lost_witness:
  "fst (GetChildReturnValue 9 (SetChildReturnValue 9 77 demo_process)) = 0"
  by (rule child_return_value_lost) (simp_all add: demo_process_def process_empty_def kmap_simps)

end
