(* ===== verification/Processes.thy ===== *)
theory Processes
  imports Process_Objects Scheduler Messaging
begin

text \<open>
  The process manager, src/src/kernel/processes/impl/processmanager.cpp, and the methods of
  process.cpp that reach beyond one process: reference counts, switching, ending, terminating and
  cleaning up.

  The world is the vector of processes, the current process, the scheduler, the message system
  and the table of handle dependencies. A pointer to a process is its number, which is unique.
  The reference-counting pointers (src/src/include/module/utils/refcountpointer.hpp) are not part
  of the state: an operation that copies or drops one raises or lowers the count, and the state
  machine at the end keeps the number of pointers held elsewhere as a ghost. The page directory
  is the number of the process whose directory is installed.

  The lemmas show that the counts are exact in every reachable state, so that dropping a pointer
  never panics; that a process that has ended is marked for cleanup as soon as nobody refers to it
  any more; and that cleaning up closes every handle, each after the handles that depend on it.
\<close>

section \<open>The state\<close>

(* src/src/kernel/processes/impl/processmanager.hpp:12-19 ProcessManager *)
record 'h proc_world =
  pw_processes :: "'h process list"
  pw_current :: u64
  pw_pidCounter :: u64
  pw_installed :: u64
  pw_cleanup :: u64
  pw_sched :: scheduler
  pw_msgs :: msg_world
  pw_deps :: "'h list"

definition find_process :: "u64 \<Rightarrow> 'h process list \<Rightarrow> 'h process option" where
  "find_process pid ps = List.find (\<lambda>p. p_pid p = pid) ps"

definition upd_process :: "u64 \<Rightarrow> ('h process \<Rightarrow> 'h process) \<Rightarrow> 'h proc_world \<Rightarrow> 'h proc_world" where
  "upd_process pid f w = w\<lparr>pw_processes := map (\<lambda>p. if p_pid p = pid then f p else p) (pw_processes w)\<rparr>"

definition upd_running_thread :: "(thread \<Rightarrow> thread) \<Rightarrow> 'h proc_world \<Rightarrow> 'h proc_world" where
  "upd_running_thread f w =
     (let s = pw_sched w in w\<lparr>pw_sched := s\<lparr>threads := upd_thread (current s) f (threads s)\<rparr>\<rparr>)"

(* src/src/kernel/processes/impl/processmanager.cpp:227-235 ProcessManager::GetByID *)
definition GetByID_process :: "u64 \<Rightarrow> bool \<Rightarrow> 'h proc_world \<Rightarrow> 'h process option" where
  "GetByID_process pid includeEnding w =
     (case find_process pid (pw_processes w) of
        Some p \<Rightarrow> if \<not> includeEnding \<and> p_status p = ProcEnding then None else Some p
      | None \<Rightarrow> None)"

(* src/src/kernel/processes/impl/processmanager.cpp:237-242 ProcessManager::GetProcessStatusByID *)
definition GetProcessStatusByID :: "u64 \<Rightarrow> 'h proc_world \<Rightarrow> proc_status" where
  "GetProcessStatusByID pid w =
     (case find_process pid (pw_processes w) of Some p \<Rightarrow> p_status p | None \<Rightarrow> DoesNotExist)"

text \<open>The condition on which \<open>WaitProcess\<close> blocks.\<close>

(* src/src/kernel/processes/impl/processmanager.cpp:244-249 ProcessManager::WaitProcess *)
definition WaitProcessCheck :: "u64 \<Rightarrow> 'h proc_world \<Rightarrow> bool" where
  "WaitProcessCheck pid w \<longleftrightarrow> GetProcessStatusByID pid w = DoesNotExist"

(* src/src/kernel/processes/impl/process.cpp:227-234 Process::HoldBeforeUserspace *)
definition HoldBeforeUserspaceCheck :: "u64 \<Rightarrow> 'h proc_world \<Rightarrow> bool" where
  "HoldBeforeUserspaceCheck pid w \<longleftrightarrow> GetProcessStatusByID pid w \<noteq> Held"

section \<open>Reference counts\<close>

text \<open>Waking the cleanup thread. \<open>chk\<close> says what the block checks of threads answer.\<close>

(* src/src/kernel/processes/impl/processmanager.cpp:97-99 ProcessManager::ScheduleCleanup *)
definition ScheduleCleanup :: "(u64 \<Rightarrow> bool) \<Rightarrow> 'h proc_world \<Rightarrow> 'h proc_world" where
  "ScheduleCleanup chk w =
     (let s = pw_sched w
      in w\<lparr>pw_sched := s\<lparr>threads := upd_thread (pw_cleanup w) (Unblock chk) (threads s)\<rparr>\<rparr>)"

(* src/src/kernel/processes/impl/process.cpp:399-403 Process::IncrementRefCount *)
definition process_IncrementRefCount :: "u64 \<Rightarrow> 'h proc_world \<Rightarrow> 'h proc_world result" where
  "process_IncrementRefCount pid w =
     (case find_process pid (pw_processes w) of
        None \<Rightarrow> Inl Undefined
      | Some p \<Rightarrow>
          if p_refCount p + 1 > 0x7FFFFFFF then Inl (Panic ''(PROC) Process node refcount implausible!'')
          else Inr (upd_process pid (\<lambda>p. p\<lparr>p_refCount := p_refCount p + 1\<rparr>) w))"

text \<open>The count of the kernel process stays at zero; an ending process that is referred to by the
  vector only is ready for cleanup.\<close>

(* src/src/kernel/processes/impl/process.cpp:405-413 Process::DecrementRefCount *)
definition drop_ref :: "string \<Rightarrow> (u64 \<Rightarrow> bool) \<Rightarrow> u64 \<Rightarrow> 'h proc_world \<Rightarrow> 'h proc_world result" where
  "drop_ref msg chk pid w =
     (case find_process pid (pw_processes w) of
        None \<Rightarrow> Inl Undefined
      | Some p \<Rightarrow>
          if p_refCount p = 0 \<and> pid \<noteq> 0 then Inl (Panic msg)
          else let c = (if p_refCount p > 0 then p_refCount p - 1 else 0);
                   w1 = upd_process pid (\<lambda>p. p\<lparr>p_refCount := c\<rparr>) w
               in if c \<le> 1 \<and> p_status p = ProcEnding
                  then Inr (ScheduleCleanup chk (upd_process pid (\<lambda>p. p\<lparr>readyForCleanup := True\<rparr>) w1))
                  else Inr w1)"

(* src/src/kernel/processes/impl/process.cpp:405-413 Process::DecrementRefCount *)
definition process_DecrementRefCount :: "(u64 \<Rightarrow> bool) \<Rightarrow> u64 \<Rightarrow> 'h proc_world \<Rightarrow> 'h proc_world result" where
  "process_DecrementRefCount = drop_ref ''(PROC) DecrementRefCount already 0!''"

(* src/src/kernel/processes/impl/process.cpp:420-427 Process::DecrementRefCountFromScheduler *)
definition DecrementRefCountFromScheduler :: "(u64 \<Rightarrow> bool) \<Rightarrow> u64 \<Rightarrow> 'h proc_world \<Rightarrow> 'h proc_world result" where
  "DecrementRefCountFromScheduler = drop_ref ''(PROC) DecrementRefCountFromScheduler already 0!''"

(* src/src/kernel/processes/impl/process.cpp:415-418 Process::IncrementRefCountFromScheduler *)
definition IncrementRefCountFromScheduler :: "u64 \<Rightarrow> 'h proc_world \<Rightarrow> 'h proc_world result" where
  "IncrementRefCountFromScheduler = process_IncrementRefCount"

text \<open>Copying the vector, or moving its elements down by one, copies and drops a pointer to each
  process: the count ends where it was, and the drop may mark an ending process and wake the
  cleanup thread. That the count is at its limit in between is left out.\<close>

definition unreferenced :: "'h process \<Rightarrow> bool" where
  "unreferenced p \<longleftrightarrow> p_refCount p \<le> 1 \<and> p_status p = ProcEnding"

(* src/src/include/module/utils/refcountpointer.hpp:12-39 RefCountPointer *)
definition touch :: "'h process \<Rightarrow> 'h process" where
  "touch p = (if unreferenced p then p\<lparr>readyForCleanup := True\<rparr> else p)"

definition wake_for :: "(u64 \<Rightarrow> bool) \<Rightarrow> 'h process list \<Rightarrow> 'h proc_world \<Rightarrow> 'h proc_world" where
  "wake_for chk ps w = (if \<exists>p \<in> set ps. unreferenced p then ScheduleCleanup chk w else w)"

section \<open>Switching\<close>

text \<open>The common part of the two switches: the old process loses a reference, the new one gains one
  and its page directory is installed.\<close>

(* src/src/kernel/processes/impl/processmanager.cpp:150-154 ProcessManager::SwitchProcessFromScheduler *)
definition switch_current :: "(u64 \<Rightarrow> bool) \<Rightarrow> u64 \<Rightarrow> 'h proc_world \<Rightarrow> 'h proc_world result" where
  "switch_current chk pid w =
     bind_result (DecrementRefCountFromScheduler chk (pw_current w) w) (\<lambda>w1.
     bind_result (IncrementRefCountFromScheduler pid (w1\<lparr>pw_current := pid\<rparr>)) (\<lambda>w2.
       Inr (w2\<lparr>pw_installed := pid\<rparr>)))"

(* src/src/kernel/processes/impl/processmanager.cpp:127-143 ProcessManager::SwitchProcess *)
definition SwitchProcess :: "(u64 \<Rightarrow> bool) \<Rightarrow> u64 \<Rightarrow> 'h proc_world \<Rightarrow> (bool \<times> 'h proc_world) result" where
  "SwitchProcess chk pid w =
     (if pid = pw_current w then Inr (True, w)
      else case GetByID_process pid True w of
        None \<Rightarrow> Inr (False, w)
      | Some p \<Rightarrow>
          bind_result (process_IncrementRefCount pid w) (\<lambda>w1.
          bind_result (switch_current chk pid w1) (\<lambda>w2.
          bind_result (process_DecrementRefCount chk pid (upd_running_thread (SetPID pid) w2)) (\<lambda>w3.
            Inr (True, w3)))))"

(* src/src/kernel/processes/impl/processmanager.cpp:145-159 ProcessManager::SwitchProcessFromScheduler *)
definition SwitchProcessFromScheduler :: "(u64 \<Rightarrow> bool) \<Rightarrow> u64 \<Rightarrow> 'h proc_world \<Rightarrow> 'h proc_world result" where
  "SwitchProcessFromScheduler chk pid w =
     (if pid = pw_current w then Inr w
      else if find_process pid (pw_processes w) = None
      then Inl (Panic ''(PROC) Attempt to switch to unknown process.'')
      else switch_current chk pid w)"

text \<open>A thread that ends leaves its process first.\<close>

(* src/src/kernel/scheduler/impl/thread.cpp:52-59 Thread::End *)
definition EndCurrentThread :: "(u64 \<Rightarrow> bool) \<Rightarrow> 'h proc_world \<Rightarrow> 'h proc_world result" where
  "EndCurrentThread chk w =
     (case current_thread (pw_sched w) of
        None \<Rightarrow> Inl Undefined
      | Some t \<Rightarrow>
          if thread_locks (sch_lock (pw_sched w)) (t_id t) \<noteq> 0
          then Inl (Panic ''(SCH) Ending thread with non-zero lock count!'')
          else bind_result (if t_pid t \<noteq> 0 then bind_result (SwitchProcess chk 0 w) (\<lambda>(b, w'). Inr w') else Inr w)
            (\<lambda>w'. bind_result (ThreadEnd chk (t_id t) (pw_sched w')) (\<lambda>s. Inr (w'\<lparr>pw_sched := s\<rparr>))))"

section \<open>Life and death of a process\<close>

text \<open>The new process is in the vector, and the caller holds a pointer to it.\<close>

(* src/src/kernel/processes/impl/processmanager.cpp:161-174 ProcessManager::NewProcess *)
definition NewProcess :: "(u64 \<Rightarrow> bool) \<Rightarrow> string \<Rightarrow> string list \<Rightarrow> u64 \<Rightarrow> 'h proc_world \<Rightarrow> (u64 \<times> 'h proc_world) result" where
  "NewProcess chk name args parent w =
     (case find_process parent (pw_processes w) of
        None \<Rightarrow> Inl Undefined
      | Some pp \<Rightarrow>
          let pid = pw_pidCounter w + 1;
              p = (process_new name args pp)\<lparr>p_pid := pid, p_refCount := 2\<rparr>
          in Inr (pid, wake_for chk (pw_processes w)
                 (w\<lparr>pw_pidCounter := pid, pw_processes := map touch (pw_processes w) @ [p]\<rparr>)))"

(* src/src/kernel/processes/impl/process.cpp:197-209 Process::End *)
definition End :: "(u64 \<Rightarrow> bool) \<Rightarrow> u64 \<Rightarrow> 'h proc_world \<Rightarrow> 'h proc_world result" where
  "End chk pid w =
     (if pid = 0 then Inl (Panic ''(PROC) Kernel process attempting to end!'')
      else case find_process pid (pw_processes w) of
        None \<Rightarrow> Inl Undefined
      | Some p \<Rightarrow>
          let w1 = (if p_status p \<noteq> ProcEnding
                    then upd_process pid (\<lambda>p. p\<lparr>p_status := ProcEnding,
                           readyForCleanup := (if p_refCount p \<le> 1 then True else readyForCleanup p)\<rparr>) w
                    else w)
          in if pw_current w1 = pid then bind_result (SwitchProcess chk 0 w1) (\<lambda>(b, w2). Inr w2) else Inr w1)"

(* src/src/kernel/processes/impl/process.cpp:211-225 Process::Terminate *)
definition Terminate :: "(u64 \<Rightarrow> bool) \<Rightarrow> u64 \<Rightarrow> 'h proc_world \<Rightarrow> 'h proc_world result" where
  "Terminate chk pid w =
     (if pid = 0 then Inl (Panic ''(PROC) Kernel process terminate request!'')
      else let w1 = upd_process pid (\<lambda>p. p\<lparr>returnValue := -1\<rparr>) w;
               mine = (pw_current w1 = pid)
           in bind_result (if mine then bind_result (SwitchProcess chk 0 w1) (\<lambda>(b, w2). Inr w2) else Inr w1) (\<lambda>w2.
              bind_result (End chk pid w2) (\<lambda>w3.
                let w4 = w3\<lparr>pw_sched := AbortThreadsByPID pid (pw_sched w3)\<rparr>
                in Inr (if mine then upd_running_thread thread_Abort w4 else w4))))"

text \<open>\<open>vector::find\<close> gives the largest number when the process is absent, and erasing there is
  without effect; the process at the first position, the kernel, is never removed. The pointer of
  the vector is dropped, which may wake the cleanup thread.\<close>

(* src/src/kernel/processes/impl/processmanager.cpp:31-38 ProcessManager::RemoveProcess *)
definition RemoveProcess :: "(u64 \<Rightarrow> bool) \<Rightarrow> u64 \<Rightarrow> 'h proc_world \<Rightarrow> 'h proc_world" where
  "RemoveProcess chk pid w =
     (case find_index (\<lambda>p. p_pid p = pid) (pw_processes w) of
        None \<Rightarrow> w
      | Some i \<Rightarrow>
          if i = 0 then w
          else let p = pw_processes w ! i;
                   later = drop (Suc i) (pw_processes w)
               in wake_for chk (p\<lparr>p_refCount := p_refCount p - 1\<rparr> # later)
                    (w\<lparr>pw_processes := take i (pw_processes w) @ map touch later\<rparr>))"


section \<open>Cleaning up\<close>

text \<open>The handles of a process that are not null, in the order of the table.\<close>

fun live :: "(u32 \<times> 'h option) list \<Rightarrow> 'h list" where
  "live [] = []"
| "live ((i, None) # es) = live es"
| "live ((i, Some h) # es) = h # live es"

text \<open>First the thread handles: \<open>thread_of\<close> is the checked cast, giving for a thread handle the thread
  if it is still there. Closing such a handle aborts the thread.\<close>

(* src/src/kernel/processes/impl/process.cpp:131-141 Process::CleanupProcess *)
definition close_thread_handles ::
  "('h \<Rightarrow> u64 option option) \<Rightarrow> (u32 \<times> 'h option) list \<Rightarrow> u64 list \<times> (u32 \<times> 'h option) list" where
  "close_thread_handles thread_of es =
     (List.map_filter (\<lambda>h. case thread_of h of Some t \<Rightarrow> t | None \<Rightarrow> None) (live es),
      map (\<lambda>(i, x). (i, case x of Some h \<Rightarrow> if thread_of h \<noteq> None then None else Some h | None \<Rightarrow> None)) es)"

text \<open>Closing a handle takes back the dependencies it had registered, the list \<open>uses h\<close>.\<close>

definition close_handle :: "('h \<Rightarrow> 'h list) \<Rightarrow> 'h \<Rightarrow> 'h list \<Rightarrow> 'h list" where
  "close_handle uses h deps = foldl (\<lambda>d g. remove_first ((=) g) d) deps (uses h)"

text \<open>The rounds over the other handles: each round closes those on which nobody depends, until none
  was put off. The lock of the dependency table is free. The result holds the handles in the
  order in which they were closed.\<close>

(* src/src/kernel/processes/impl/process.cpp:147-167 Process::CleanupProcess *)
partial_function (option) cleanup_rounds ::
  "('h \<Rightarrow> 'h list) \<Rightarrow> (u32 \<times> 'h option) list \<Rightarrow> 'h list \<Rightarrow> 'h list \<Rightarrow>
   ('h list \<times> (u32 \<times> 'h option) list \<times> 'h list) option" where
  "cleanup_rounds uses es deps closed =
     (let handlesToClose = filter (\<lambda>h. h \<notin> set deps) (live es);
          pendingHandles = (\<exists>h \<in> set (live es). h \<in> set deps);
          es' = map (\<lambda>(i, x). (i, case x of Some h \<Rightarrow> if h \<in> set deps then Some h else None | None \<Rightarrow> None)) es;
          deps' = fold (close_handle uses) handlesToClose deps
      in if pendingHandles then cleanup_rounds uses es' deps' (closed @ handlesToClose)
         else Some (closed @ handlesToClose, es', deps'))"

(* src/src/kernel/processes/impl/process.cpp:131-141 Process::CleanupProcess *)
definition CleanupStart :: "('h \<Rightarrow> u64 option option) \<Rightarrow> 'h process \<Rightarrow> 'h proc_world \<Rightarrow> 'h proc_world" where
  "CleanupStart thread_of p w =
     (let (tids, es) = close_thread_handles thread_of (m_data (p_handles p));
          s = pw_sched w
      in upd_process (p_pid p) (\<lambda>p. p\<lparr>p_handles := (p_handles p)\<lparr>m_data := es\<rparr>\<rparr>)
           (w\<lparr>pw_sched := s\<lparr>threads := fold (\<lambda>t. upd_thread t thread_Abort) tids (threads s)\<rparr>\<rparr>))"

text \<open>What is left when all threads of the process are gone: the handles, the exit code for the
  parent, the vector and the messages. \<open>body\<close> are the bytes of the process number.\<close>

(* src/src/kernel/processes/impl/process.cpp:147-182 Process::CleanupProcess *)
definition CleanupFinish ::
  "(u64 \<Rightarrow> bool) \<Rightarrow> ('h \<Rightarrow> 'h list) \<Rightarrow> (msg_header \<Rightarrow> u8 list) \<Rightarrow> u64 \<Rightarrow> u8 list \<Rightarrow> 'h process \<Rightarrow>
   'h proc_world \<Rightarrow> ('h list \<times> 'h proc_world) option" where
  "CleanupFinish chk uses bytes_of uninit body p w =
     map_option (\<lambda>(closed, es, deps).
       let w1 = upd_process (p_pid p) (\<lambda>p. p\<lparr>p_handles := (p_handles p)\<lparr>m_data := es\<rparr>\<rparr>) (w\<lparr>pw_deps := deps\<rparr>);
           w2 = (if p_parent p \<noteq> 0 \<and> GetByID_process (p_parent p) False w1 \<noteq> None
                 then upd_process (p_parent p) (SetChildReturnValue (p_pid p) (returnValue p)) w1 else w1);
           w3 = RemoveProcess chk (p_pid p) w2;
           alive = (\<lambda>q. GetProcessStatusByID q w3 \<noteq> DoesNotExist)
       in (closed, w3\<lparr>pw_msgs := SendKernelEvent alive uninit ProcessEnd body
                        (ClearMessages alive bytes_of uninit (p_pid p) (pw_msgs w3))\<rparr>))
       (cleanup_rounds uses (m_data (p_handles p)) (pw_deps w) [])"

text \<open>The whole: the cleanup thread waits, after aborting the threads, until they have ended.\<close>

(* src/src/kernel/processes/impl/process.cpp:127-183 Process::CleanupProcess *)
definition CleanupProcess ::
  "(u64 \<Rightarrow> bool) \<Rightarrow> ('h \<Rightarrow> u64 option option) \<Rightarrow> ('h \<Rightarrow> 'h list) \<Rightarrow> (msg_header \<Rightarrow> u8 list) \<Rightarrow> u64 \<Rightarrow> u8 list \<Rightarrow>
   u64 \<Rightarrow> 'h proc_world \<Rightarrow> ('h list \<times> 'h proc_world) blocking option" where
  "CleanupProcess chk thread_of uses bytes_of uninit body pid w =
     (case find_process pid (pw_processes w) of
        None \<Rightarrow> Some (Failed Undefined)
      | Some p \<Rightarrow>
          let w1 = CleanupStart thread_of p w
          in if GetPIDThreadCount pid (pw_sched w1) > 0 then Some (Sleeps ([], w1))
             else case find_process pid (pw_processes w1) of
               None \<Rightarrow> Some (Failed Undefined)
             | Some p1 \<Rightarrow> map_option Returned (CleanupFinish chk uses bytes_of uninit body p1 w1))"

text \<open>The processes that one round of the cleanup thread takes on.\<close>

(* src/src/kernel/processes/impl/processmanager.cpp:14-21 CleanupThread *)
definition cleanUps :: "'h proc_world \<Rightarrow> u64 list" where
  "cleanUps w = map p_pid (filter IsReadyForCleanup (pw_processes w))"

(* src/src/kernel/processes/impl/processmanager.cpp:116-124 ProcessManager::ProcessManager *)
definition IdleHook :: "(u64 \<Rightarrow> bool) \<Rightarrow> 'h proc_world \<Rightarrow> 'h proc_world" where
  "IdleHook chk w = (if \<exists>p \<in> set (pw_processes w). IsReadyForCleanup p then ScheduleCleanup chk w else w)"

section \<open>Starting programs\<close>

(* src/src/kernel/processes/impl/processmanager.cpp:101-113 ProcessManager::ProcessManager *)
definition ProcessManager_new :: "u64 \<Rightarrow> scheduler \<Rightarrow> msg_world \<Rightarrow> 'h proc_world" where
  "ProcessManager_new token s m =
     (let (tid, s') = NewThread [] (thread_new token 4096) s
      in \<lparr>pw_processes = [(CreateKernelProcess 0)\<lparr>p_refCount := 1\<rparr>], pw_current = 0, pw_pidCounter = 0,
          pw_installed = 0, pw_cleanup = tid, pw_sched = s', pw_msgs = m, pw_deps = []\<rparr>)"

text \<open>What a user thread does before it enters user mode; the stack is memory of the process.\<close>

(* src/src/kernel/processes/impl/process.cpp:248-264 Process::NewUserThread *)
definition user_thread_start :: "(u64 \<Rightarrow> bool) \<Rightarrow> u64 \<Rightarrow> 'h proc_world \<Rightarrow> (bool \<times> 'h proc_world) result" where
  "user_thread_start chk pid w =
     bind_result (SwitchProcess chk pid w) (\<lambda>(ok, w1).
       if \<not> ok then Inr (False, w1)
       else let w2 = upd_running_thread (SetPriority 100 \<circ> (\<lambda>t. t\<lparr>t_name := ''Userspace''\<rparr>)) w1;
                w3 = upd_process pid (SetStatus Running) (upd_process (pw_current w2) (SetStatus Running) w2)
            in if thread_locks (sch_lock (pw_sched w3)) (current (pw_sched w3)) \<noteq> 0
               then Inl (Panic ''PROC: Starting user thread with non-zero lock count!'')
               else Inr (True, w3))"

(* src/src/kernel/processes/impl/process.cpp:248-264 Process::NewUserThread *)
definition NewUserThread :: "u64 \<Rightarrow> 'h proc_world \<Rightarrow> u64 \<times> 'h proc_world" where
  "NewUserThread token w =
     (let (tid, s) = NewThread [] (thread_new token 16384) (pw_sched w) in (tid, w\<lparr>pw_sched := s\<rparr>))"

text \<open>\<open>open_file\<close> opens a path for reading, \<open>loader\<close> is the configuration variable \<open>LOADER\<close>, and \<open>thread_handle\<close>
  makes the handle of a thread. Loading the program's file into memory is not part of the world.\<close>

(* src/src/kernel/processes/impl/processmanager.cpp:176-201 ProcessManager::Spawn *)
definition Spawn ::
  "(u64 \<Rightarrow> bool) \<Rightarrow> (string \<Rightarrow> 'h option) \<Rightarrow> string option \<Rightarrow> (u64 \<Rightarrow> 'h) \<Rightarrow> u64 \<Rightarrow> u64 \<Rightarrow> (u64 \<Rightarrow> u8 list) \<Rightarrow>
   string \<Rightarrow> string list \<Rightarrow> u64 \<Rightarrow> 'h proc_world \<Rightarrow> (u64 option \<times> 'h proc_world) result" where
  "Spawn chk open_file loader thread_handle token uninit pid_bytes name args parent w =
     bind_result (NewProcess chk name args parent w) (\<lambda>(pid, w1).
       case open_file (case loader of None \<Rightarrow> name | Some l \<Rightarrow> l) of
         None \<Rightarrow>
           bind_result (Terminate chk pid w1) (\<lambda>w2.
           bind_result (process_DecrementRefCount chk pid w2) (\<lambda>w3. Inr (None, w3)))
       | Some file \<Rightarrow>
           let w2 = upd_process pid (\<lambda>p. snd (AddHandle file p)) w1;
               (tid, w3) = NewUserThread token w2;
               w4 = upd_process pid (\<lambda>p. snd (AddHandle (thread_handle tid) p)) w3;
               alive = (\<lambda>q. GetProcessStatusByID q w4 \<noteq> DoesNotExist)
           in Inr (Some pid, w4\<lparr>pw_msgs := SendKernelEvent alive uninit ProcessStart (pid_bytes pid) (pw_msgs w4)\<rparr>))"


section \<open>Closing handles in the order of their dependencies\<close>

lemma live_keep:
  "live (map (\<lambda>(i, x). (i, case x of Some h \<Rightarrow> if P h then Some h else None | None \<Rightarrow> None)) es) = filter P (live es)"
  by (induction es rule: live.induct) auto


lemma keys_keep: "map fst (map (\<lambda>(i, x). (i, f x)) es) = map fst es"
  by (simp add: comp_def case_prod_beta)

lemma mset_close_handle: "mset (close_handle uses h deps) = mset deps - mset (uses h)"
proof -
  have "mset (foldl (\<lambda>d g. remove_first ((=) g) d) deps gs) = mset deps - mset gs" for gs
    by (induction gs arbitrary: deps) (simp_all add: mset_remove_first)
  then show ?thesis by (simp add: close_handle_def)
qed

lemma mset_close_all: "mset (fold (close_handle uses) hs deps) = mset deps - mset (concat (map uses hs))"
  by (induction hs arbitrary: deps) (simp_all add: mset_close_handle)

lemma mset_filter_split: "mset (filter P xs) + mset (filter (\<lambda>x. \<not> P x) xs) = mset xs"
  by (induction xs) auto

lemma mset_concat_filter:
  "mset (concat (map f xs)) = mset (concat (map f (filter P xs))) + mset (concat (map f (filter (\<lambda>x. \<not> P x) xs)))"
  by (induction xs) auto

text \<open>When nobody else depends on the handles of the process and the dependencies are not cyclic,
  some handle can be closed in every round.\<close>

lemma closable_exists:
  assumes "L \<noteq> []" "\<forall>h \<in> set L. \<forall>g \<in> set (uses h). rank h < (rank g :: nat)"
  shows "\<exists>h \<in> set L. h \<notin> set (concat (map uses L))"
proof -
  obtain h where "h \<in> set L" "\<forall>g \<in> set L. rank h \<le> rank g"
    using assms(1) ex_min_if_finite [of "rank ` set L"] by (metis arg_min_if_finite(1,2) finite_set linorder_not_less set_empty)
  then show ?thesis using assms(2) by (fastforce simp: not_le [symmetric])
qed

lemma cleanup_rounds_spec:
  assumes "mset deps = mset (concat (map uses (live es)))"
    and "\<forall>h \<in> set (live es). \<forall>g \<in> set (uses h). rank h < (rank g :: nat)"
  shows "\<exists>cl es'. cleanup_rounds uses es deps closed = Some (closed @ cl, es', []) \<and> live es' = [] \<and>
    map fst es' = map fst es \<and> mset cl = mset (live es) \<and>
    (\<forall>xs h ys. cl = xs @ h # ys \<longrightarrow> set (uses h) \<inter> set xs = {})"
  using assms
proof (induction "length (live es)" arbitrary: es deps closed rule: less_induct)
  case less
  let ?now = "filter (\<lambda>h. h \<notin> set deps) (live es)"
  let ?keep = "filter (\<lambda>h. h \<in> set deps) (live es)"
  let ?es = "map (\<lambda>(i, x). (i, case x of Some h \<Rightarrow> if h \<in> set deps then Some h else None | None \<Rightarrow> None)) es"
  let ?deps = "fold (close_handle uses) ?now deps"
  have used: "g \<in> set deps" if "h \<in> set (live es)" "g \<in> set (uses h)" for g h
  proof -
    have "g \<in># mset (concat (map uses (live es)))" using that by auto
    with less.prems(1) show ?thesis by (metis set_mset_mset)
  qed
  have es: "live ?es = ?keep" "map fst ?es = map fst es"
    by (rule live_keep, rule keys_keep)
  have deps: "mset ?deps = mset (concat (map uses ?keep))"
    using mset_concat_filter [of uses "live es" "\<lambda>h. h \<notin> set deps"] less.prems(1) by (simp add: mset_close_all)
  show ?case
  proof (cases "?keep = []")
    case True
    then have "cleanup_rounds uses es deps closed = Some (closed @ ?now, ?es, ?deps)"
      by (subst cleanup_rounds.simps) (auto simp: filter_empty_conv Let_def)
    moreover have "?deps = []" using deps True by simp
    moreover have "?now = live es" using True by (auto simp: filter_empty_conv filter_id_conv)
    moreover have "set (uses h) \<inter> set xs = {}" if "?now = xs @ h # ys" for xs h ys
    proof -
      have "set xs \<subseteq> set ?now" "h \<in> set ?now" using that by auto
      then show ?thesis using used [of h] by auto
    qed
    ultimately show ?thesis using True es by (intro exI [of _ ?now] exI [of _ ?es]) simp
  next
    case False
    then have "live es \<noteq> []" by auto
    then obtain h where h: "h \<in> set (live es)" "h \<notin> set (concat (map uses (live es)))"
      using closable_exists less.prems(2) by blast
    then have "h \<notin> set deps" using less.prems(1) by (metis set_mset_mset)
    then have "length ?keep < length (live es)"
      using h(1) by (intro length_filter_less) auto
    then have a: "length (live ?es) < length (live es)" by (simp only: es)
    have b: "mset ?deps = mset (concat (map uses (live ?es)))" using deps by (simp only: es)
    have c: "\<forall>h \<in> set (live ?es). \<forall>g \<in> set (uses h). rank h < rank g"
      unfolding es using less.prems(2) by simp
    obtain cl es' where IH: "cleanup_rounds uses ?es ?deps (closed @ ?now) = Some ((closed @ ?now) @ cl, es', [])"
      "live es' = []" "map fst es' = map fst ?es" "mset cl = mset (live ?es)"
      "\<forall>xs h ys. cl = xs @ h # ys \<longrightarrow> set (uses h) \<inter> set xs = {}"
      using less.hyps [OF a b c, of "closed @ ?now"] by (elim exE conjE) (rule that)
    have "cleanup_rounds uses es deps closed = Some (closed @ (?now @ cl), es', [])"
      using False IH(1) by (subst cleanup_rounds.simps) (auto simp: filter_empty_conv Let_def)
    moreover have "mset (?now @ cl) = mset (live es)"
      using IH(4) es(1) mset_filter_split [of "\<lambda>h. h \<notin> set deps" "live es"] by simp
    moreover have "set (uses h) \<inter> set xs = {}" if split: "?now @ cl = xs @ h # ys" for xs h ys
    proof -
      have "h \<in># mset (?now @ cl)" by (simp only: split) simp
      then have "h \<in> set (live es)" using calculation(2) by (metis set_mset_mset)
      then have free: "set (uses h) \<inter> set ?now = {}" using used by auto
      from split consider (now) us where "?now = xs @ us" | (later) us where "xs = ?now @ us" "cl = us @ h # ys"
        by (auto simp: append_eq_append_conv2)
      then show ?thesis
      proof cases
        case now
        then show ?thesis using free by (metis Int_Un_distrib Un_empty set_append)
      next
        case later
        then show ?thesis using free IH(5) by (simp add: Int_Un_distrib)
      qed
    qed
    ultimately show ?thesis using IH(2,3) es(2) by (intro exI [of _ "?now @ cl"] exI [of _ es']) simp
  qed
qed


section \<open>Reference counts are exact\<close>

text \<open>\<open>r pid\<close> is the count a process should have, and \<open>ext pid\<close> the number of pointers that are held outside
  of the process manager.\<close>

definition p_ok :: "(u64 \<Rightarrow> nat) \<Rightarrow> (u64 \<Rightarrow> nat) \<Rightarrow> 'h process \<Rightarrow> bool" where
  "p_ok r ext p \<longleftrightarrow> (p_pid p \<noteq> 0 \<longrightarrow> unat (p_refCount p) = r (p_pid p)) \<and> p_refCount p \<le> 0x7FFFFFFF \<and>
     (unreferenced p \<longrightarrow> readyForCleanup p) \<and>
     (readyForCleanup p \<longrightarrow> p_status p = ProcEnding \<and> ext (p_pid p) = 0) \<and>
     (p_pid p = 0 \<longrightarrow> p_status p \<noteq> ProcEnding)"

definition counts :: "(u64 \<Rightarrow> nat) \<Rightarrow> (u64 \<Rightarrow> nat) \<Rightarrow> 'h proc_world \<Rightarrow> bool" where
  "counts r ext w \<longleftrightarrow> (\<forall>p \<in> set (pw_processes w). p_ok r ext p)"

text \<open>What the operations on counts leave alone.\<close>

definition stats :: "'h proc_world \<Rightarrow> (u64 \<times> proc_status) list" where
  "stats w = map (\<lambda>p. (p_pid p, p_status p)) (pw_processes w)"

definition pids :: "'h proc_world \<Rightarrow> u64 list" where
  "pids w = map p_pid (pw_processes w)"

lemma pids_stats: "pids w = map fst (stats w)"
  by (simp add: pids_def stats_def comp_def)

definition frame :: "'h proc_world \<Rightarrow> 'h proc_world \<Rightarrow> bool" where
  "frame w w' \<longleftrightarrow> stats w' = stats w \<and>
     pw_current w' = pw_current w \<and> pw_installed w' = pw_installed w \<and> pw_pidCounter w' = pw_pidCounter w"

lemma frame_pids: "frame w w' \<Longrightarrow> pids w' = pids w"
  by (simp add: frame_def pids_stats)

lemma frame_refl [simp]: "frame w w"
  by (simp add: frame_def)

lemma frame_trans: "frame u v \<Longrightarrow> frame v w \<Longrightarrow> frame u w"
  by (simp add: frame_def)

lemma upd_process_fields [simp]:
  "pw_current (upd_process pid f w) = pw_current w" "pw_installed (upd_process pid f w) = pw_installed w"
  "pw_pidCounter (upd_process pid f w) = pw_pidCounter w" "pw_sched (upd_process pid f w) = pw_sched w"
  by (simp_all add: upd_process_def)

lemma ScheduleCleanup_fields [simp]:
  "pw_processes (ScheduleCleanup chk w) = pw_processes w" "pw_current (ScheduleCleanup chk w) = pw_current w"
  "pw_installed (ScheduleCleanup chk w) = pw_installed w" "pw_pidCounter (ScheduleCleanup chk w) = pw_pidCounter w"
  by (simp_all add: ScheduleCleanup_def Let_def)

lemma upd_running_thread_fields [simp]:
  "pw_processes (upd_running_thread f w) = pw_processes w" "pw_current (upd_running_thread f w) = pw_current w"
  "pw_installed (upd_running_thread f w) = pw_installed w" "pw_pidCounter (upd_running_thread f w) = pw_pidCounter w"
  by (simp_all add: upd_running_thread_def Let_def)

lemma frame_upd: "(\<And>p. p_pid (f p) = p_pid p) \<Longrightarrow> (\<And>p. p_status (f p) = p_status p) \<Longrightarrow> frame w (upd_process pid f w)"
  by (simp add: frame_def stats_def upd_process_def)

lemma frame_ScheduleCleanup [simp]: "frame w (ScheduleCleanup chk w') \<longleftrightarrow> frame w w'"
  by (simp add: frame_def stats_def)

lemma counts_ScheduleCleanup [simp]: "counts r ext (ScheduleCleanup chk w) = counts r ext w"
  by (simp add: counts_def)

lemma counts_running_thread [simp]: "counts r ext (upd_running_thread f w) = counts r ext w"
  by (simp add: counts_def)

lemma frame_running_thread [simp]: "frame w (upd_running_thread f w') = frame w w'"
  by (simp add: frame_def stats_def)

lemma find_process_SomeD: "find_process pid ps = Some p \<Longrightarrow> p \<in> set ps \<and> p_pid p = pid"
  by (auto simp: find_process_def find_Some_iff)

lemma find_process_unique:
  "distinct (map p_pid ps) \<Longrightarrow> p \<in> set ps \<Longrightarrow> find_process (p_pid p) ps = Some p"
  unfolding find_process_def by (induction ps) force+

lemma find_process_ex: "pid \<in> p_pid ` set ps \<Longrightarrow> \<exists>p. find_process pid ps = Some p"
  by (cases "find_process pid ps") (auto simp: find_process_def find_None_iff)

lemma same_pid: "distinct (map p_pid ps) \<Longrightarrow> p \<in> set ps \<Longrightarrow> q \<in> set ps \<Longrightarrow> p_pid p = p_pid q \<Longrightarrow> p = q"
  by (auto simp: distinct_map dest: inj_onD)

text \<open>An update of one process keeps the counts if it does so for this process.\<close>

lemma counts_upd:
  assumes "counts r ext w" "\<And>p. p_pid (f p) = p_pid p"
    and "\<And>p. p \<in> set (pw_processes w) \<Longrightarrow> p_pid p = pid \<Longrightarrow> p_ok r ext p \<Longrightarrow> p_ok r' ext' (f p)"
    and "\<And>q. q \<noteq> pid \<Longrightarrow> r' q = r q" "\<And>q. q \<noteq> pid \<Longrightarrow> ext' q = ext q"
  shows "counts r' ext' (upd_process pid f w)"
  unfolding counts_def
proof
  fix q assume "q \<in> set (pw_processes (upd_process pid f w))"
  then obtain p where p: "p \<in> set (pw_processes w)" "q = (if p_pid p = pid then f p else p)"
    by (auto simp: upd_process_def)
  have ok: "p_ok r ext p" using assms(1) p(1) by (simp add: counts_def)
  show "p_ok r' ext' q"
  proof (cases "p_pid p = pid")
    case True
    with p ok show ?thesis using assms(3) by simp
  next
    case False
    then have "p_ok r' ext' p = p_ok r ext p" using assms(4,5) by (simp add: p_ok_def)
    with False p(2) ok show ?thesis by simp
  qed
qed

lemma IncrementRefCount_counts:
  assumes "process_IncrementRefCount pid w = Inr w'" "counts r ext w" "distinct (pids w)"
  shows "counts (r(pid := r pid + 1)) ext w' \<and> frame w w'"
proof -
  obtain p where p: "find_process pid (pw_processes w) = Some p" "\<not> p_refCount p + 1 > 0x7FFFFFFF"
    and w': "w' = upd_process pid (\<lambda>p. p\<lparr>p_refCount := p_refCount p + 1\<rparr>) w"
    using assms(1) by (auto simp: process_IncrementRefCount_def split: option.splits if_splits)
  have only: "q = p" if "q \<in> set (pw_processes w)" "p_pid q = pid" for q
    using same_pid [OF assms(3) [unfolded pids_def], of q p] find_process_SomeD [OF p(1)] that by simp
  have "counts (r(pid := r pid + 1)) ext w'"
    unfolding w'
  proof (rule counts_upd [OF assms(2)])
    fix q assume q: "q \<in> set (pw_processes w)" "p_pid q = pid" "p_ok r ext q"
    then have le: "p_refCount q + 1 \<le> 0x7FFFFFFF" using only p(2) by simp
    have un: "unat (p_refCount q + 1) = unat (p_refCount q) + 1"
      using q(3) by (simp add: p_ok_def word_le_nat_alt unat_word_ariths)
    then have "unreferenced (q\<lparr>p_refCount := p_refCount q + 1\<rparr>) \<Longrightarrow> unreferenced q"
      by (simp add: unreferenced_def word_le_nat_alt)
    with q le un show "p_ok (r(pid := r pid + 1)) ext (q\<lparr>p_refCount := p_refCount q + 1\<rparr>)"
      by (auto simp: p_ok_def)
  qed simp_all
  then show ?thesis unfolding w' by (simp add: frame_upd)
qed


lemma drop_ref_counts:
  assumes "drop_ref msg chk pid w = Inr w'" "counts r ext w" "distinct (pids w)"
    and "pid \<noteq> 0 \<Longrightarrow> ext pid + 2 \<le> r pid"
  shows "counts (r(pid := r pid - 1)) ext w' \<and> frame w w'"
proof -
  obtain p where p: "find_process pid (pw_processes w) = Some p"
    using assms(1) by (auto simp: drop_ref_def split: option.splits)
  define c where c: "c = (if p_refCount p > 0 then p_refCount p - 1 else 0)"
  define rdy where rdy: "rdy \<longleftrightarrow> c \<le> 1 \<and> p_status p = ProcEnding"
  define f where f: "f = (\<lambda>q. if rdy then q\<lparr>p_refCount := c, readyForCleanup := True\<rparr> else q\<lparr>p_refCount := c\<rparr> :: 'a process)"
  have two: "upd_process pid g (upd_process pid h w) = upd_process pid (g \<circ> h) w" if "\<And>p. p_pid (h p) = p_pid p" for g h
    using that by (simp add: upd_process_def comp_def if_distrib cong: if_cong)
  have w': "pw_processes w' = pw_processes (upd_process pid f w)" "frame (upd_process pid f w) w'"
    using assms(1) p by (auto simp: drop_ref_def Let_def c [symmetric] rdy [symmetric] f two comp_def frame_def
        stats_def split: if_splits)
  have p_in: "p \<in> set (pw_processes w)" "p_pid p = pid" using find_process_SomeD [OF p] by auto
  have "counts (r(pid := r pid - 1)) ext (upd_process pid f w)"
  proof (rule counts_upd [OF assms(2)])
    fix q assume "q \<in> set (pw_processes w)" "p_pid q = pid" and ok: "p_ok r ext q"
    then have q: "q = p" "p_pid p = pid" using same_pid [OF assms(3) [unfolded pids_def], of q p] p_in by auto
    have c_le: "c \<le> p_refCount p" unfolding c by (simp add: word_le_nat_alt unat_minus_one word_gt_0)
    have c_r: "unat c = r pid - 1" if "pid \<noteq> 0"
      using that assms(4) ok q by (auto simp: c p_ok_def unat_minus_one word_gt_0)
    have "ext pid = 0" if rdy
      using that assms(4) c_r ok q unfolding rdy by (cases "pid = 0") (auto simp: p_ok_def word_le_nat_alt)
    then show "p_ok (r(pid := r pid - 1)) ext (f q)"
      using ok q c_r c_le order.trans [OF c_le, of "0x7FFFFFFF"] by (auto simp: p_ok_def f rdy unreferenced_def)
  qed (simp_all add: f)
  moreover have "frame w (upd_process pid f w)"
    by (rule frame_upd) (simp_all add: f)
  ultimately show ?thesis
    using w' frame_trans by (auto simp: counts_def)
qed

lemma find_process_upd_other:
  "pid \<noteq> i \<Longrightarrow> (\<And>p. p_pid (f p) = p_pid p) \<Longrightarrow>
   find_process pid (pw_processes (upd_process i f w)) = find_process pid (pw_processes w)"
proof -
  assume "pid \<noteq> i" "\<And>p. p_pid (f p) = p_pid p"
  then have "List.find (\<lambda>p. p_pid p = pid) (map (\<lambda>p. if p_pid p = i then f p else p) ps) =
      List.find (\<lambda>p. p_pid p = pid) ps" for ps
    by (induction ps) auto
  then show ?thesis by (simp add: find_process_def upd_process_def)
qed

lemma drop_ref_others:
  assumes "drop_ref msg chk i w = Inr w'" "pid \<noteq> i"
  shows "find_process pid (pw_processes w') = find_process pid (pw_processes w)"
  using assms by (auto simp: drop_ref_def Let_def find_process_upd_other split: option.splits if_splits)

lemma drop_ref_returns:
  assumes "counts r ext w" "pid \<in> set (pids w)" "pid = 0 \<or> 0 < r pid"
  shows "\<exists>w'. drop_ref msg chk pid w = Inr w'"
proof -
  obtain p where p: "find_process pid (pw_processes w) = Some p"
    using find_process_ex assms(2) by (fastforce simp: pids_def)
  then have "p_ok r ext p" "p_pid p = pid"
    using assms(1) find_process_SomeD by (auto simp: counts_def)
  then have "\<not> (p_refCount p = 0 \<and> pid \<noteq> 0)" using assms(3) by (auto simp: p_ok_def)
  with p show ?thesis by (auto simp: drop_ref_def Let_def)
qed


text \<open>Switching moves one reference from the old to the new process.\<close>

lemma switch_current_counts:
  assumes "switch_current chk pid w = Inr w'" "counts r ext w" "distinct (pids w)"
    and "pw_current w \<noteq> 0 \<Longrightarrow> ext (pw_current w) + 2 \<le> r (pw_current w)"
  shows "counts ((r(pw_current w := r (pw_current w) - 1))(pid := (r(pw_current w := r (pw_current w) - 1)) pid + 1)) ext w' \<and>
    stats w' = stats w \<and> pw_current w' = pid \<and> pw_installed w' = pid \<and> pw_pidCounter w' = pw_pidCounter w"
proof -
  obtain w1 w2 where w1: "drop_ref ''(PROC) DecrementRefCountFromScheduler already 0!'' chk (pw_current w) w = Inr w1"
    and w2: "process_IncrementRefCount pid (w1\<lparr>pw_current := pid\<rparr>) = Inr w2" and w': "w' = w2\<lparr>pw_installed := pid\<rparr>"
    using assms(1) by (auto simp: switch_current_def DecrementRefCountFromScheduler_def
        IncrementRefCountFromScheduler_def bind_result_Inr_iff)
  note d = drop_ref_counts [OF w1 assms(2,3,4)]
  let ?w1 = "w1\<lparr>pw_current := pid\<rparr>"
  have "counts (r(pw_current w := r (pw_current w) - 1)) ext ?w1" "distinct (pids ?w1)"
    using d assms(3) frame_pids [of w w1] by (simp_all add: counts_def pids_def)
  note i = IncrementRefCount_counts [OF w2 this]
  from d i show ?thesis
    unfolding w' by (simp add: counts_def frame_def stats_def)
qed

definition refs :: "u64 \<Rightarrow> (u64 \<Rightarrow> nat) \<Rightarrow> u64 \<Rightarrow> nat" where
  "refs cur ext pid = 1 + (if pid = cur then 1 else 0) + ext pid"

definition shape :: "'h proc_world \<Rightarrow> bool" where
  "shape w \<longleftrightarrow> distinct (pids w) \<and> pids w \<noteq> [] \<and> List.hd (pids w) = 0 \<and> pw_current w \<in> set (pids w) \<and>
     pw_installed w = pw_current w \<and> (\<forall>i \<in> set (pids w). i \<le> pw_pidCounter w)"

definition proc_inv :: "'h proc_world \<Rightarrow> (u64 \<Rightarrow> nat) \<Rightarrow> bool" where
  "proc_inv w ext \<longleftrightarrow> shape w \<and> counts (refs (pw_current w) ext) ext w \<and> (\<forall>i. 0 < ext i \<longrightarrow> i \<in> set (pids w))"

lemma refs_switch:
  "pid \<noteq> cur \<Longrightarrow> (refs cur ext)(cur := refs cur ext cur - 1, pid := ((refs cur ext)(cur := refs cur ext cur - 1)) pid + 1) =
   refs pid ext"
  by (auto simp: refs_def)

lemma switch_current_inv:
  assumes "switch_current chk pid w = Inr w'" "proc_inv w ext" "pid \<in> set (pids w)" "pid \<noteq> pw_current w"
  shows "proc_inv w' ext \<and> stats w' = stats w \<and> pw_current w' = pid"
proof -
  have inv: "counts (refs (pw_current w) ext) ext w" "distinct (pids w)"
    using assms(2) by (simp_all add: proc_inv_def shape_def)
  have "ext (pw_current w) + 2 \<le> refs (pw_current w) ext (pw_current w)" by (simp add: refs_def)
  note s = switch_current_counts [OF assms(1) inv this, unfolded refs_switch [OF assms(4)]]
  then have "pids w' = pids w" by (simp add: pids_stats)
  with s assms(2,3) show ?thesis by (simp add: proc_inv_def shape_def)
qed

lemma SwitchProcess_inv:
  assumes "SwitchProcess chk pid w = Inr (b, w')" "proc_inv w ext"
  shows "proc_inv w' ext \<and> stats w' = stats w \<and> b = (pid \<in> set (pids w)) \<and>
    pw_current w' = (if b then pid else pw_current w)"
proof (cases "pid = pw_current w")
  case True
  with assms show ?thesis by (simp add: SwitchProcess_def proc_inv_def shape_def)
next
  case cur: False
  show ?thesis
  proof (cases "GetByID_process pid True w")
    case None
    then have "pid \<notin> set (pids w)"
      using find_process_ex [of pid "pw_processes w"] by (auto simp: GetByID_process_def pids_def split: option.splits)
    with None cur assms show ?thesis by (simp add: SwitchProcess_def)
  next
    case (Some p)
    then have pid: "pid \<in> set (pids w)"
      using find_process_SomeD by (fastforce simp: GetByID_process_def pids_def split: option.splits)
    have inv: "counts (refs (pw_current w) ext) ext w" "distinct (pids w)"
      using assms(2) by (simp_all add: proc_inv_def shape_def)
    obtain w1 w2 w3 where w1: "process_IncrementRefCount pid w = Inr w1" and w2: "switch_current chk pid w1 = Inr w2"
      and w3: "drop_ref ''(PROC) DecrementRefCount already 0!'' chk pid (upd_running_thread (SetPID pid) w2) = Inr w3"
      and w': "w' = w3" "b"
      using assms(1) cur Some by (auto simp: SwitchProcess_def process_DecrementRefCount_def bind_result_Inr_iff)
    let ?r = "refs (pw_current w) ext" and ?c = "pw_current w"
    note i = IncrementRefCount_counts [OF w1 inv]
    have "?c = pw_current w1" "distinct (pids w1)"
      using i inv(2) by (auto simp: frame_def pids_stats)
    moreover have "ext ?c + 2 \<le> (?r(pid := ?r pid + 1)) ?c" using cur by (simp add: refs_def)
    ultimately have s: "counts ((?r(pid := ?r pid + 1))(?c := ?r ?c - 1, pid := ?r pid + 2)) ext w2"
      "stats w2 = stats w1" "pw_current w2 = pid" "pw_installed w2 = pid" "pw_pidCounter w2 = pw_pidCounter w1"
      using switch_current_counts [OF w2 conjunct1 [OF i]] cur by (auto simp: fun_upd_twist)
    define r2 where r2: "r2 = (?r(pid := ?r pid + 1))(?c := ?r ?c - 1, pid := ?r pid + 2)"
    have d2: "distinct (pids (upd_running_thread (SetPID pid) w2))" "counts r2 ext (upd_running_thread (SetPID pid) w2)"
      using s \<open>distinct (pids w1)\<close> unfolding r2 by (simp_all add: pids_stats) (simp add: stats_def)
    have "ext pid + 2 \<le> r2 pid" by (simp add: refs_def r2)
    moreover have "r2(pid := r2 pid - 1) = refs pid ext" using cur by (auto simp: refs_def r2)
    ultimately have d: "counts (refs pid ext) ext w3 \<and> frame (upd_running_thread (SetPID pid) w2) w3"
      using drop_ref_counts [OF w3 d2(2,1)] by simp
    moreover have "stats w3 = stats w" "pw_current w3 = pid" "pw_installed w3 = pid" "pw_pidCounter w3 = pw_pidCounter w"
      using d i s by (auto simp: frame_def stats_def)
    moreover have "pids w3 = pids w" using \<open>stats w3 = stats w\<close> by (simp add: pids_stats)
    ultimately show ?thesis
      using d assms(2) pid w' by (simp add: proc_inv_def shape_def)
  qed
qed


section \<open>The process manager as a state machine\<close>

text \<open>The operations as steps, with the pointers held elsewhere as a ghost. A pointer is obtained by
  creating a process, by looking up one that is not ending, or by copying one that is held. The
  cleanup thread works while the kernel process is current, and no user thread starts in a process
  that is ending. Operations that panic are not steps.\<close>

inductive proc_step :: "'h proc_world \<times> (u64 \<Rightarrow> nat) \<Rightarrow> 'h proc_world \<times> (u64 \<Rightarrow> nat) \<Rightarrow> bool" where
  step_new: "pw_pidCounter w < 0xFFFFFFFFFFFFFFFF \<Longrightarrow> NewProcess chk name args parent w = Inr (pid, w') \<Longrightarrow>
    proc_step (w, ext) (w', ext(pid := 1))"
| step_look_up: "GetByID_process pid False w \<noteq> None \<or> 0 < ext pid \<Longrightarrow> process_IncrementRefCount pid w = Inr w' \<Longrightarrow>
    proc_step (w, ext) (w', ext(pid := ext pid + 1))"
| step_drop: "0 < ext pid \<Longrightarrow> process_DecrementRefCount chk pid w = Inr w' \<Longrightarrow>
    proc_step (w, ext) (w', ext(pid := ext pid - 1))"
| step_switch: "SwitchProcess chk pid w = Inr (b, w') \<Longrightarrow> proc_step (w, ext) (w', ext)"
| step_schedule: "SwitchProcessFromScheduler chk pid w = Inr w' \<Longrightarrow> proc_step (w, ext) (w', ext)"
| step_end: "End chk pid w = Inr w' \<Longrightarrow> proc_step (w, ext) (w', ext)"
| step_terminate: "Terminate chk pid w = Inr w' \<Longrightarrow> proc_step (w, ext) (w', ext)"
| step_thread_start: "GetProcessStatusByID pid w \<noteq> ProcEnding \<Longrightarrow> user_thread_start chk pid w = Inr (b, w') \<Longrightarrow>
    proc_step (w, ext) (w', ext)"
| step_thread_end: "EndCurrentThread chk w = Inr w' \<Longrightarrow> proc_step (w, ext) (w', ext)"
| step_cleanup: "pid \<in> set (cleanUps w) \<Longrightarrow> find_process pid (pw_processes w) = Some p \<Longrightarrow>
    proc_step (w, ext) (CleanupStart thread_of p w, ext)"
| step_cleaned: "pid \<in> set (cleanUps w) \<Longrightarrow> find_process pid (pw_processes w) = Some p \<Longrightarrow> pw_current w = 0 \<Longrightarrow>
    CleanupFinish chk uses bytes_of uninit body p w = Some (closed, w') \<Longrightarrow> proc_step (w, ext) (w', ext)"
| step_idle: "proc_step (w, ext) (IdleHook chk w, ext)"

inductive proc_reachable :: "'h proc_world \<times> (u64 \<Rightarrow> nat) \<Rightarrow> bool" where
  initially: "proc_reachable (ProcessManager_new token s m, \<lambda>_. 0)"
| steps: "proc_reachable x \<Longrightarrow> proc_step x y \<Longrightarrow> proc_reachable y"

lemma proc_inv_frame:
  assumes "proc_inv w ext" "frame w w'" "counts (refs (pw_current w) ext) ext w'"
  shows "proc_inv w' ext"
  using assms frame_pids [OF assms(2)] by (simp add: proc_inv_def shape_def frame_def)

lemma proc_inv_stats:
  assumes "proc_inv w ext" "pids w' = pids w" "pw_current w' = pw_current w" "pw_installed w' = pw_installed w"
    "pw_pidCounter w' = pw_pidCounter w" "counts (refs (pw_current w) ext) ext w'"
  shows "proc_inv w' ext"
  using assms by (simp add: proc_inv_def shape_def)

lemma p_ok_touch: "p_ok r ext p \<Longrightarrow> p_ok r ext (touch p)"
  by (auto simp: touch_def p_ok_def unreferenced_def)

lemma touch_pid [simp]: "p_pid (touch p) = p_pid p"
  by (simp add: touch_def)

lemma wake_for_fields [simp]:
  "pw_processes (wake_for chk ps w) = pw_processes w" "pw_current (wake_for chk ps w) = pw_current w"
  "pw_installed (wake_for chk ps w) = pw_installed w" "pw_pidCounter (wake_for chk ps w) = pw_pidCounter w"
  by (simp_all add: wake_for_def)

lemma p_ok_ext:
  "p_ok r ext p \<Longrightarrow> r' (p_pid p) = r (p_pid p) \<Longrightarrow> (ext (p_pid p) = 0 \<Longrightarrow> ext' (p_pid p) = 0) \<Longrightarrow> p_ok r' ext' p"
  by (simp add: p_ok_def)

lemma NewProcess_inv:
  assumes "NewProcess chk name args parent w = Inr (pid, w')" "pw_pidCounter w < 0xFFFFFFFFFFFFFFFF" "proc_inv w ext"
  shows "proc_inv w' (ext(pid := 1))"
proof -
  obtain pp where pp: "find_process parent (pw_processes w) = Some pp"
    and pid: "pid = pw_pidCounter w + 1"
    and w': "w' = wake_for chk (pw_processes w) (w\<lparr>pw_pidCounter := pid, pw_processes := map touch (pw_processes w) @
      [(process_new name args pp)\<lparr>p_pid := pid, p_refCount := 2\<rparr>]\<rparr>)"
    using assms(1) by (auto simp: NewProcess_def Let_def split: option.splits)
  let ?p = "(process_new name args pp)\<lparr>p_pid := pid, p_refCount := 2\<rparr>"
  have "unat (pw_pidCounter w) + 1 < 2 ^ 64"
    using assms(2) by (simp add: word_less_nat_alt)
  then have less: "pw_pidCounter w < pid" "0 < pid" 
    unfolding pid by (simp_all add: word_less_nat_alt unat_word_ariths)
  have bound: "i < pid" if "i \<in> set (pids w)" for i
    using assms(3) that less(1) by (auto simp: proc_inv_def shape_def)
  have cur: "pw_current w \<noteq> pid" using bound assms(3) by (auto simp: proc_inv_def shape_def)
  have ids: "pids w' = pids w @ [pid]"
    by (simp add: w' pids_def comp_def)
  have "p_ok (refs (pw_current w) (ext(pid := 1))) (ext(pid := 1)) (touch p)" if "p \<in> set (pw_processes w)" for p
  proof (rule p_ok_ext [of "refs (pw_current w) ext" ext])
    show "p_ok (refs (pw_current w) ext) ext (touch p)"
      using assms(3) that by (simp add: proc_inv_def counts_def p_ok_touch)
    have "p_pid p \<noteq> pid" using bound [of "p_pid p"] that by (auto simp: pids_def)
    then show "refs (pw_current w) (ext(pid := 1)) (p_pid (touch p)) = refs (pw_current w) ext (p_pid (touch p))"
      "ext (p_pid (touch p)) = 0 \<Longrightarrow> (ext(pid := 1)) (p_pid (touch p)) = 0"
      by (simp_all add: refs_def)
  qed
  moreover have "p_ok (refs (pw_current w) (ext(pid := 1))) (ext(pid := 1)) ?p"
    using cur less(2) by (simp add: p_ok_def refs_def unreferenced_def process_new_def process_empty_def)
  ultimately have "counts (refs (pw_current w) (ext(pid := 1))) (ext(pid := 1)) w'"
    by (auto simp: w' counts_def)
  moreover have "shape w'"
    using assms(3) bound less ids by (auto simp: proc_inv_def shape_def w' less_imp_le)
  moreover have "0 < (ext(pid := 1)) i \<longrightarrow> i \<in> set (pids w')" for i
    using assms(3) ids by (auto simp: proc_inv_def)
  ultimately show ?thesis by (simp add: proc_inv_def w')
qed


lemma proc_inv_not_ready:
  assumes "proc_inv w ext" "GetByID_process pid False w \<noteq> None \<or> 0 < ext pid" "p \<in> set (pw_processes w)" "p_pid p = pid"
  shows "\<not> readyForCleanup p"
proof -
  have ok: "p_ok (refs (pw_current w) ext) ext p" and d: "distinct (map p_pid (pw_processes w))"
    using assms(1,3) by (simp_all add: proc_inv_def counts_def shape_def pids_def)
  have "GetByID_process pid False w \<noteq> None \<Longrightarrow> p_status p \<noteq> ProcEnding"
    using find_process_unique [OF d assms(3)] assms(4) by (auto simp: GetByID_process_def)
  then show ?thesis using assms(2,4) ok by (auto simp: p_ok_def)
qed

lemma look_up_inv:
  assumes "process_IncrementRefCount pid w = Inr w'" "GetByID_process pid False w \<noteq> None \<or> 0 < ext pid" "proc_inv w ext"
  shows "proc_inv w' (ext(pid := ext pid + 1))"
proof -
  let ?e = "ext(pid := ext pid + 1)" and ?r = "refs (pw_current w) ext"
  have "p_ok ?r ?e p" if "p \<in> set (pw_processes w)" for p
    using assms(3) that proc_inv_not_ready [OF assms(3,2) that]
    by (auto simp: proc_inv_def counts_def p_ok_def)
  then have "counts ?r ?e w" by (simp add: counts_def)
  moreover have "distinct (pids w)" using assms(3) by (simp add: proc_inv_def shape_def)
  ultimately have "counts (?r(pid := ?r pid + 1)) ?e w' \<and> frame w w'"
    by (rule IncrementRefCount_counts [OF assms(1)])
  moreover have "?r(pid := ?r pid + 1) = refs (pw_current w) ?e" by (auto simp: refs_def)
  moreover have "pid \<in> set (pids w)"
    using assms(1) find_process_SomeD by (fastforce simp: process_IncrementRefCount_def pids_def split: option.splits)
  ultimately show ?thesis
    using assms(3) frame_pids [of w w'] by (auto simp: proc_inv_def shape_def frame_def)
qed

lemma drop_inv:
  assumes "drop_ref msg chk pid w = Inr w'" "0 < ext pid" "proc_inv w ext"
  shows "proc_inv w' (ext(pid := ext pid - 1))"
proof -
  let ?e = "ext(pid := ext pid - 1)" and ?r = "refs (pw_current w) ext"
  have "counts ?r ?e w"
    using assms(3) by (auto simp: proc_inv_def counts_def p_ok_def)
  moreover have "distinct (pids w)" using assms(3) by (simp add: proc_inv_def shape_def)
  moreover have "?e pid + 2 \<le> ?r pid" using assms(2) by (simp add: refs_def)
  ultimately have "counts (?r(pid := ?r pid - 1)) ?e w' \<and> frame w w'"
    using drop_ref_counts [OF assms(1)] by blast
  moreover have "?r(pid := ?r pid - 1) = refs (pw_current w) ?e" using assms(2) by (auto simp: refs_def)
  ultimately show ?thesis
    using assms(3) frame_pids [of w w'] by (auto simp: proc_inv_def shape_def frame_def split: if_splits)
qed

lemma SwitchProcessFromScheduler_inv:
  assumes "SwitchProcessFromScheduler chk pid w = Inr w'" "proc_inv w ext"
  shows "proc_inv w' ext \<and> pw_current w' = pid"
proof (cases "pid = pw_current w")
  case True
  with assms show ?thesis by (simp add: SwitchProcessFromScheduler_def)
next
  case False
  then obtain p where "find_process pid (pw_processes w) = Some p" "switch_current chk pid w = Inr w'"
    using assms(1) by (auto simp: SwitchProcessFromScheduler_def split: if_splits)
  moreover from this have "pid \<in> set (pids w)" using find_process_SomeD by (fastforce simp: pids_def)
  ultimately show ?thesis using switch_current_inv [OF _ assms(2) _ False] by blast
qed

lemma mark_ending_inv:
  fixes w :: "'a proc_world"
  assumes "proc_inv w ext" "pid \<noteq> 0"
  shows "proc_inv (upd_process pid (\<lambda>p. p\<lparr>p_status := ProcEnding,
      readyForCleanup := (if p_refCount p \<le> 1 then True else readyForCleanup p)\<rparr>) w) ext"
    (is "proc_inv (upd_process pid ?f w) ext")
proof (rule proc_inv_stats [OF assms(1)])
  show "counts (refs (pw_current w) ext) ext (upd_process pid ?f w)"
  proof (rule counts_upd)
    show "counts (refs (pw_current w) ext) ext w" using assms(1) by (simp add: proc_inv_def)
    fix p :: "'a process" assume p: "p_pid p = pid" "p_ok (refs (pw_current w) ext) ext p"
    have "ext pid = 0" if "p_refCount p \<le> 1"
      using that p assms(2) by (auto simp: p_ok_def refs_def word_le_nat_alt split: if_splits)
    then show "p_ok (refs (pw_current w) ext) ext (?f p)"
      using p assms(2) by (auto simp: p_ok_def unreferenced_def)
  qed simp_all
qed (simp_all add: pids_def upd_process_def)

lemma upd_process_inv:
  assumes "proc_inv w ext" "\<And>p. p_pid (f p) = p_pid p" "\<And>p. p_status (f p) = p_status p"
    "\<And>p. p_refCount (f p) = p_refCount p" "\<And>p. readyForCleanup (f p) = readyForCleanup p"
  shows "proc_inv (upd_process pid f w) ext"
proof (rule proc_inv_frame [OF assms(1) frame_upd])
  show "counts (refs (pw_current w) ext) ext (upd_process pid f w)"
    by (rule counts_upd [of "refs (pw_current w) ext" ext])
      (use assms in \<open>simp_all add: proc_inv_def p_ok_def unreferenced_def\<close>)
qed (simp_all add: assms)

lemma sched_only_inv [simp]:
  "proc_inv (w\<lparr>pw_sched := s\<rparr>) ext = proc_inv w ext" "proc_inv (w\<lparr>pw_msgs := m\<rparr>) ext = proc_inv w ext"
  "proc_inv (w\<lparr>pw_deps := d\<rparr>) ext = proc_inv w ext" "proc_inv (upd_running_thread f w) ext = proc_inv w ext"
  "proc_inv (ScheduleCleanup chk w) ext = proc_inv w ext"
  by (simp_all add: proc_inv_def shape_def counts_def pids_def)

lemma End_inv:
  assumes "End chk pid w = Inr w'" "proc_inv w ext"
  shows "proc_inv w' ext"
proof -
  obtain w1 where w1: "proc_inv w1 ext"
    "(if pw_current w1 = pid then bind_result (SwitchProcess chk 0 w1) (\<lambda>(b, w2). Inr w2) else Inr w1) = Inr w'"
    using assms mark_ending_inv [OF assms(2), of pid]
    by (auto simp: End_def Let_def split: option.splits if_splits)
  then show ?thesis using SwitchProcess_inv [OF _ w1(1)] by (auto simp: bind_result_Inr_iff split: if_splits)
qed

lemma Terminate_inv:
  assumes "Terminate chk pid w = Inr w'" "proc_inv w ext"
  shows "proc_inv w' ext"
proof -
  define w1 where w1: "w1 = upd_process pid (\<lambda>p. p\<lparr>returnValue := -1\<rparr>) w"
  have inv1: "proc_inv w1 ext" unfolding w1 by (rule upd_process_inv [OF assms(2)]) simp_all
  obtain w2 w3 where
    w2: "(if pw_current w1 = pid then bind_result (SwitchProcess chk 0 w1) (\<lambda>(b, w2). Inr w2) else Inr w1) = Inr w2"
    and w3: "End chk pid w2 = Inr w3"
    and w': "w' = w3\<lparr>pw_sched := AbortThreadsByPID pid (pw_sched w3)\<rparr> \<or>
      w' = upd_running_thread thread_Abort (w3\<lparr>pw_sched := AbortThreadsByPID pid (pw_sched w3)\<rparr>)"
    using assms(1) unfolding Terminate_def Let_def w1 [symmetric]
    by (auto simp: bind_result_Inr_iff simp del: upd_process_fields split: if_splits)
  have "proc_inv w2 ext"
    using w2 inv1 SwitchProcess_inv [OF _ inv1] by (auto simp: bind_result_Inr_iff split: if_splits)
  then have "proc_inv w3 ext" by (rule End_inv [OF w3])
  then show ?thesis using w' by auto
qed


lemma map_of_status: "map_of (map (\<lambda>p. (p_pid p, p_status p)) ps) pid = map_option p_status (find_process pid ps)"
  by (induction ps) (simp_all add: find_process_def)

lemma pids_upd: "(\<And>p. p_pid (f p) = p_pid p) \<Longrightarrow> pids (upd_process i f w) = pids w"
  by (simp add: pids_def upd_process_def)

lemma GetProcessStatusByID_stats:
  "GetProcessStatusByID pid w = (case map_of (stats w) pid of Some s \<Rightarrow> s | None \<Rightarrow> DoesNotExist)"
  by (simp add: GetProcessStatusByID_def stats_def map_of_status split: option.split)

lemma find_process_pids: "pid \<in> set (pids w) \<Longrightarrow> \<exists>p. find_process pid (pw_processes w) = Some p"
  using find_process_ex by (fastforce simp: pids_def)

lemma find_process_upd:
  "(\<And>p. p_pid (f p) = p_pid p) \<Longrightarrow>
   find_process pid (pw_processes (upd_process pid f w)) = map_option f (find_process pid (pw_processes w))"
proof -
  assume "\<And>p. p_pid (f p) = p_pid p"
  then have "List.find (\<lambda>p. p_pid p = pid) (map (\<lambda>p. if p_pid p = pid then f p else p) ps) =
      map_option f (List.find (\<lambda>p. p_pid p = pid) ps)" for ps
    by (induction ps) simp_all
  then show ?thesis by (simp add: upd_process_def find_process_def)
qed

lemma set_status_inv:
  assumes "proc_inv w ext" "GetProcessStatusByID pid w \<noteq> ProcEnding" "s \<noteq> ProcEnding"
  shows "proc_inv (upd_process pid (SetStatus s) w) ext \<and> GetProcessStatusByID pid (upd_process pid (SetStatus s) w) \<noteq> ProcEnding"
proof
  have d: "distinct (map p_pid (pw_processes w))" using assms(1) by (simp add: proc_inv_def shape_def pids_def)
  show "proc_inv (upd_process pid (SetStatus s) w) ext"
  proof (rule proc_inv_stats [OF assms(1)])
    show "counts (refs (pw_current w) ext) ext (upd_process pid (SetStatus s) w)"
    proof (rule counts_upd)
      show "counts (refs (pw_current w) ext) ext w" using assms(1) by (simp add: proc_inv_def)
      fix p assume p: "p \<in> set (pw_processes w)" "p_pid p = pid" "p_ok (refs (pw_current w) ext) ext p"
      then have "p_status p \<noteq> ProcEnding"
        using assms(2) find_process_unique [OF d p(1)] by (simp add: GetProcessStatusByID_def)
      then show "p_ok (refs (pw_current w) ext) ext (SetStatus s p)"
        using p assms(3) by (auto simp: p_ok_def SetStatus_def unreferenced_def)
    qed (simp_all add: SetStatus_def)
  qed (simp_all add: pids_def upd_process_def SetStatus_def)
  show "GetProcessStatusByID pid (upd_process pid (SetStatus s) w) \<noteq> ProcEnding"
    using assms(3) find_process_upd [of "SetStatus s" pid w]
    by (auto simp: GetProcessStatusByID_def SetStatus_def split: option.split)
qed

lemma user_thread_start_inv:
  assumes "user_thread_start chk pid w = Inr (b, w')" "GetProcessStatusByID pid w \<noteq> ProcEnding" "proc_inv w ext"
  shows "proc_inv w' ext"
proof -
  obtain ok w1 where w1: "SwitchProcess chk pid w = Inr (ok, w1)"
    using assms(1) by (auto simp: user_thread_start_def bind_result_Inr_iff)
  note s = SwitchProcess_inv [OF w1 assms(3)]
  show ?thesis
  proof (cases ok)
    case False
    with assms(1) w1 s show ?thesis by (simp add: user_thread_start_def)
  next
    case True
    define w2 where w2: "w2 = upd_running_thread (SetPriority 100 \<circ> (\<lambda>t. t\<lparr>t_name := ''Userspace''\<rparr>)) w1"
    have "stats w2 = stats w" "pw_current w2 = pid" using s True by (simp_all add: w2 stats_def)
    then have w2_ok: "GetProcessStatusByID pid w2 \<noteq> ProcEnding" "proc_inv w2 ext"
      using assms(2) s unfolding w2 by (simp_all add: GetProcessStatusByID_stats)
    have "w' = upd_process pid (SetStatus Running) (upd_process pid (SetStatus Running) w2)"
      using assms(1) True w1 \<open>pw_current w2 = pid\<close>
      unfolding user_thread_start_def by (auto simp: Let_def w2 [symmetric] split: if_splits)
    then show ?thesis using set_status_inv [OF w2_ok(2,1), of Running] set_status_inv by blast
  qed
qed

lemma EndCurrentThread_inv:
  assumes "EndCurrentThread chk w = Inr w'" "proc_inv w ext"
  shows "proc_inv w' ext"
proof -
  obtain t where t: "current_thread (pw_sched w) = Some t"
    using assms(1) by (auto simp: EndCurrentThread_def split: option.splits)
  obtain w1 where
    w1: "(if t_pid t \<noteq> 0 then bind_result (SwitchProcess chk 0 w) (\<lambda>(b, w'). Inr w') else Inr w) = Inr w1"
    and "bind_result (ThreadEnd chk (t_id t) (pw_sched w1)) (\<lambda>s. Inr (w1\<lparr>pw_sched := s\<rparr>)) = Inr w'"
    using assms(1) t unfolding EndCurrentThread_def
    by (simp only: option.case bind_result_Inr_iff split: if_split_asm) auto
  then obtain s where w': "w' = w1\<lparr>pw_sched := s\<rparr>" by (auto simp: bind_result_Inr_iff)
  have "proc_inv w1 ext"
    using w1 assms(2) SwitchProcess_inv [OF _ assms(2)] by (auto simp: bind_result_Inr_iff split: if_splits)
  then show ?thesis unfolding w' by simp
qed

lemma erase_at_member: "x \<in> set xs \<Longrightarrow> i < length xs \<Longrightarrow> x \<noteq> xs ! i \<Longrightarrow> x \<in> set (erase_at i xs)"
proof (induction xs arbitrary: i)
  case Nil
  then show ?case by simp
next
  case (Cons a xs)
  then show ?case by (cases i) auto
qed

lemma RemoveProcess_inv:
  assumes "proc_inv w ext" "ext pid = 0" "pw_current w \<noteq> pid"
  shows "proc_inv (RemoveProcess chk pid w) ext"
proof (cases "find_index (\<lambda>p. p_pid p = pid) (pw_processes w)")
  case None
  with assms show ?thesis by (simp add: RemoveProcess_def)
next
  case (Some i)
  note i = find_index_SomeD [OF Some]
  show ?thesis
  proof (cases "i = 0")
    case True
    with Some assms show ?thesis by (simp add: RemoveProcess_def)
  next
    case False
    define w' where w': "w' = RemoveProcess chk pid w"
    have procs: "pw_processes w' = take i (pw_processes w) @ map touch (drop (Suc i) (pw_processes w))"
      and same: "pw_current w' = pw_current w" "pw_installed w' = pw_installed w" "pw_pidCounter w' = pw_pidCounter w"
      using Some False by (simp_all add: w' RemoveProcess_def Let_def)
    have ids: "pids w' = erase_at i (pids w)"
      by (simp add: pids_def procs erase_at_def take_map drop_map comp_def)
    have len: "i < length (pids w)" and nth: "pids w ! i = pid" using i by (simp_all add: pids_def)
    have keep: "j \<in> set (pids w')" if "j \<in> set (pids w)" "j \<noteq> pid" for j
      unfolding ids using erase_at_member [OF that(1) len] that(2) nth by simp
    have "pids w' \<noteq> [] \<and> List.hd (pids w') = List.hd (pids w)"
      unfolding ids erase_at_def using False len by (cases "pids w"; cases i) auto
    moreover have "set (pids w') \<subseteq> set (pids w)" unfolding ids by (rule set_erase_at)
    moreover have "distinct (pids w')"
      unfolding ids using assms(1) by (intro distinct_erase_at) (simp add: proc_inv_def shape_def)
    moreover have "counts (refs (pw_current w) ext) ext w'"
      using assms(1) unfolding counts_def procs proc_inv_def
      by (auto dest: in_set_takeD in_set_dropD intro: p_ok_touch)
    moreover have "i \<in> set (pids w')" if "0 < ext i" for i
      using that keep [of i] assms(1,2) by (cases "i = pid") (auto simp: proc_inv_def)
    ultimately show ?thesis
      using assms keep same unfolding w' [symmetric] proc_inv_def shape_def by (auto dest: subsetD)
  qed
qed


lemma CleanupStart_inv: "proc_inv w ext \<Longrightarrow> proc_inv (CleanupStart thread_of p w) ext"
  unfolding CleanupStart_def Let_def case_prod_beta by (rule upd_process_inv) simp_all

lemma CleanupFinish_inv:
  assumes "CleanupFinish chk uses bytes_of uninit body p w = Some (closed, w')" "proc_inv w ext"
    and "ext (p_pid p) = 0" "pw_current w \<noteq> p_pid p"
  shows "proc_inv w' ext"
proof -
  obtain es deps where "cleanup_rounds uses (m_data (p_handles p)) (pw_deps w) [] = Some (closed, es, deps)"
    using assms(1) by (auto simp: CleanupFinish_def Let_def)
  define w1 where w1: "w1 = upd_process (p_pid p) (\<lambda>p. p\<lparr>p_handles := (p_handles p)\<lparr>m_data := es\<rparr>\<rparr>) (w\<lparr>pw_deps := deps\<rparr>)"
  define w2 where w2: "w2 = (if p_parent p \<noteq> 0 \<and> GetByID_process (p_parent p) False w1 \<noteq> None
      then upd_process (p_parent p) (SetChildReturnValue (p_pid p) (returnValue p)) w1 else w1)"
  obtain m where w': "w' = RemoveProcess chk (p_pid p) w2 \<lparr>pw_msgs := m\<rparr>"
    using assms(1)
    unfolding CleanupFinish_def \<open>cleanup_rounds _ _ _ _ = _\<close> Let_def option.map split prod.case w1 [symmetric] w2 [symmetric]
    by blast
  have "proc_inv w1 ext" unfolding w1 by (rule upd_process_inv) (simp_all add: assms(2))
  then have "proc_inv w2 ext" unfolding w2 by (auto intro!: upd_process_inv simp: SetChildReturnValue_def)
  moreover have "pw_current w2 = pw_current w" by (simp add: w2 w1)
  ultimately show ?thesis
    using assms(3,4) RemoveProcess_inv [of w2 ext "p_pid p" chk] unfolding w' by simp
qed

lemma cleanUps_ready:
  assumes "proc_inv w ext" "pid \<in> set (cleanUps w)" "find_process pid (pw_processes w) = Some p"
  shows "p_pid p = pid \<and> pid \<noteq> 0 \<and> ext pid = 0 \<and> IsReadyForCleanup p"
proof -
  obtain q where q: "q \<in> set (pw_processes w)" "IsReadyForCleanup q" "p_pid q = pid"
    using assms(2) by (auto simp: cleanUps_def)
  moreover have "p_ok (refs (pw_current w) ext) ext q" "distinct (map p_pid (pw_processes w))"
    using assms(1) q(1) by (simp_all add: proc_inv_def counts_def shape_def pids_def)
  ultimately show ?thesis
    using find_process_unique [of "pw_processes w" q] assms(3) by (auto simp: p_ok_def IsReadyForCleanup_def)
qed

lemma proc_step_inv: "proc_step x y \<Longrightarrow> proc_inv (fst x) (snd x) \<Longrightarrow> proc_inv (fst y) (snd y)"
proof (induction rule: proc_step.induct)
  case (step_new w chk name args parent pid w' ext)
  then show ?case unfolding fst_conv snd_conv by (intro NewProcess_inv)
next
  case (step_look_up pid w ext w')
  then show ?case unfolding fst_conv snd_conv by (intro look_up_inv)
next
  case (step_drop ext pid chk w w')
  then show ?case unfolding fst_conv snd_conv process_DecrementRefCount_def by (intro drop_inv)
next
  case (step_switch chk pid w b w' ext)
  then show ?case using SwitchProcess_inv by (metis fst_conv snd_conv)
next
  case (step_schedule chk pid w w' ext)
  then show ?case using SwitchProcessFromScheduler_inv by (metis fst_conv snd_conv)
next
  case (step_end chk pid w w' ext)
  then show ?case using End_inv by simp
next
  case (step_terminate chk pid w w' ext)
  then show ?case using Terminate_inv by simp
next
  case (step_thread_start pid w chk b w' ext)
  then show ?case using user_thread_start_inv by simp
next
  case (step_thread_end chk w w' ext)
  then show ?case using EndCurrentThread_inv by simp
next
  case (step_cleanup pid w p ext thread_of)
  then show ?case using CleanupStart_inv by simp
next
  case (step_cleaned pid w p chk uses bytes_of uninit body closed w' ext)
  then show ?case using cleanUps_ready [of w ext pid p] CleanupFinish_inv [OF step_cleaned(4)] by simp
next
  case (step_idle w ext chk)
  then show ?case by (simp add: IdleHook_def)
qed

lemma proc_reachable_inv: "proc_reachable x \<Longrightarrow> proc_inv (fst x) (snd x)"
proof (induction rule: proc_reachable.induct)
  case (initially token s m)
  show ?case
    by (simp add: ProcessManager_new_def Let_def case_prod_beta proc_inv_def shape_def pids_def counts_def p_ok_def
        refs_def unreferenced_def CreateKernelProcess_def process_empty_def)
next
  case (steps x y)
  then show ?case by (metis proc_step_inv)
qed


section \<open>Properties\<close>


definition demo_world :: "nat proc_world" where
  "demo_world = ProcessManager_new 0
     (demo_scheduler\<lparr>sch_lock := \<lparr>the_lock = NewLock, thread_locks = (\<lambda>_. 0)\<rparr>\<rparr>)
     \<lparr>messages = [], idCounter = 0, subscribers = [], cur_msg = (\<lambda>_. 0), msg_status = (\<lambda>_. Normal)\<rparr>"


text \<open>Consequences: dropping a pointer that is held never panics, and the scheduler's switch to any
  process in the vector succeeds, below the limit of the count; it makes that process current.\<close>

theorem reference_operations_return:
  assumes "proc_reachable (w, ext)" "\<forall>p \<in> set (pw_processes w). p_refCount p < 0x7FFFFFFF"
  shows "(0 < ext pid \<longrightarrow> (\<exists>w'. process_DecrementRefCount chk pid w = Inr w')) \<and>
    (find_process pid (pw_processes w) \<noteq> None \<longrightarrow>
      (\<exists>w'. SwitchProcessFromScheduler chk pid w = Inr w' \<and> pw_current w' = pid \<and> pw_installed w' = pid))"
proof -
  have inv: "proc_inv w ext" using proc_reachable_inv [OF assms(1)] by simp
  then have cnt: "counts (refs (pw_current w) ext) ext w" "distinct (pids w)" "pw_current w \<in> set (pids w)"
    by (simp_all add: proc_inv_def shape_def)
  have "\<exists>w'. process_DecrementRefCount chk pid w = Inr w'" if "0 < ext pid"
    unfolding process_DecrementRefCount_def using that inv
    by (intro drop_ref_returns [OF cnt(1)]) (auto simp: proc_inv_def refs_def)
  moreover have "\<exists>w'. SwitchProcessFromScheduler chk pid w = Inr w'"
    if found: "find_process pid (pw_processes w) \<noteq> None"
  proof (cases "pid = pw_current w")
    case True
    then show ?thesis by (simp add: SwitchProcessFromScheduler_def)
  next
    case False
    obtain p where p: "find_process pid (pw_processes w) = Some p" using found by auto
    let ?m = "''(PROC) DecrementRefCountFromScheduler already 0!''"
    obtain w1 where w1: "drop_ref ?m chk (pw_current w) w = Inr w1"
      using drop_ref_returns [OF cnt(1,3)] by (auto simp: refs_def)
    have "find_process pid (pw_processes w1) = Some p"
      using drop_ref_others [OF w1 False] p by simp
    moreover have "p_refCount p + 1 \<le> 0x7FFFFFFF"
      using assms(2) find_process_SomeD [OF p] by (auto simp: word_less_nat_alt word_le_nat_alt unat_word_ariths)
    ultimately have "\<exists>w2. process_IncrementRefCount pid (w1\<lparr>pw_current := pid\<rparr>) = Inr w2"
      by (simp add: process_IncrementRefCount_def)
    then show ?thesis
      using False p w1 by (auto simp: SwitchProcessFromScheduler_def switch_current_def
          DecrementRefCountFromScheduler_def IncrementRefCountFromScheduler_def)
  qed
  moreover have "pw_current w' = pid \<and> pw_installed w' = pid" if "SwitchProcessFromScheduler chk pid w = Inr w'" for w'
    using SwitchProcessFromScheduler_inv [OF that inv] by (auto simp: proc_inv_def shape_def)
  ultimately show ?thesis by blast
qed


theorem reference_operations_return_witness:
  "\<exists>w'. SwitchProcessFromScheduler (\<lambda>_. False) 0 demo_world = Inr w' \<and> pw_current w' = 0 \<and> pw_installed w' = 0"
proof -
  have procs: "pw_processes demo_world = [(CreateKernelProcess 0)\<lparr>p_refCount := 1\<rparr>]"
    by (simp add: demo_world_def ProcessManager_new_def Let_def case_prod_beta)
  have "proc_reachable (demo_world, \<lambda>_. 0)" unfolding demo_world_def by (rule initially)
  moreover have "\<forall>p \<in> set (pw_processes demo_world). p_refCount p < 0x7FFFFFFF"
    by (simp add: procs)
  moreover have "find_process 0 (pw_processes demo_world) \<noteq> None"
    by (simp add: procs find_process_def CreateKernelProcess_def)
  ultimately show ?thesis
    using reference_operations_return [of demo_world "\<lambda>_. 0" 0 "\<lambda>_. False"] by blast
qed






text \<open>A user thread that starts after its process has ended makes the process run again: the status
  is overwritten, and the cleanup thread passes it over although it is still marked.\<close>

theorem ended_process_resurrected:
  assumes "user_thread_start chk pid w = Inr (True, w')" "find_process pid (pw_processes w) = Some p"
    and "p_status p = ProcEnding" "proc_inv w ext"
  shows "GetProcessStatusByID pid w' = Running \<and> pid \<notin> set (cleanUps w')"
proof -
  obtain w1 where w1: "SwitchProcess chk pid w = Inr (True, w1)"
    using assms(1) by (auto simp: user_thread_start_def bind_result_Inr_iff split: if_splits)
  note s = SwitchProcess_inv [OF w1 assms(4)]
  define w2 where w2: "w2 = upd_running_thread (SetPriority 100 \<circ> (\<lambda>t. t\<lparr>t_name := ''Userspace''\<rparr>)) w1"
  have "pw_current w2 = pid" using s by (simp add: w2)
  then have w': "w' = upd_process pid (SetStatus Running) (upd_process pid (SetStatus Running) w2)"
    using assms(1) w1 unfolding user_thread_start_def by (auto simp: Let_def w2 [symmetric] split: if_splits)
  have all: "p_status q = Running" if q: "q \<in> set (pw_processes w')" "p_pid q = pid" for q
  proof -
    obtain q' where "q = (if p_pid q' = pid then SetStatus Running q' else q')"
      using q(1) unfolding w' upd_process_def [of pid _ "upd_process _ _ _"]
      by (simp del: if_image_distrib add: image_iff) (elim bexE, rule that)
    with q(2) show ?thesis by (simp add: SetStatus_def split: if_splits)
  qed
  have "stats w2 = stats w" using s by (simp add: w2 stats_def)
  then have "pids w2 = pids w" by (simp add: pids_stats)
  then have "pids w' = pids w"
    unfolding w' by (simp add: pids_upd SetStatus_def)
  moreover have "pid \<in> set (pids w)" using find_process_SomeD [OF assms(2)] by (auto simp: pids_def)
  ultimately obtain q where q: "find_process pid (pw_processes w') = Some q"
    using find_process_pids [of pid w'] by auto
  then have "GetProcessStatusByID pid w' = Running"
    using all find_process_SomeD [OF q] by (simp add: GetProcessStatusByID_def)
  moreover have "pid \<notin> set (cleanUps w')"
    using all by (auto simp: cleanUps_def IsReadyForCleanup_def)
  ultimately show ?thesis by blast
qed


theorem ended_process_resurrected_witness:
  "\<exists>w w'. GetProcessStatusByID 1 (w :: nat proc_world) = ProcEnding \<and> 1 \<in> set (cleanUps w) \<and>
     user_thread_start (\<lambda>_. False) 1 w = Inr (True, w') \<and> GetProcessStatusByID 1 w' = Running \<and> 1 \<notin> set (cleanUps w')"
proof -
  let ?k = "(CreateKernelProcess 0)\<lparr>p_refCount := 1\<rparr> :: nat process"
  let ?p = "process_empty\<lparr>p_pid := 1, p_refCount := 1, p_status := ProcEnding, readyForCleanup := True\<rparr> :: nat process"
  define w where w: "w = demo_world\<lparr>pw_processes := [?k, ?p], pw_pidCounter := 1\<rparr>"
  have cur: "pw_current w = 0" "pw_installed w = 0" "pw_processes w = [?k, ?p]" "pw_pidCounter w = 1"
    by (simp_all add: w demo_world_def ProcessManager_new_def Let_def case_prod_beta)
  have locks: "thread_locks (sch_lock (pw_sched w)) i = 0" for i
    by (simp add: w demo_world_def ProcessManager_new_def Let_def case_prod_beta NewThread_def)
  have inv: "proc_inv w (\<lambda>_. 0)"
    by (simp add: proc_inv_def shape_def pids_def cur counts_def p_ok_def refs_def unreferenced_def
        CreateKernelProcess_def process_empty_def)
  have find: "find_process 1 (pw_processes w) = Some ?p"
    by (simp add: cur find_process_def CreateKernelProcess_def)
  have st: "GetProcessStatusByID 1 w = ProcEnding" "1 \<in> set (cleanUps w)"
    using find by (simp_all add: GetProcessStatusByID_def cleanUps_def cur IsReadyForCleanup_def)
  have "\<exists>w'. user_thread_start (\<lambda>_. False) 1 w = Inr (True, w')"
    by (simp add: user_thread_start_def SwitchProcess_def GetByID_process_def process_IncrementRefCount_def
        switch_current_def DecrementRefCountFromScheduler_def IncrementRefCountFromScheduler_def drop_ref_def
        process_DecrementRefCount_def upd_process_def find_process_def cur CreateKernelProcess_def process_empty_def
        Let_def upd_running_thread_def ScheduleCleanup_def locks)
  then obtain w' where "user_thread_start (\<lambda>_. False) 1 w = Inr (True, w')" by blast
  with st ended_process_resurrected [OF this find _ inv] show ?thesis by (intro exI [of _ w] exI [of _ w']) simp
qed

end
