(* ===== verification/Physical_Memory.thy ===== *)
theory Physical_Memory
  imports Kernel_Prelude
begin

text \<open>
  The physical memory manager, src/src/kernel/mm2/physical.cpp: the array of page descriptors, the
  search for a free page, the binary search for the page with an address, and freeing.

  A page descriptor is one 32-bit word, the address in the upper 20 bits and the status in the
  lower 12. A pointer to a descriptor is its position in the array or in the vector of pages of
  device memory. The entries of the multiboot memory map that the boot loop visits are a list.

  The lemmas show that address and status of a descriptor do not disturb one another; that
  allocation finds a free page whenever there is one other than the last allocated and marks it;
  that it never returns when there is none and the last page of the array was the last allocated;
  that the binary search is exact on an array with increasing addresses, and that it misses pages
  when the array ends with unused descriptors, as the boot loop leaves it.
\<close>

unbundle bit_operations_syntax

section \<open>Page descriptors\<close>

(* src/src/kernel/mm2/mm2_internal.hpp:16-20 PageStatus *)
datatype page_status = Free | InUse | MMIO

(* src/src/kernel/mm2/mm2_internal.hpp:16-20 PageStatus *)
fun page_status_id :: "page_status \<Rightarrow> u32" where
  "page_status_id Free = 0" | "page_status_id InUse = 1" | "page_status_id MMIO = 2"

(* src/src/include/module/kernelsys/mm2.hpp:19-19 MM2_Address_Mask *)
definition MM2_Address_Mask :: u32 where
  "MM2_Address_Mask = 0xFFFFF000"

(* src/src/kernel/mm2/mm2_internal.hpp:28-32 physical_page::physical_page *)
definition make_page :: "u32 \<Rightarrow> page_status \<Rightarrow> u32" where
  "make_page addr s = addr OR page_status_id s"

(* src/src/kernel/mm2/mm2_internal.hpp:34-36 physical_page::address() *)
definition page_address :: "u32 \<Rightarrow> u32" where
  "page_address v = v AND MM2_Address_Mask"

(* src/src/kernel/mm2/mm2_internal.hpp:38-41 physical_page::address(uint32_t) *)
definition set_page_address :: "u32 \<Rightarrow> u32 \<Rightarrow> u32" where
  "set_page_address a v = (v AND NOT MM2_Address_Mask) OR a"

text \<open>The number in the lower bits, as a status: one that is none of the three has no name.\<close>

(* src/src/kernel/mm2/mm2_internal.hpp:43-48 physical_page::status() *)
definition page_status_of :: "u32 \<Rightarrow> page_status option" where
  "page_status_of v =
     (let s = v AND NOT MM2_Address_Mask
      in if s = 0 then Some Free else if s = 1 then Some InUse else if s = 2 then Some MMIO else None)"

(* src/src/kernel/mm2/mm2_internal.hpp:50-55 physical_page::status(PageStatus) *)
definition set_page_status :: "page_status \<Rightarrow> u32 \<Rightarrow> u32" where
  "set_page_status s v = (v AND MM2_Address_Mask) OR page_status_id s"

section \<open>The array of pages\<close>

(* src/src/kernel/mm2/physical.cpp:9-15 MM2 *)
record pmm =
  physical_pages :: "u32 list"
  free_pages :: u32
  lastidx :: u32
  io_pages :: "u32 list"
  end_of_kernel :: u32

(* src/src/kernel/mm2/physical.cpp:12-12 total_pages *)
definition total_pages :: "pmm \<Rightarrow> u32" where
  "total_pages m = of_nat (length (physical_pages m))"

(* src/src/kernel/mm2/physical.cpp:32-36 init_account *)
definition init_account :: "u32 \<Rightarrow> u32 list \<Rightarrow> u32 list" where
  "init_account kernel_end ps =
     map (\<lambda>v. if page_address v < kernel_end then set_page_status InUse v else v) ps"

(* src/src/kernel/mm2/physical.cpp:38-44 mm2_init_alloc *)
definition mm2_init_alloc :: "u32 \<Rightarrow> pmm \<Rightarrow> u32 \<times> pmm" where
  "mm2_init_alloc n m =
     (let e = end_of_kernel m + n
      in (end_of_kernel m, m\<lparr>end_of_kernel := e, physical_pages := init_account e (physical_pages m)\<rparr>))"

(* src/src/kernel/mm2/physical.cpp:46-49 mm2_init_page_alloc *)
definition mm2_init_page_alloc :: "pmm \<Rightarrow> u32 \<times> pmm" where
  "mm2_init_page_alloc m =
     (let e = end_of_kernel m
      in mm2_init_alloc 4096 (m\<lparr>end_of_kernel := (if e mod 4096 \<noteq> 0 then e + (4096 - e mod 4096) else e)\<rparr>))"

text \<open>An entry of the memory map: type, lower half of the base and of the length.\<close>

type_synonym mmap_entry = "u32 \<times> u32 \<times> u32"

(* src/src/kernel/mm2/physical.cpp:65-72 mm2_physical_init *)
definition usable_region :: "mmap_entry \<Rightarrow> bool" where
  "usable_region e = (case e of (ty, base, len) \<Rightarrow>
     ty = 1 \<and> len > 0 \<and> \<not> (base < 1024 * 1024 \<and> len < 1024 * 1024))"

(* src/src/kernel/mm2/physical.cpp:63-74 mm2_physical_init *)
definition count_pages :: "mmap_entry list \<Rightarrow> u32" where
  "count_pages es = sum_list (map (\<lambda>(ty, base, len). len div 4096) (filter usable_region es))"

text \<open>The loop over the pages of one region compares the page's end with the length of the region
  and not with its end. It ends because the address grows, unless it wraps around.\<close>

(* src/src/kernel/mm2/physical.cpp:90-94 mm2_physical_init *)
partial_function (option) account_region :: "u32 \<Rightarrow> u32 \<Rightarrow> u32 list \<Rightarrow> nat \<Rightarrow> (u32 list \<times> nat) result option" where
  "account_region page_addr len ps current_page =
     (if page_addr + 4096 < len
      then if current_page < length ps
           then account_region (page_addr + 4096) len
                  (ps[current_page := set_page_status Free (set_page_address page_addr (ps ! current_page))]) (current_page + 1)
           else Some (Inl Undefined)
      else Some (Inr (ps, current_page)))"

(* src/src/kernel/mm2/physical.cpp:82-99 mm2_physical_init *)
fun account_regions :: "mmap_entry list \<Rightarrow> u32 list \<Rightarrow> nat \<Rightarrow> (u32 list \<times> nat) result option" where
  "account_regions [] ps current_page = Some (Inr (ps, current_page))"
| "account_regions (e # es) ps current_page =
     (if usable_region e
      then (case account_region (fst (snd e)) (snd (snd e)) ps current_page of
              None \<Rightarrow> None
            | Some (Inl err) \<Rightarrow> Some (Inl err)
            | Some (Inr (ps', c)) \<Rightarrow> account_regions es ps' c)
      else account_regions es ps current_page)"

text \<open>The array is cleared when it is allocated behind the kernel and its boot modules, so every
  descriptor starts with address zero; \<open>mod_ends\<close> are the ends of the modules.\<close>

(* src/src/kernel/mm2/physical.cpp:51-103 mm2_physical_init *)
definition mm2_physical_init :: "u32 \<Rightarrow> u32 list \<Rightarrow> mmap_entry list \<Rightarrow> pmm result option" where
  "mm2_physical_init kernel_end mod_ends es =
     (let e = foldl (\<lambda>e m. if m > e then m else e) kernel_end mod_ends;
          n = count_pages es;
          e' = e + 4 * n
      in map_option (\<lambda>r. bind_result r (\<lambda>(ps, c).
           Inr \<lparr>physical_pages = init_account e' ps, free_pages = n, lastidx = 0, io_pages = [], end_of_kernel = e'\<rparr>))
         (account_regions es (replicate (unat n) 0) 0))"

section \<open>Allocating\<close>

text \<open>The search runs downwards from the page before the last one allocated, around the array, until
  it meets that page again. The result is the position found, if any.\<close>

(* src/src/kernel/mm2/physical.cpp:109-119 physical_alloc *)
partial_function (option) alloc_loop :: "u32 list \<Rightarrow> u32 \<Rightarrow> u32 \<Rightarrow> u32 \<Rightarrow> u32 option result option" where
  "alloc_loop ps max_addr li idx =
     (if idx = li then Some (Inr None)
      else let i = (if idx > of_nat (length ps) then of_nat (length ps) - 1 else idx)
           in if unat i \<ge> length ps then Some (Inl Undefined)
              else if page_status_of (ps ! unat i) = Some Free \<and> page_address (ps ! unat i) < max_addr
              then Some (Inr (Some i))
              else alloc_loop ps max_addr li (i - 1))"

(* src/src/kernel/mm2/physical.cpp:105-122 physical_alloc *)
definition physical_alloc :: "u32 \<Rightarrow> pmm \<Rightarrow> (u32 \<times> pmm) result option" where
  "physical_alloc max_addr m =
     map_option (\<lambda>r. bind_result r (\<lambda>found.
       case found of
         None \<Rightarrow> Inl (Panic ''(MM2) PYSICAL PAGE ALLOCATION FAILED!'')
       | Some i \<Rightarrow> Inr (i, m\<lparr>physical_pages := (physical_pages m)[unat i := set_page_status InUse (physical_pages m ! unat i)],
                             free_pages := free_pages m - 1, lastidx := i\<rparr>)))
       (alloc_loop (physical_pages m) max_addr (lastidx m) (lastidx m - 1))"

section \<open>Finding and freeing\<close>

datatype page_ref = Phys nat | IO nat

definition deref :: "page_ref \<Rightarrow> pmm \<Rightarrow> u32" where
  "deref r m = (case r of Phys i \<Rightarrow> physical_pages m ! i | IO i \<Rightarrow> io_pages m ! i)"

definition update_page :: "page_ref \<Rightarrow> u32 \<Rightarrow> pmm \<Rightarrow> pmm" where
  "update_page r v m = (case r of
     Phys i \<Rightarrow> m\<lparr>physical_pages := (physical_pages m)[i := v]\<rparr>
   | IO i \<Rightarrow> m\<lparr>io_pages := (io_pages m)[i := v]\<rparr>)"

(* src/src/kernel/mm2/physical.cpp:136-148 find_page *)
function find_page_loop :: "u32 list \<Rightarrow> u32 \<Rightarrow> nat \<Rightarrow> int \<Rightarrow> nat option result" where
  "find_page_loop ps addr mn mx =
     (let guess = nat ((int mn + mx) div 2)
      in if guess \<ge> length ps then Inl Undefined
         else if page_address (ps ! guess) = addr then Inr (Some guess)
         else if page_address (ps ! guess) < addr
              then (if mx < int (guess + 1) then Inr None else find_page_loop ps addr (guess + 1) mx)
              else (if int guess - 1 < int mn then Inr None else find_page_loop ps addr mn (int guess - 1)))"
  by pat_completeness auto
termination
  by (relation "measure (\<lambda>(ps, addr, mn, mx). nat (mx - int mn + 1))") (auto simp: nat_less_iff split: if_splits)

declare find_page_loop.simps [simp del]

(* src/src/kernel/mm2/physical.cpp:130-149 find_page *)
definition find_page :: "u32 \<Rightarrow> pmm \<Rightarrow> page_ref option result" where
  "find_page addr m =
     (case find_index (\<lambda>v. page_address v = addr) (io_pages m) of
        Some i \<Rightarrow> Inr (Some (IO i))
      | None \<Rightarrow>
          bind_result (find_page_loop (physical_pages m) addr 0 (int (length (physical_pages m)) - 1))
            (\<lambda>r. Inr (map_option Phys r)))"

(* src/src/kernel/mm2/physical.cpp:124-128 physical_free *)
definition free_page :: "page_ref \<Rightarrow> pmm \<Rightarrow> pmm" where
  "free_page r m =
     (let v = deref r m;
          v' = (if page_status_of v = Some InUse then set_page_status Free v else v);
          m' = update_page r v' m
      in if page_status_of v' \<noteq> Some MMIO then m'\<lparr>free_pages := free_pages m' + 1\<rparr> else m')"

(* src/src/kernel/mm2/physical.cpp:151-156 physical_free *)
definition physical_free :: "u32 \<Rightarrow> pmm \<Rightarrow> pmm result" where
  "physical_free addr m =
     bind_result (find_page (addr AND MM2_Address_Mask) m)
       (\<lambda>r. Inr (case r of None \<Rightarrow> m | Some p \<Rightarrow> free_page p m))"

(* src/src/kernel/mm2/physical.cpp:162-168 physical_mark_used *)
definition physical_mark_used :: "u32 \<Rightarrow> pmm \<Rightarrow> pmm result" where
  "physical_mark_used addr m =
     bind_result (find_page (addr AND MM2_Address_Mask) m)
       (\<lambda>r. Inr (case r of None \<Rightarrow> m | Some p \<Rightarrow> update_page p (set_page_status InUse (deref p m)) m))"

(* src/src/kernel/mm2/physical.cpp:175-184 physical_get_io_page *)
definition physical_get_io_page :: "u32 \<Rightarrow> pmm \<Rightarrow> (page_ref \<times> pmm) result" where
  "physical_get_io_page addr m =
     (let a = addr AND MM2_Address_Mask
      in bind_result (find_page a m) (\<lambda>r. Inr (case r of
           Some p \<Rightarrow> (p, m)
         | None \<Rightarrow> (IO (length (io_pages m)), m\<lparr>io_pages := io_pages m @ [make_page a MMIO]\<rparr>))))"

section \<open>Descriptors\<close>

lemma page_address_status [simp]: "page_address (set_page_status s v) = page_address v"
  unfolding page_address_def set_page_status_def MM2_Address_Mask_def
  by (cases s) (simp_all add: bit.conj_disj_distrib2 and.assoc)

lemma page_status_set [simp]: "page_status_of (set_page_status s v) = Some s"
proof -
  have "((v AND MM2_Address_Mask) OR page_status_id s) AND NOT MM2_Address_Mask = page_status_id s"
    unfolding MM2_Address_Mask_def
    by (cases s) (simp_all add: bit.conj_disj_distrib2 and.assoc)
  then show ?thesis
    unfolding page_status_of_def set_page_status_def by (cases s) simp_all
qed

lemma page_address_set [simp]: "page_address (set_page_address a v) = page_address a"
  unfolding page_address_def set_page_address_def MM2_Address_Mask_def
  by (simp add: bit.conj_disj_distrib2 and.assoc)

lemma page_status_set_address:
  "a AND NOT MM2_Address_Mask = 0 \<Longrightarrow> page_status_of (set_page_address a v) = page_status_of v"
  unfolding page_status_of_def set_page_address_def by (simp add: bit.conj_disj_distrib2 and.assoc)

lemma page_address_make [simp]: "page_address (make_page a s) = page_address a"
  unfolding page_address_def make_page_def MM2_Address_Mask_def
  by (cases s) (simp_all add: bit.conj_disj_distrib2)

lemma page_address_idem [simp]: "page_address (page_address v) = page_address v"
  by (simp add: page_address_def and.assoc)

lemma length_init_account [simp]: "length (init_account e ps) = length ps"
  by (simp add: init_account_def)

lemma init_account_address [simp]: "map page_address (init_account e ps) = map page_address ps"
  by (simp add: init_account_def)

section \<open>Allocating\<close>

text \<open>Whether the page at a position can be given out, and the order in which the search visits the
  positions: downwards from the last allocated, then from the top. The last allocated page itself is
  tried only when it is the last of the array.\<close>

definition takeable :: "u32 \<Rightarrow> u32 list \<Rightarrow> nat \<Rightarrow> bool" where
  "takeable max_addr ps i \<longleftrightarrow> page_status_of (ps ! i) = Some Free \<and> page_address (ps ! i) < max_addr"

definition search_order :: "nat \<Rightarrow> nat \<Rightarrow> nat list" where
  "search_order l n = rev [0..<l] @ (if Suc l = n then [l] else rev [Suc l..<n])"

lemma of_nat_u32_less: "a < b \<Longrightarrow> b < 2 ^ 32 \<Longrightarrow> (of_nat a :: u32) < of_nat b"
  by (simp add: word_less_nat_alt unat_of_nat)

lemma unat_of_nat_u32: "a < 2 ^ 32 \<Longrightarrow> unat (of_nat a :: u32) = a"
  by (simp add: unat_of_nat)

lemma alloc_loop_step:
  assumes "k < length ps" "length ps < 2 ^ 32 - 1" "k \<noteq> l" "l < length ps"
  shows "alloc_loop ps mx (of_nat l) (of_nat k) =
    (if takeable mx ps k then Some (Inr (Some (of_nat k))) else alloc_loop ps mx (of_nat l) (of_nat k - 1))"
proof -
  have "(of_nat k :: u32) \<noteq> of_nat l"
  proof
    assume "(of_nat k :: u32) = of_nat l"
    then have "unat (of_nat k :: u32) = unat (of_nat l :: u32)" by simp
    then show False
      using assms by (simp only: unat_of_nat_u32)
  qed
  moreover have "\<not> (of_nat k :: u32) > of_nat (length ps)"
    using assms of_nat_u32_less [of k "length ps"] by simp
  moreover have "unat (of_nat k :: u32) = k"
    using assms by (simp add: unat_of_nat_u32)
  ultimately show ?thesis
    using assms by (subst alloc_loop.simps) (simp add: takeable_def Let_def)
qed

lemma alloc_loop_upper:
  assumes "length ps < 2 ^ 32 - 1"
  shows "l \<le> k \<Longrightarrow> k < length ps \<Longrightarrow> alloc_loop ps mx (of_nat l) (of_nat k) =
    Some (Inr (map_option of_nat (List.find (takeable mx ps) (rev [Suc l..<Suc k]))))"
proof (induction k)
  case 0
  then show ?case
    by (subst alloc_loop.simps) simp
next
  case (Suc k)
  show ?case
  proof (cases "l = Suc k")
    case True
    then show ?thesis
      by (subst alloc_loop.simps) simp
  next
    case False
    with Suc have "l \<le> k" "k < length ps" "l < length ps"
      by simp_all
    with Suc False alloc_loop_step [OF Suc.prems(2) assms, of l mx] show ?thesis
      by simp
  qed
qed

lemma alloc_loop_lower:
  assumes "length ps < 2 ^ 32 - 1" "l < length ps"
  shows "k < l \<Longrightarrow> alloc_loop ps mx (of_nat l) (of_nat k) =
    (case List.find (takeable mx ps) (rev [0..<Suc k]) of
       Some i \<Rightarrow> Some (Inr (Some (of_nat i)))
     | None \<Rightarrow> alloc_loop ps mx (of_nat l) (- 1))"
proof (induction k)
  case 0
  then show ?case
    using alloc_loop_step [of 0 ps l mx] assms by (cases ps) simp_all
next
  case (Suc k)
  then show ?case
    using alloc_loop_step [of "Suc k" ps l mx] assms by simp
qed

lemma alloc_loop_wrap:
  assumes "length ps < 2 ^ 32 - 1" "l < length ps"
  shows "alloc_loop ps mx (of_nat l) (- 1) =
    (if takeable mx ps (length ps - 1) then Some (Inr (Some (of_nat (length ps - 1))))
     else alloc_loop ps mx (of_nat l) (of_nat (length ps - 1) - 1))"
proof -
  have n: "unat (of_nat (length ps) :: u32) = length ps" "unat (of_nat l :: u32) = l"
    using assms by (simp_all add: unat_of_nat_u32)
  have m: "unat (- 1 :: u32) = 2 ^ 32 - 1"
    by (simp add: unsigned_minus_1_eq_mask mask_eq_exp_minus_1)
  have "(- 1 :: u32) \<noteq> of_nat l"
    using assms n m by (metis less_trans less_irrefl)
  moreover have "(- 1 :: u32) > of_nat (length ps)"
    using assms n m by (simp add: word_less_nat_alt)
  moreover have "(of_nat (length ps) - 1 :: u32) = of_nat (length ps - 1)"
    using assms by (cases "length ps") simp_all
  moreover have "unat (of_nat (length ps - 1) :: u32) = length ps - 1"
    using assms by (intro unat_of_nat_u32) linarith
  moreover have "\<not> length ps \<le> length ps - 1"
    using assms by linarith
  ultimately show ?thesis
    by (subst alloc_loop.simps) (simp add: takeable_def Let_def)
qed

lemma find_append: "List.find P (xs @ ys) = (case List.find P xs of Some x \<Rightarrow> Some x | None \<Rightarrow> List.find P ys)"
  by (induction xs) auto

lemma alloc_loop_first:
  assumes "length ps < 2 ^ 32 - 1" "l < length ps"
  shows "alloc_loop ps mx (of_nat l) (of_nat l - 1) =
    (case List.find (takeable mx ps) (rev [0..<l]) of
       Some i \<Rightarrow> Some (Inr (Some (of_nat i)))
     | None \<Rightarrow> alloc_loop ps mx (of_nat l) (- 1))"
  using alloc_loop_lower [OF assms, of "l - 1" mx] by (cases l) simp_all

lemma alloc_loop_around:
  assumes "length ps < 2 ^ 32 - 1" "Suc l < length ps"
  shows "alloc_loop ps mx (of_nat l) (- 1) =
    Some (Inr (map_option of_nat (List.find (takeable mx ps) (rev [Suc l..<length ps]))))"
proof -
  obtain n where n: "length ps = Suc n"
    using assms by (cases "length ps") simp_all
  have "alloc_loop ps mx (of_nat l) (- 1) = alloc_loop ps mx (of_nat l) (of_nat n)"
    using alloc_loop_wrap [of ps l mx] alloc_loop_step [of n ps l mx] assms n by simp
  then show ?thesis
    using alloc_loop_upper [OF assms(1), of l n mx] assms n by simp
qed

text \<open>With nothing to take and the last page of the array as the last allocated, the search passes
  that page by without meeting it and goes round for ever.\<close>

lemma alloc_loop_stuck:
  assumes "alloc_loop ps mx li idx = Some r"
  shows "length ps < 2 ^ 32 - 1 \<Longrightarrow> ps \<noteq> [] \<Longrightarrow> li = of_nat (length ps - 1) \<Longrightarrow>
    (\<forall>i < length ps. \<not> takeable mx ps i) \<Longrightarrow> idx = - 1 \<or> unat idx < length ps - 1 \<Longrightarrow> False"
  using assms
proof (induction ps mx li idx r rule: alloc_loop.raw_induct [rotated, consumes 1])
  case (1 rec ps mx li idx r)
  define i :: u32 where "i = (if idx > of_nat (length ps) then of_nat (length ps) - 1 else idx)"
  have un: "unat (of_nat (length ps) :: u32) = length ps" "unat (of_nat (length ps - 1) :: u32) = length ps - 1"
    using "1.prems"(1) by (auto intro!: unat_of_nat_u32)
  have m1: "unat (- 1 :: u32) = 2 ^ 32 - 1"
    by (simp add: unsigned_minus_1_eq_mask mask_eq_exp_minus_1)
  have ne: "idx \<noteq> li"
  proof
    assume "idx = li"
    then have "unat idx = length ps - 1"
      using "1.prems"(3) un(2) by simp
    moreover have "unat idx = 2 ^ 32 - 1" if "idx = - 1"
      unfolding that by (rule m1)
    ultimately show False
      using "1.prems"(1,5) by linarith
  qed
  have "of_nat (length ps) - 1 = (of_nat (length ps - 1) :: u32)"
    using "1.prems"(2) by (cases "length ps") simp_all
  then have i: "unat i < length ps"
    using "1.prems" un m1 by (auto simp: i_def word_less_nat_alt)
  have "rec ps mx li (i - 1) = Some r"
    using "1.hyps" ne i "1.prems"(4) by (simp add: i_def [symmetric] Let_def takeable_def split: if_splits)
  moreover have "i - 1 = - 1 \<or> unat (i - 1) < length ps - 1"
  proof (cases "i = 0")
    case False
    then have "unat (i - 1) = unat i - 1" "unat i \<noteq> 0"
      by (simp_all add: unat_minus_one unat_eq_0)
    with i show ?thesis by linarith
  qed simp
  ultimately show ?case
    using "1.IH" "1.prems" by blast
qed

lemma alloc_loop_exact:
  assumes "length ps < 2 ^ 32 - 1" "l < length ps"
  shows "alloc_loop ps mx (of_nat l) (of_nat l - 1) =
    (case List.find (takeable mx ps) (search_order l (length ps)) of
       Some i \<Rightarrow> Some (Inr (Some (of_nat i)))
     | None \<Rightarrow> if Suc l = length ps then None else Some (Inr None))"
proof (cases "Suc l = length ps")
  case False
  with assms have "Suc l < length ps" by simp
  note around = alloc_loop_around [OF assms(1) this, of mx]
  show ?thesis
    unfolding alloc_loop_first [OF assms] around search_order_def find_append
    using False by (cases "List.find (takeable mx ps) (rev [0..<l])"; cases "List.find (takeable mx ps) (rev [Suc l..<length ps])") simp_all
next
  case True
  then have l: "length ps - 1 = l" by simp
  show ?thesis
  proof (cases "List.find (takeable mx ps) (search_order l (length ps))")
    case (Some i)
    then show ?thesis
      unfolding alloc_loop_first [OF assms] alloc_loop_wrap [OF assms] search_order_def find_append
      using True l by (cases "List.find (takeable mx ps) (rev [0..<l])"; cases "takeable mx ps l") simp_all
  next
    case None
    then have none: "\<forall>i < length ps. \<not> takeable mx ps i"
      unfolding find_None_iff search_order_def by (auto simp: True [symmetric] less_Suc_eq)
    have "alloc_loop ps mx (of_nat l) (- 1) = None"
    proof (rule ccontr)
      assume "alloc_loop ps mx (of_nat l) (- 1) \<noteq> None"
      then obtain r where "alloc_loop ps mx (of_nat l) (- 1) = Some r" by blast
      from alloc_loop_stuck [OF this assms(1)] assms(2) l none show False by force
    qed
    moreover have "List.find (takeable mx ps) (rev [0..<l]) = None"
      unfolding find_None_iff using none True by simp
    ultimately show ?thesis
      unfolding alloc_loop_first [OF assms] None using True by simp
  qed
qed

text \<open>The state of the allocator: the array fits, and the last allocated page is one of it.\<close>

definition pmm_ok :: "pmm \<Rightarrow> bool" where
  "pmm_ok m \<longleftrightarrow> length (physical_pages m) < 2 ^ 32 - 1 \<and> unat (lastidx m) < length (physical_pages m)"

definition take_page :: "nat \<Rightarrow> pmm \<Rightarrow> pmm" where
  "take_page i m = m\<lparr>physical_pages := (physical_pages m)[i := set_page_status InUse (physical_pages m ! i)],
     free_pages := free_pages m - 1, lastidx := of_nat i\<rparr>"

lemma search_order_mem: "l < n \<Longrightarrow> i \<in> set (search_order l n) \<longleftrightarrow> i < n \<and> (i \<noteq> l \<or> Suc l = n)"
  by (auto simp: search_order_def)

lemma search_order_bound: "l < n \<Longrightarrow> i \<in> set (search_order l n) \<Longrightarrow> i < n"
  by (auto simp: search_order_def split: if_splits)

lemma physical_alloc_exact:
  assumes "pmm_ok m"
  shows "physical_alloc mx m =
    (case List.find (takeable mx (physical_pages m)) (search_order (unat (lastidx m)) (length (physical_pages m))) of
       Some i \<Rightarrow> Some (Inr (of_nat i, take_page i m))
     | None \<Rightarrow> if Suc (unat (lastidx m)) = length (physical_pages m) then None
               else Some (Inl (Panic ''(MM2) PYSICAL PAGE ALLOCATION FAILED!'')))"
proof -
  have "length (physical_pages m) < 2 ^ 32 - 1" "unat (lastidx m) < length (physical_pages m)"
    using assms by (simp_all add: pmm_ok_def)
  note ok = this
  show ?thesis
  proof (cases "List.find (takeable mx (physical_pages m)) (search_order (unat (lastidx m)) (length (physical_pages m)))")
    case None
    with alloc_loop_exact [OF ok, of mx] show ?thesis
      by (simp add: physical_alloc_def)
  next
    case (Some i)
    then have "i \<in> set (search_order (unat (lastidx m)) (length (physical_pages m)))"
      by (auto simp: find_Some_iff)
    with ok have "unat (of_nat i :: u32) = i"
      using search_order_bound [OF ok(2)] by (intro unat_of_nat_u32) fastforce
    with Some alloc_loop_exact [OF ok, of mx] show ?thesis
      by (simp add: physical_alloc_def take_page_def)
  qed
qed

definition counted_free :: "pmm \<Rightarrow> u32" where
  "counted_free m = of_nat (length (filter (\<lambda>v. page_status_of v = Some Free) (physical_pages m)))"

lemma count_update:
  assumes "i < length xs" "\<not> P v" "P (xs ! i)"
  shows "length (filter P xs) = Suc (length (filter P (xs[i := v])))"
proof -
  have "xs = take i xs @ xs ! i # drop (Suc i) xs"
    using assms(1) by (rule id_take_nth_drop)
  then have "length (filter P xs) = length (filter P (take i xs @ xs ! i # drop (Suc i) xs))"
    by (rule arg_cong)
  then show ?thesis
    using assms by (simp add: upd_conv_take_nth_drop)
qed

lemma counted_free_take:
  assumes "i < length (physical_pages m)" "page_status_of (physical_pages m ! i) = Some Free"
  shows "counted_free (take_page i m) = counted_free m - 1"
  using count_update [OF assms(1), of "\<lambda>v. page_status_of v = Some Free" "set_page_status InUse (physical_pages m ! i)"] assms(2)
  by (simp add: counted_free_def take_page_def)


definition demo_pages :: pmm where
  "demo_pages = \<lparr>physical_pages = [0x100001, 0x101000, 0x102001, 0x103001], free_pages = 1, lastidx = 2,
     io_pages = [0xB8002], end_of_kernel = 0x101000\<rparr>"

lemma demo_pages_ok: "pmm_ok demo_pages" "takeable 0xFFFFFFFF (physical_pages demo_pages) 1"
  by (simp_all add: pmm_ok_def demo_pages_def takeable_def page_status_of_def page_address_def MM2_Address_Mask_def)


section \<open>Finding and freeing\<close>

definition ascending :: "u32 list \<Rightarrow> bool" where
  "ascending ps \<longleftrightarrow> sorted_wrt (<) (map page_address ps)"

lemma ascendingD: "ascending ps \<Longrightarrow> i < j \<Longrightarrow> j < length ps \<Longrightarrow> page_address (ps ! i) < page_address (ps ! j)"
  unfolding ascending_def by (drule sorted_wrt_nth_less [of _ _ i j]) simp_all

lemma ascending_inject:
  "ascending ps \<Longrightarrow> i < length ps \<Longrightarrow> j < length ps \<Longrightarrow> page_address (ps ! i) = page_address (ps ! j) \<Longrightarrow> i = j"
  by (metis ascendingD less_irrefl linorder_neqE_nat)

definition found_in :: "u32 list \<Rightarrow> u32 \<Rightarrow> nat \<Rightarrow> int \<Rightarrow> nat option \<Rightarrow> bool" where
  "found_in ps addr mn mx r = (case r of
     Some i \<Rightarrow> i < length ps \<and> page_address (ps ! i) = addr
   | None \<Rightarrow> \<forall>j. mn \<le> j \<longrightarrow> int j \<le> mx \<longrightarrow> page_address (ps ! j) \<noteq> addr)"

lemma found_in_up:
  assumes "ascending ps" "g < length ps" "page_address (ps ! g) < addr" "found_in ps addr (g + 1) mx r"
  shows "found_in ps addr mn mx r"
proof -
  have "page_address (ps ! j) \<noteq> addr" if "j \<le> g" for j
    using that assms ascendingD [of ps j g] by (cases "j = g") auto
  with assms(4) show ?thesis
    unfolding found_in_def by (cases r) (auto, metis not_less_eq_eq)
qed

lemma found_in_down:
  assumes "ascending ps" "mx < int (length ps)" "addr < page_address (ps ! g)" "found_in ps addr mn (int g - 1) r"
  shows "found_in ps addr mn mx r"
proof -
  have "page_address (ps ! j) \<noteq> addr" if "g \<le> j" "int j \<le> mx" for j
    using that assms ascendingD [of ps g j] by (cases "j = g") auto
  with assms(4) show ?thesis
    unfolding found_in_def by (cases r) (auto simp: not_le [symmetric])
qed

lemma found_in_empty: "mx < int mn \<Longrightarrow> found_in ps addr mn mx None"
  by (simp add: found_in_def)

lemma find_page_loop_exact:
  assumes "ascending ps"
  shows "mx < int (length ps) \<Longrightarrow> int mn \<le> mx \<Longrightarrow>
    \<exists>r. find_page_loop ps addr mn mx = Inr r \<and> found_in ps addr mn mx r"
proof (induction "nat (mx - int mn)" arbitrary: mn mx rule: less_induct)
  case less
  define g where "g = nat ((int mn + mx) div 2)"
  have g: "mn \<le> g" "int g \<le> mx" "g < length ps"
    using less.prems by (auto simp: g_def)
  note unf = find_page_loop.simps [of ps addr mn mx, folded g_def, unfolded Let_def]
  consider "page_address (ps ! g) = addr" | "page_address (ps ! g) < addr" | "page_address (ps ! g) > addr"
    using less_linear by blast
  then show ?case
  proof cases
    case 1
    with g unf show ?thesis by (simp add: found_in_def)
  next
    case 2
    have "\<exists>r. (if mx < int (g + 1) then Inr None else find_page_loop ps addr (g + 1) mx) = Inr r
        \<and> found_in ps addr (g + 1) mx r"
      using less.hyps [of mx "g + 1"] less.prems g by (auto simp: found_in_empty)
    with 2 g unf found_in_up [OF assms g(3) 2] show ?thesis by auto
  next
    case 3
    have "\<exists>r. (if int g - 1 < int mn then Inr None else find_page_loop ps addr mn (int g - 1)) = Inr r
        \<and> found_in ps addr mn (int g - 1) r"
      using less.hyps [of "int g - 1" mn] less.prems g by (auto simp: found_in_empty)
    with 3 g unf found_in_down [OF assms less.prems(1) 3] show ?thesis by auto
  qed
qed

text \<open>The binary search decides exactly: on an array with ascending addresses it returns the position
  of the page with the address, or that there is none. Pages of device memory come first.\<close>

lemma find_page_exact:
  assumes "ascending (physical_pages m)" "physical_pages m \<noteq> []"
    "\<forall>v \<in> set (io_pages m). page_address v \<noteq> addr"
  shows "find_page addr m = Inr (map_option Phys (find_index (\<lambda>v. page_address v = addr) (physical_pages m)))"
proof -
  let ?ps = "physical_pages m"
  obtain r where r: "find_page_loop ?ps addr 0 (int (length ?ps) - 1) = Inr r" "found_in ?ps addr 0 (int (length ?ps) - 1) r"
    using find_page_loop_exact [OF assms(1), of "int (length ?ps) - 1" 0 addr] assms(2)
    by (cases "physical_pages m") auto
  have "r = find_index (\<lambda>v. page_address v = addr) ?ps"
  proof (cases "find_index (\<lambda>v. page_address v = addr) ?ps")
    case None
    then have "\<forall>v \<in> set ?ps. page_address v \<noteq> addr"
      by (simp add: find_index_None_iff)
    with None r(2) show ?thesis
      by (cases r) (auto simp: found_in_def)
  next
    case (Some i)
    then have "i < length ?ps" "page_address (?ps ! i) = addr"
      by (auto dest: find_index_SomeD)
    with Some r(2) ascending_inject [OF assms(1)] show ?thesis
      by (cases r) (auto simp: found_in_def)
  qed
  moreover have "find_index (\<lambda>v. page_address v = addr) (io_pages m) = None"
    using assms(3) by (simp add: find_index_None_iff)
  ultimately show ?thesis
    using r(1) by (simp add: find_page_def)
qed

lemma find_page_at:
  assumes "ascending (physical_pages m)" "i < length (physical_pages m)"
    "\<forall>v \<in> set (io_pages m). page_address v \<noteq> page_address (physical_pages m ! i)"
  shows "find_page (page_address (physical_pages m ! i)) m = Inr (Some (Phys i))"
proof -
  let ?P = "\<lambda>v. page_address v = page_address (physical_pages m ! i)"
  obtain k where k: "find_index ?P (physical_pages m) = Some k"
    using assms(2) nth_mem [OF assms(2)] find_index_ex_iff [of ?P "physical_pages m"] by auto
  then have "k = i"
    using find_index_SomeD [OF k] ascending_inject [OF assms(1)] assms(2) by blast
  moreover have "physical_pages m \<noteq> []"
    using assms(2) by auto
  ultimately show ?thesis
    using find_page_exact [OF assms(1) _ assms(3)] k by simp
qed

lemma set_free_taken:
  "page_status_of v = Some Free \<Longrightarrow> set_page_status Free (set_page_status InUse v) = v"
proof -
  assume "page_status_of v = Some Free"
  then have "v AND NOT MM2_Address_Mask = 0"
    by (simp add: page_status_of_def Let_def split: if_splits)
  moreover have "v = (v AND MM2_Address_Mask) OR (v AND NOT MM2_Address_Mask)"
    by (simp add: bit.conj_disj_distrib [symmetric])
  ultimately have "v AND MM2_Address_Mask = v"
    by simp
  then show ?thesis
    using page_address_status [of InUse v] by (simp add: set_page_status_def [of Free] page_address_def)
qed

text \<open>C34. Freeing is the inverse of allocating: in a state whose array ascends and whose device pages
  lie elsewhere, the page returned by allocation is found again by its address, and freeing it
  restores every descriptor and both counts.\<close>

theorem alloc_free_roundtrip:
  assumes "pmm_ok m" "ascending (physical_pages m)"
    "\<forall>v \<in> set (io_pages m). \<forall>p \<in> set (physical_pages m). page_address v \<noteq> page_address p"
    "physical_alloc mx m = Some (Inr (idx, m'))"
  shows "\<exists>m''. physical_free (page_address (physical_pages m' ! unat idx)) m' = Inr m'' \<and>
    physical_pages m'' = physical_pages m \<and> free_pages m'' = free_pages m \<and> counted_free m'' = counted_free m \<and> pmm_ok m''"
proof -
  let ?ps = "physical_pages m"
  obtain i where i: "List.find (takeable mx ?ps) (search_order (unat (lastidx m)) (length ?ps)) = Some i"
    "idx = of_nat i" "m' = take_page i m"
    using assms(4) unfolding physical_alloc_exact [OF assms(1)] by (auto split: option.splits if_splits)
  then have il: "i < length ?ps" and st: "page_status_of (?ps ! i) = Some Free"
    using search_order_bound [of "unat (lastidx m)" "length ?ps" i] assms(1)
    by (auto simp: find_Some_iff pmm_ok_def takeable_def)
  have u: "unat idx = i"
    using il assms(1) unfolding i(2) by (intro unat_of_nat_u32) (simp add: pmm_ok_def)
  have ad: "map page_address (physical_pages m') = map page_address ?ps" "io_pages m' = io_pages m"
    "length (physical_pages m') = length ?ps" "page_address (physical_pages m' ! i) = page_address (?ps ! i)"
    using il by (simp_all add: i(3) take_page_def map_update list_update_same_conv)
  have "find_page (page_address (physical_pages m' ! i)) m' = Inr (Some (Phys i))"
    using assms(2,3) il ad by (intro find_page_at) (simp_all add: ascending_def)
  moreover have "free_page (Phys i) m' = m\<lparr>lastidx := of_nat i\<rparr>"
    using il st by (simp add: free_page_def deref_def update_page_def Let_def i(3) take_page_def set_free_taken)
  moreover have "pmm_ok (m\<lparr>lastidx := of_nat i\<rparr>)"
    using assms(1) il u i(2) by (simp add: pmm_ok_def)
  ultimately show ?thesis
    unfolding u physical_free_def by (simp add: page_address_def and.assoc counted_free_def)
qed

theorem alloc_free_roundtrip_witness:
  "\<exists>idx m' m''. physical_alloc 0xFFFFFFFF demo_pages = Some (Inr (idx, m')) \<and>
    physical_free (page_address (physical_pages m' ! unat idx)) m' = Inr m'' \<and>
    physical_pages m'' = physical_pages demo_pages \<and> free_pages m'' = 1"
proof -
  have asc: "ascending (physical_pages demo_pages)"
    by (simp add: ascending_def demo_pages_def page_address_def MM2_Address_Mask_def)
  have io: "\<forall>v \<in> set (io_pages demo_pages). \<forall>p \<in> set (physical_pages demo_pages). page_address v \<noteq> page_address p"
    by (simp add: demo_pages_def page_address_def MM2_Address_Mask_def)
  have "List.find (takeable 0xFFFFFFFF (physical_pages demo_pages))
      (search_order (unat (lastidx demo_pages)) (length (physical_pages demo_pages))) = Some 1"
    by (simp add: search_order_def demo_pages_def takeable_def page_status_of_def page_address_def MM2_Address_Mask_def upt_rec)
  then have a: "physical_alloc 0xFFFFFFFF demo_pages = Some (Inr (of_nat 1, take_page 1 demo_pages))"
    by (simp add: physical_alloc_exact [OF demo_pages_ok(1)])
  have "free_pages demo_pages = 1"
    by (simp add: demo_pages_def)
  with a alloc_free_roundtrip [OF demo_pages_ok(1) asc io a] show ?thesis
    by metis
qed

text \<open>A page that is already free is counted again when it is freed once more: the count of free
  pages no longer agrees with the descriptors.\<close>

theorem double_free_counted:
  assumes "ascending (physical_pages m)" "i < length (physical_pages m)"
    "\<forall>v \<in> set (io_pages m). page_address v \<noteq> page_address (physical_pages m ! i)"
    "page_status_of (physical_pages m ! i) = Some Free"
  shows "\<exists>m'. physical_free (page_address (physical_pages m ! i)) m = Inr m' \<and>
    free_pages m' = free_pages m + 1 \<and> counted_free m' = counted_free m"
proof -
  have "free_page (Phys i) m = m\<lparr>free_pages := free_pages m + 1\<rparr>"
    using assms(4) by (simp add: free_page_def deref_def update_page_def Let_def)
  with find_page_at [OF assms(1,2,3)] show ?thesis
    by (simp add: physical_free_def page_address_def and.assoc counted_free_def)
qed

theorem double_free_counted_witness:
  "\<exists>m'. physical_free 0x101000 demo_pages = Inr m' \<and> free_pages m' = 2 \<and> counted_free m' = counted_free demo_pages"
proof -
  have "ascending (physical_pages demo_pages)" "1 < length (physical_pages demo_pages)"
    "\<forall>v \<in> set (io_pages demo_pages). page_address v \<noteq> page_address (physical_pages demo_pages ! 1)"
    "page_status_of (physical_pages demo_pages ! 1) = Some Free"
    "page_address (physical_pages demo_pages ! 1) = 0x101000" "free_pages demo_pages = 1"
    by (simp_all add: ascending_def demo_pages_def page_address_def MM2_Address_Mask_def page_status_of_def)
  with double_free_counted [of demo_pages 1] show ?thesis
    by simp
qed

section \<open>Boot\<close>

lemma account_region_fill:
  assumes "unat b + 4096 * Suc c \<ge> unat len" "unat b + 4096 * c < unat len \<or> c = 0" "unat len + 4096 < 2 ^ 32"
    "unat b + 4096 < 2 ^ 32" "cur + c \<le> length ps"
  shows "account_region b len ps cur = Some (Inr
    (take cur ps @ map (\<lambda>k. set_page_status Free (set_page_address (b + 4096 * of_nat k) (ps ! (cur + k)))) [0..<c] @ drop (cur + c) ps,
     cur + c))"
  using assms
proof (induction c arbitrary: b ps cur)
  case 0
  have "unat (b + 4096) = unat b + 4096"
    using 0 by (simp add: unat_word_ariths)
  with 0 have "\<not> b + 4096 < len"
    by (simp add: word_less_nat_alt)
  then show ?case
    by (subst account_region.simps) simp
next
  case (Suc c)
  let ?ps = "ps[cur := set_page_status Free (set_page_address b (ps ! cur))]"
  have u: "unat (b + 4096) = unat b + 4096"
    using Suc.prems by (simp add: unat_word_ariths)
  have lt: "b + 4096 < len" "cur < length ps"
    using Suc.prems u by (auto simp: word_less_nat_alt)
  have IH: "account_region (b + 4096) len ?ps (cur + 1) = Some (Inr
    (take (cur + 1) ?ps @ map (\<lambda>k. set_page_status Free (set_page_address (b + 4096 + 4096 * of_nat k) (?ps ! (cur + 1 + k)))) [0..<c]
       @ drop (cur + 1 + c) ?ps, cur + 1 + c))"
    using Suc.prems u by (intro Suc.IH) auto
  have "account_region b len ps cur = account_region (b + 4096) len ?ps (cur + 1)"
    using lt by (subst account_region.simps) simp
  moreover have "take (cur + 1) ?ps = take cur ps @ [set_page_status Free (set_page_address b (ps ! cur))]"
    using lt by (simp add: take_Suc_conv_app_nth take_update_cancel)
  moreover have "map (\<lambda>k. set_page_status Free (set_page_address (b + 4096 + 4096 * of_nat k) (?ps ! (cur + 1 + k)))) [0..<c]
      = map (\<lambda>k. set_page_status Free (set_page_address (b + 4096 * of_nat k) (ps ! (cur + k)))) [Suc 0..<Suc c]"
    unfolding map_Suc_upt [symmetric] map_map by (simp add: algebra_simps)
  moreover have "drop (cur + 1 + c) ?ps = drop (cur + Suc c) ps"
    by simp
  ultimately show ?case
    using IH by (simp add: upt_conv_Cons [of 0 "Suc c"] del: upt_Suc)
qed

lemma mask_page: "MM2_Address_Mask = NOT (mask 12)"
  by (simp add: MM2_Address_Mask_def mask_eq_exp_minus_1)

lemma page_address_aligned: "page_address (4096 * w) = 4096 * w"
proof -
  have "4096 * w = push_bit 12 w"
    by (simp add: push_bit_eq_mult)
  moreover have "push_bit 12 w AND NOT (mask 12) = push_bit 12 w"
    by (intro bit_word_eqI) (auto simp: bit_simps)
  ultimately show ?thesis
    by (simp add: page_address_def mask_page)
qed

text \<open>The addresses in the array after boot with one usable region of \<open>q\<close> pages that starts at page
  \<open>p\<close>, above the ignored low memory. The loop stops \<open>p + 1\<close> pages early, and as many descriptors at
  the end keep address zero.\<close>

lemma boot_addresses:
  assumes "0 < p" "p < q" "q < 2 ^ 20 - 1" "256 \<le> p"
    "\<forall>e \<in> set low. \<not> usable_region e"
  shows "\<exists>m. mm2_physical_init ke mods (low @ [(1, 4096 * of_nat p, 4096 * of_nat q)]) = Some (Inr m) \<and>
    map page_address (physical_pages m) = map (\<lambda>k. 4096 * of_nat (p + k)) [0..<q - p - 1] @ replicate (p + 1) 0 \<and>
    io_pages m = []"
proof -
  let ?e = "(1, 4096 * of_nat p, 4096 * of_nat q) :: mmap_entry"
  have u: "unat (4096 * of_nat p :: u32) = 4096 * p" "unat (4096 * of_nat q :: u32) = 4096 * q"
    using assms by (simp_all add: unat_word_ariths unat_of_nat)
  have us: "usable_region ?e"
    using assms u by (simp add: usable_region_def word_less_nat_alt)
  have f: "filter usable_region low = []"
    using assms(5) by (simp add: filter_empty_conv)
  have cp: "unat (count_pages (low @ [?e])) = q"
    using u us f by (simp add: count_pages_def unat_div)
  have ar: "account_regions (low @ [?e]) ps c = account_regions [?e] ps c" for ps c
    using assms(5) by (induction low) simp_all
  have "account_region (4096 * of_nat p) (4096 * of_nat q) (replicate q 0) 0 = Some (Inr
    (take 0 (replicate q 0) @ map (\<lambda>k. set_page_status Free (set_page_address (4096 * of_nat p + 4096 * of_nat k) (replicate q 0 ! (0 + k)))) [0..<q - p - 1]
      @ drop (0 + (q - p - 1)) (replicate q 0), 0 + (q - p - 1)))"
    using assms(1-4) by (intro account_region_fill) (auto simp: u)
  moreover have "map page_address (map (\<lambda>k. set_page_status Free (set_page_address (4096 * of_nat p + 4096 * of_nat k) (replicate q 0 ! (0 + k)))) [0..<q - p - 1])
     = map (\<lambda>k. 4096 * of_nat (p + k)) [0..<q - p - 1]"
    by (simp add: page_address_aligned distrib_left [symmetric] of_nat_add [symmetric] del: of_nat_add)
  moreover have "map page_address (drop (0 + (q - p - 1)) (replicate q 0)) = replicate (p + 1) 0"
    using assms(2) by (simp add: page_address_def)
  ultimately show ?thesis
    using us by (auto simp: mm2_physical_init_def Let_def cp ar)
qed

lemma find_page_loop_up:
  assumes "g = nat ((int mn + mx) div 2)" "g < length ps" "page_address (ps ! g) < addr" "int (g + 1) \<le> mx"
  shows "find_page_loop ps addr mn mx = find_page_loop ps addr (g + 1) mx"
  using assms(2-4) by (subst find_page_loop.simps) (auto simp: assms(1) [symmetric] Let_def)

lemma find_page_loop_lost:
  assumes "\<forall>i. c \<le> i \<longrightarrow> i < length ps \<longrightarrow> page_address (ps ! i) = 0" "0 < addr"
  shows "c \<le> nat ((int mn + mx) div 2) \<Longrightarrow> int mn \<le> mx \<Longrightarrow> mx < int (length ps) \<Longrightarrow> find_page_loop ps addr mn mx = Inr None"
proof (induction "nat (mx - int mn)" arbitrary: mn rule: less_induct)
  case less
  define g where "g = nat ((int mn + mx) div 2)"
  have g: "mn \<le> g" "g < length ps" "c \<le> g" "int g \<le> mx"
    using less.prems by (auto simp: g_def)
  then have a: "page_address (ps ! g) = 0"
    using assms(1) by simp
  have "find_page_loop ps addr (g + 1) mx = Inr None" if "int (g + 1) \<le> mx"
    using that g less.prems by (intro less.hyps) auto
  then show ?case
    using a g assms(2) by (subst find_page_loop.simps) (auto simp: g_def [symmetric] Let_def)
qed

text \<open>On a machine with 128 megabytes, whose memory map has the region of 32480 pages from the first
  megabyte, the last descriptors of the array have address zero after boot. The binary search for any
  of 250 real pages runs into them: such a page is never found, so freeing it leaves every
  state as it is, and a page that was given out stays in use for ever.\<close>

theorem boot_loses_pages:
  assumes "31973 \<le> k" "k < 32223" "\<forall>e \<in> set low. \<not> usable_region e"
  shows "\<exists>m. mm2_physical_init ke mods (low @ [(1, 0x100000, 0x7EE0000)]) = Some (Inr m) \<and>
    page_address (physical_pages m ! k) = 0x100000 + 4096 * of_nat k \<and>
    (\<forall>m'. map page_address (physical_pages m') = map page_address (physical_pages m) \<longrightarrow> io_pages m' = [] \<longrightarrow>
       physical_free (0x100000 + 4096 * of_nat k) m' = Inr m')"
proof -
  let ?as = "map (\<lambda>k. 4096 * of_nat (256 + k)) [0..<32223] @ replicate 257 0 :: u32 list"
  let ?a = "4096 * of_nat (256 + k) :: u32"
  obtain m where m: "mm2_physical_init ke mods (low @ [(1, 0x100000, 0x7EE0000)]) = Some (Inr m)"
    "map page_address (physical_pages m) = ?as"
    using boot_addresses [of 256 32480 low ke mods] assms(3) by auto
  have a: "?a = 0x100000 + 4096 * of_nat k" "page_address ?a = ?a"
    by (simp_all only: page_address_aligned) (simp add: distrib_left)
  have un: "unat (4096 * of_nat (256 + j) :: u32) = 4096 * (256 + j)" if "j < 32480" for j
    using that by (simp add: unat_word_ariths unat_of_nat)
  have lost: "physical_free ?a m' = Inr m'" if m': "map page_address (physical_pages m') = ?as" "io_pages m' = []" for m'
  proof -
    let ?ps = "physical_pages m'"
    have len: "length ?ps = 32480"
      using arg_cong [OF m'(1), of length] by simp
    have nth: "page_address (?ps ! i) = ?as ! i" if "i < 32480" for i
      using that len nth_map [of i ?ps page_address] unfolding m'(1) [symmetric] by simp
    have low: "page_address (?ps ! i) < ?a" if "i < k" for i
      using that assms(2) nth [of i] un [of i] un [of k] by (simp add: nth_append word_less_nat_alt)
    have tail: "\<forall>i. 32223 \<le> i \<longrightarrow> i < length ?ps \<longrightarrow> page_address (?ps ! i) = 0"
      using nth len by (auto simp: nth_append)
    have pos: "0 < ?a"
      using un [of k] assms(2) by (simp add: word_less_nat_alt)
    have "find_page_loop ?ps ?a 0 32479 = find_page_loop ?ps ?a 31973 32479"
      using assms(1) len low
      by (simp add: find_page_loop_up [of 16239 0 32479] find_page_loop_up [of 24359 16240 32479]
          find_page_loop_up [of 28419 24360 32479] find_page_loop_up [of 30449 28420 32479]
          find_page_loop_up [of 31464 30450 32479] find_page_loop_up [of 31972 31465 32479])
    also have "\<dots> = Inr None"
      using find_page_loop_lost [OF tail pos, of 31973 32479] len by simp
    finally have "find_page ?a m' = Inr None"
      using len m'(2) by (simp add: find_page_def)
    with a(2) show ?thesis
      by (simp add: physical_free_def page_address_def)
  qed
  have "page_address (physical_pages m ! k) = map page_address (physical_pages m) ! k"
    using assms(2) arg_cong [OF m(2), of length] by simp
  also have "\<dots> = ?a"
    unfolding m(2) using assms(2) by (simp add: nth_append)
  finally show ?thesis
    using m lost unfolding a(1) by metis
qed

theorem boot_loses_pages_witness:
  "\<exists>m. mm2_physical_init 0x200000 [] [(1, 0, 0x9FC00), (2, 0xF0000, 0x10000), (1, 0x100000, 0x7EE0000)] = Some (Inr m) \<and>
    page_address (physical_pages m ! 32000) = 0x7E00000 \<and> physical_free 0x7E00000 m = Inr m"
proof -
  let ?low = "[(1, 0, 0x9FC00), (2, 0xF0000, 0x10000)] :: mmap_entry list"
  have low: "\<forall>e \<in> set ?low. \<not> usable_region e"
    by (simp add: usable_region_def)
  obtain m where m: "mm2_physical_init 0x200000 [] (?low @ [(1, 0x100000, 0x7EE0000)]) = Some (Inr m)"
    "page_address (physical_pages m ! 32000) = 0x7E00000"
    "\<And>m'. map page_address (physical_pages m') = map page_address (physical_pages m) \<Longrightarrow> io_pages m' = [] \<Longrightarrow>
       physical_free 0x7E00000 m' = Inr m'"
    using boot_loses_pages [of 32000 ?low "0x200000" "[]"] low by auto
  have "io_pages m = []"
    using m(1) by (auto simp: mm2_physical_init_def Let_def bind_result_Inr_iff)
  with m show ?thesis by simp
qed

end
