(* ===== verification/Page_Directory.thy ===== *)
theory Page_Directory
  imports Physical_Memory
begin

text \<open>
  Page directories and virtual memory, src/src/kernel/mm2/pagedirectory.cpp and virtual.cpp.

  A directory is a function from table numbers to directory entries; the page tables live in the
  physical memory that all directories share, a function from the physical address of a table to its
  entries. The kernel reaches a table through a window, one page of kernel space whose table entry it
  rewrites: \<open>fp\<close> is the page number of the window. Translation through the window uses the directory
  the method belongs to, which has the same kernel tables as the active one. The contents of the
  mapped pages are not modelled. Operations that allocate physical memory return an optional
  result: \<open>None\<close> when the search for a page never ends.

  The lemmas show that the cache of entries is transparent, so that reading and writing entries is
  reading and writing the tables; that the search for free pages is first fit; that mapping and
  translating addresses fit together; and that the cache of one directory becomes stale when a shared
  kernel table changes through another.
\<close>

section \<open>Sequencing\<close>

definition bind_ro :: "'a result option \<Rightarrow> ('a \<Rightarrow> 'b result option) \<Rightarrow> 'b result option" where
  "bind_ro r f = (case r of None \<Rightarrow> None | Some (Inl e) \<Rightarrow> Some (Inl e) | Some (Inr x) \<Rightarrow> f x)"

abbreviation ret_ro :: "'a \<Rightarrow> 'a result option" where
  "ret_ro x \<equiv> Some (Inr x)"

lemma bind_ro_simps [simp]:
  "bind_ro None f = None"
  "bind_ro (Some (Inl e)) f = Some (Inl e)"
  "bind_ro (Some (Inr x)) f = f x"
  by (simp_all add: bind_ro_def)

lemma bind_ro_Inr_iff [simp]:
  "bind_ro r f = Some (Inr y) \<longleftrightarrow> (\<exists>x. r = Some (Inr x) \<and> f x = Some (Inr y))"
  by (auto simp: bind_ro_def split: option.splits sum.splits)

lemma bind_roE:
  assumes "bind_ro r f = Some (Inr y)"
  obtains x where "r = Some (Inr x)" "f x = Some (Inr y)"
  using assms by auto

lemma bind_ro_assoc: "bind_ro (bind_ro r f) g = bind_ro r (\<lambda>x. bind_ro (f x) g)"
  by (auto simp: bind_ro_def split: option.splits sum.splits)

primrec fold_ro :: "('a \<Rightarrow> 's \<Rightarrow> 's result option) \<Rightarrow> 'a list \<Rightarrow> 's \<Rightarrow> 's result option" where
  "fold_ro f [] s = ret_ro s"
| "fold_ro f (x # xs) s = bind_ro (f x s) (fold_ro f xs)"

lemma fold_ro_invariant:
  "fold_ro f xs s = Some (Inr s') \<Longrightarrow> I s \<Longrightarrow>
   (\<And>x s s'. x \<in> set xs \<Longrightarrow> I s \<Longrightarrow> f x s = Some (Inr s') \<Longrightarrow> I s') \<Longrightarrow> I s'"
  by (induction xs arbitrary: s) auto

section \<open>Constants and state\<close>

(* src/src/include/module/kernelsys/mm2.hpp:16-18 MM2_Page_Size *)
definition MM2_Kernel_Boundary :: u32 where
  "MM2_Kernel_Boundary = 1024 * 1024 * 1024"

(* src/src/kernel/mm2/mm2_internal.hpp:11-14 MM2_Table_Entries *)
definition MM2_Kernel_Pages :: u32 where
  "MM2_Kernel_Pages = MM2_Kernel_Boundary div 4096"

(* src/src/kernel/mm2/mm2_internal.hpp:13-13 MM2_Kernel_Tables *)
definition MM2_Kernel_Tables :: nat where
  "MM2_Kernel_Tables = 256"

(* src/src/kernel/mm2/mm2_internal.hpp:14-14 MM2_Total_Pages *)
definition MM2_Total_Pages :: u32 where
  "MM2_Total_Pages = 0xFFFFFFFF div 4096"

(* src/src/include/module/kernelsys/mm2.hpp:21-28 MM2_Alloc_Mode *)
definition Mode_Kernel :: u32 where "Mode_Kernel = 1"
(* src/src/include/module/kernelsys/mm2.hpp:24-24 MM2_Alloc_Mode *)
definition Mode_Userlow :: u32 where "Mode_Userlow = 2"

abbreviation has_mode :: "u32 \<Rightarrow> u32 \<Rightarrow> bool" where
  "has_mode mode m \<equiv> mode AND m \<noteq> 0"

(* src/src/include/module/kernelsys/mm2.hpp:30-49 MM2_PageFlags *)
definition Present :: u32 where "Present = 1"
(* src/src/include/module/kernelsys/mm2.hpp:33-33 MM2_PageFlags *)
definition Writable :: u32 where "Writable = 2"
(* src/src/include/module/kernelsys/mm2.hpp:34-34 MM2_PageFlags *)
definition Usermode :: u32 where "Usermode = 4"
(* src/src/include/module/kernelsys/mm2.hpp:36-36 MM2_PageFlags *)
definition NoCache :: u32 where "NoCache = 16"
(* src/src/include/module/kernelsys/mm2.hpp:41-41 MM2_PageFlags *)
definition Do_Not_Use :: u32 where "Do_Not_Use = 512"
(* src/src/include/module/kernelsys/mm2.hpp:47-47 MM2_PageFlags *)
definition Guard_Page :: u32 where "Guard_Page = 512 OR 2048"

lemmas page_flag_defs = Present_def Writable_def Usermode_def NoCache_def Do_Not_Use_def Guard_Page_def

(* src/src/kernel/mm2/pagedirectory.hpp:32-36 PageDirectory::entrycache_entry *)
record entrycache_entry =
  ce_index :: u32
  ce_entry :: u32
  ce_hits :: u32

text \<open>The page fault handler of a region is a number that names the function.\<close>

(* src/src/kernel/mm2/pagedirectory.hpp:13-18 PageDirectory::region *)
record region =
  r_addr :: u32
  r_size :: u32
  r_id :: u64
  r_handle :: nat

(* src/src/kernel/mm2/pagedirectory.hpp:20-38 PageDirectory *)
record pagedir =
  directory_addr :: u32
  directory :: "nat \<Rightarrow> u32"
  directory_physical :: u32
  current_table :: u32
  klowfree :: u32
  ulowfree :: u32
  upages :: u32
  entrycache :: "entrycache_entry list"
  regions :: "region list option"

text \<open>What the directories share: physical pages, the tables in them, the count of kernel pages.\<close>

(* src/src/kernel/mm2/pagedirectory.cpp:9-10 PageDirectory::kpages *)
record vm =
  pages_of :: pmm
  table_mem :: "u32 \<Rightarrow> nat \<Rightarrow> u32"
  kpages :: u32

type_synonym space = "pagedir \<times> vm"

section \<open>The window\<close>

definition table_addr :: "pagedir \<Rightarrow> nat \<Rightarrow> u32" where
  "table_addr d t = directory d t AND MM2_Address_Mask"

text \<open>The table that the window shows, and a write through it.\<close>

definition window_table :: "nat \<Rightarrow> space \<Rightarrow> u32" where
  "window_table fp s = (case s of (d, v) \<Rightarrow>
     table_mem v (table_addr d (fp div 1024)) (fp mod 1024) AND MM2_Address_Mask)"

definition frame_read :: "nat \<Rightarrow> nat \<Rightarrow> space \<Rightarrow> u32" where
  "frame_read fp n s = table_mem (snd s) (window_table fp s) n"

definition frame_write :: "nat \<Rightarrow> nat \<Rightarrow> u32 \<Rightarrow> space \<Rightarrow> space" where
  "frame_write fp n e s = (case s of (d, v) \<Rightarrow>
     let t = window_table fp s
     in (d, v\<lparr>table_mem := (table_mem v)(t := (table_mem v t)(n := e))\<rparr>))"

definition frame_clear :: "nat \<Rightarrow> space \<Rightarrow> space" where
  "frame_clear fp s = (case s of (d, v) \<Rightarrow>
     (d, v\<lparr>table_mem := (table_mem v)(window_table fp s := (\<lambda>_. 0))\<rparr>))"

(* src/src/kernel/mm2/pagedirectory.cpp:12-25 PageDirectory::map_table *)
definition map_table :: "nat \<Rightarrow> u32 \<Rightarrow> space \<Rightarrow> bool \<times> space" where
  "map_table fp tableaddr s = (case s of (d, v) \<Rightarrow>
     let t = tableaddr AND MM2_Address_Mask; ft = table_addr d (fp div 1024)
     in if t = 0 then (False, s)
        else if directory d (fp div 1024) AND Present \<noteq> 0
        then (True, (d\<lparr>current_table := t\<rparr>,
               v\<lparr>table_mem := (table_mem v)(ft := (table_mem v ft)(fp mod 1024 := t OR Present OR Writable))\<rparr>))
        else (False, s))"

section \<open>The cache of entries\<close>

(* src/src/kernel/mm2/pagedirectory.hpp:30-31 PageDirectory::entrycache_size *)
definition entrycache_maxhits :: u32 where
  "entrycache_maxhits = 1024"

(* src/src/kernel/mm2/pagedirectory.cpp:161-168 PageDirectory::entrycache_get *)
definition entrycache_touch :: "u32 \<Rightarrow> entrycache_entry \<Rightarrow> entrycache_entry" where
  "entrycache_touch pageindex e =
     (if ce_index e = pageindex
      then if ce_hits e < entrycache_maxhits
           then let h = ce_hits e + 1 in e\<lparr>ce_hits := (if h < entrycache_maxhits then h + 1 else h)\<rparr>
           else if ce_hits e > 0 then e\<lparr>ce_hits := ce_hits e - 1\<rparr> else e
      else e)"

(* src/src/kernel/mm2/pagedirectory.cpp:157-172 PageDirectory::entrycache_get *)
definition entrycache_get :: "u32 \<Rightarrow> entrycache_entry list \<Rightarrow> u32 \<times> entrycache_entry list" where
  "entrycache_get pageindex es =
     (if pageindex = 0 then (0, es)
      else (foldl (\<lambda>r e. if ce_index e = pageindex \<and> ce_hits e < entrycache_maxhits then ce_entry e else r) 0 es,
            map (entrycache_touch pageindex) es))"

(* src/src/kernel/mm2/pagedirectory.cpp:176-179 PageDirectory::entrycache_set *)
definition least_hits :: "entrycache_entry list \<Rightarrow> nat" where
  "least_hits es = foldl (\<lambda>pos i. if ce_hits (es ! i) < ce_hits (es ! pos) then i else pos) 0 [0..<length es]"

(* src/src/kernel/mm2/pagedirectory.cpp:174-183 PageDirectory::entrycache_set *)
definition entrycache_set :: "u32 \<Rightarrow> u32 \<Rightarrow> entrycache_entry list \<Rightarrow> entrycache_entry list" where
  "entrycache_set pageindex e es =
     (if e = 0 then es else es[least_hits es := \<lparr>ce_index = pageindex, ce_entry = e, ce_hits = 0\<rparr>])"

(* src/src/kernel/mm2/pagedirectory.cpp:185-193 PageDirectory::entrycache_clear *)
definition entrycache_clear :: "u32 \<Rightarrow> entrycache_entry list \<Rightarrow> entrycache_entry list" where
  "entrycache_clear pageindex es =
     map (\<lambda>e. if ce_index e = pageindex then \<lparr>ce_index = 0, ce_entry = 0, ce_hits = 0\<rparr> else e) es"

section \<open>Entries\<close>

(* src/src/kernel/mm2/pagedirectory.cpp:123-131 PageDirectory::get_table_entry *)
definition read_table_entry :: "nat \<Rightarrow> u32 \<Rightarrow> space \<Rightarrow> u32 \<times> space" where
  "read_table_entry fp pageindex s =
     (let tableno = unat pageindex div 1024; pageno = unat pageindex mod 1024; d = fst s
      in if table_addr d tableno \<noteq> 0
         then (case map_table fp (directory d tableno) s of
                 (True, s') \<Rightarrow> (frame_read fp pageno s', s')
               | (False, s') \<Rightarrow> (0, s'))
         else (0, s))"

(* src/src/kernel/mm2/pagedirectory.cpp:119-136 PageDirectory::get_table_entry *)
definition get_table_entry :: "nat \<Rightarrow> u32 \<Rightarrow> space \<Rightarrow> u32 \<times> space" where
  "get_table_entry fp pageindex s = (case s of (d, v) \<Rightarrow>
     let (r, es) = entrycache_get pageindex (entrycache d); d1 = d\<lparr>entrycache := es\<rparr>
     in if r = 0
        then (case read_table_entry fp pageindex (d1, v) of (r', (d2, v2)) \<Rightarrow>
               (r', (d2\<lparr>entrycache := entrycache_set pageindex r' (entrycache d2)\<rparr>, v2)))
        else (r, (d1, v)))"

text \<open>Physical allocation inside an operation on a directory: the address of the new page.\<close>

definition alloc_page :: "space \<Rightarrow> (u32 \<times> space) result option" where
  "alloc_page s = (case s of (d, v) \<Rightarrow>
     bind_ro (physical_alloc 0xFFFFFFFF (pages_of v)) (\<lambda>(i, p).
       ret_ro (page_address (physical_pages p ! unat i), (d, v\<lparr>pages_of := p\<rparr>))))"

(* src/src/kernel/mm2/pagedirectory.cpp:244-257 PageDirectory::create_table *)
definition create_table :: "nat \<Rightarrow> nat \<Rightarrow> space \<Rightarrow> space result option" where
  "create_table fp tableno s =
     bind_ro (alloc_page s) (\<lambda>(a, (d, v)).
       let flags = (Present OR Writable) OR (if tableno \<ge> MM2_Kernel_Tables then Usermode else 0);
           s1 = (d\<lparr>directory := (directory d)(tableno := a OR flags)\<rparr>, v);
           last_table = current_table d;
           s2 = frame_clear fp (snd (map_table fp a s1))
       in ret_ro (if last_table \<noteq> 0 then snd (map_table fp last_table s2) else s2))"

text \<open>The source tests \<open>directory[tableno] && Present\<close>, which is whether the entry is not zero.\<close>

(* src/src/kernel/mm2/pagedirectory.cpp:138-155 PageDirectory::set_table_entry *)
definition set_table_entry :: "nat \<Rightarrow> u32 \<Rightarrow> u32 \<Rightarrow> space \<Rightarrow> space result option" where
  "set_table_entry fp pageindex e s =
     (let tableno = unat pageindex div 1024; pageno = unat pageindex mod 1024;
          (mapped, s1) = (if directory (fst s) tableno \<noteq> 0 then map_table fp (directory (fst s) tableno) s else (False, s))
      in bind_ro
           (if mapped then ret_ro s1
            else bind_ro (create_table fp tableno s1) (\<lambda>s2.
                   ret_ro (frame_clear fp (snd (map_table fp (directory (fst s2) tableno) s2)))))
           (\<lambda>s3. case frame_write fp pageno e s3 of (d, v) \<Rightarrow>
              ret_ro (d\<lparr>entrycache := entrycache_clear pageindex (entrycache d)\<rparr>, v)))"

(* src/src/kernel/mm2/pagedirectory.cpp:195-201 PageDirectory::virt2phys *)
definition virt2phys :: "nat \<Rightarrow> u32 \<Rightarrow> space \<Rightarrow> u32 \<times> space" where
  "virt2phys fp addr s = (case get_table_entry fp (addr div 4096) s of (e, s') \<Rightarrow>
     let a = e AND MM2_Address_Mask
     in (if a \<noteq> 0 then a + (addr AND NOT MM2_Address_Mask) else a, s'))"

(* src/src/kernel/mm2/pagedirectory.hpp:64-66 PageDirectory::is_mapped *)
definition is_mapped :: "nat \<Rightarrow> u32 \<Rightarrow> space \<Rightarrow> bool \<times> space" where
  "is_mapped fp addr s = (case virt2phys fp addr s of (a, s') \<Rightarrow> (a \<noteq> 0, s'))"

definition entry_free :: "u32 \<Rightarrow> bool" where
  "entry_free e \<longleftrightarrow> e AND Present = 0 \<and> e AND Do_Not_Use = 0"

(* src/src/kernel/mm2/pagedirectory.cpp:203-208 PageDirectory::is_available *)
definition is_available :: "nat \<Rightarrow> u32 \<Rightarrow> space \<Rightarrow> bool \<times> space" where
  "is_available fp pageno s = (case get_table_entry fp pageno s of (e, s') \<Rightarrow> (entry_free e, s'))"

section \<open>Mapping and freeing\<close>

(* src/src/kernel/mm2/pagedirectory.cpp:223-233 PageDirectory::map_page_at *)
definition map_given_page_at :: "nat \<Rightarrow> u32 \<Rightarrow> u32 \<Rightarrow> u32 \<Rightarrow> space \<Rightarrow> space result option" where
  "map_given_page_at fp addr page flags s =
     bind_ro (set_table_entry fp (addr div 4096) (page_address page OR flags) s) (\<lambda>(d, v).
       ret_ro (if addr > MM2_Kernel_Boundary then (d\<lparr>upages := upages d + 1\<rparr>, v) else (d, v\<lparr>kpages := kpages v + 1\<rparr>)))"

(* src/src/kernel/mm2/pagedirectory.cpp:235-242 PageDirectory::map_page_at *)
definition map_page_at :: "nat \<Rightarrow> u32 \<Rightarrow> u32 \<Rightarrow> space \<Rightarrow> space result option" where
  "map_page_at fp addr flags s =
     bind_ro (alloc_page s) (\<lambda>(a, s'). map_given_page_at fp (addr AND MM2_Address_Mask) a flags s')"

(* src/src/kernel/mm2/pagedirectory.cpp:109-117 PageDirectory::alloc_pages_at *)
definition alloc_pages_at :: "nat \<Rightarrow> nat \<Rightarrow> u32 \<Rightarrow> space \<Rightarrow> space result option" where
  "alloc_pages_at fp pages baseaddr s =
     (let flags = (Present OR Writable) OR (if baseaddr \<ge> MM2_Kernel_Boundary then Usermode else 0)
      in fold_ro (\<lambda>page. map_page_at fp (baseaddr + of_nat page * 4096) flags) [0..<pages] s)"

text \<open>The search of \<open>alloc\<close>: the number of free pages found in a row and the first of them, zero for
  none. Looking for a single page moves the hint to the last page seen in use.\<close>

(* src/src/kernel/mm2/pagedirectory.cpp:83-84 PageDirectory::alloc *)
definition move_hints :: "u32 \<Rightarrow> u32 \<Rightarrow> u32 \<Rightarrow> pagedir \<Rightarrow> pagedir" where
  "move_hints pages mode pageno d =
     (let d1 = (if pages = 1 \<and> has_mode mode Mode_Kernel then d\<lparr>klowfree := pageno\<rparr> else d)
      in if pages = 1 \<and> has_mode mode Mode_Userlow then d1\<lparr>ulowfree := pageno\<rparr> else d1)"

(* src/src/kernel/mm2/pagedirectory.cpp:78-92 PageDirectory::alloc *)
function alloc_search :: "nat \<Rightarrow> u32 \<Rightarrow> u32 \<Rightarrow> u32 \<Rightarrow> u32 \<Rightarrow> u32 \<Rightarrow> space \<Rightarrow> u32 \<times> space" where
  "alloc_search fp pages mode pageno found firstpage s =
     (if pageno < MM2_Total_Pages
      then (case is_available fp pageno s of (avail, (d, v)) \<Rightarrow>
        let (d', firstpage', found') =
              (if avail then (d, (if firstpage = 0 then pageno else firstpage), found + 1)
               else (move_hints pages mode pageno d, 0, 0))
        in if found' = pages then (firstpage' * 4096, (d', v))
           else alloc_search fp pages mode (pageno + 1) found' firstpage' (d', v))
      else (0, s))"
  by pat_completeness auto
termination
proof (relation "measure (\<lambda>(fp, pages, mode, pageno, found, firstpage, s). 2 ^ 32 - unat pageno)", goal_cases)
  case 2
  then show ?case
    by (auto simp: MM2_Total_Pages_def word_less_nat_alt unat_word_ariths)
qed simp

declare alloc_search.simps [simp del]

(* src/src/kernel/mm2/pagedirectory.cpp:70-107 PageDirectory::alloc *)
definition pagedir_alloc :: "nat \<Rightarrow> u32 \<Rightarrow> u32 \<Rightarrow> space \<Rightarrow> (u32 \<times> space) result option" where
  "pagedir_alloc fp pages mode s =
     (if \<not> (has_mode mode Mode_Kernel \<or> has_mode mode Mode_Userlow)
      then Some (Inl (Panic ''(MM2) Allocation mode not implemented!''))
      else let startpage = (if has_mode mode Mode_Userlow then ulowfree (fst s) else klowfree (fst s));
               (virtual_addr, s1) = alloc_search fp pages mode startpage 0 0 s
           in if virtual_addr \<noteq> 0
              then bind_ro (fold_ro (\<lambda>page. map_page_at fp (virtual_addr + of_nat page * 4096) ((Present OR Writable) OR Usermode))
                              [0..<unat pages] s1)
                     (\<lambda>s2. ret_ro (virtual_addr, s2))
              else ret_ro (0, s1))"

text \<open>Freeing in a directory whose lock the caller does not hold.\<close>

(* src/src/kernel/mm2/pagedirectory.cpp:291-307 PageDirectory::free_pages *)
definition free_one_page :: "nat \<Rightarrow> u32 \<Rightarrow> space \<Rightarrow> space result option" where
  "free_one_page fp pageaddr s = (case s of (d, v) \<Rightarrow>
     let pageno = pageaddr div 4096;
         d1 = (if pageno < MM2_Kernel_Pages \<and> pageno < klowfree d then d\<lparr>klowfree := pageno\<rparr>
               else if pageno \<ge> MM2_Kernel_Pages \<and> pageno < ulowfree d then d\<lparr>ulowfree := pageno\<rparr> else d);
         (e, (d2, v2)) = get_table_entry fp pageno (d1, v)
     in bind_ro (if e AND Present \<noteq> 0
                 then Some (bind_result (physical_free (e AND MM2_Address_Mask) (pages_of v2)) (\<lambda>p. Inr (v2\<lparr>pages_of := p\<rparr>)))
                 else ret_ro v2) (\<lambda>v3.
        bind_ro (set_table_entry fp pageno 0 (d2, v3)) (\<lambda>(d4, v4).
          ret_ro (if pageaddr > MM2_Kernel_Boundary then (d4\<lparr>upages := upages d4 - 1\<rparr>, v4) else (d4, v4\<lparr>kpages := kpages v4 - 1\<rparr>)))))"

(* src/src/kernel/mm2/pagedirectory.cpp:288-308 PageDirectory::free_pages *)
definition pagedir_free_pages :: "nat \<Rightarrow> u32 \<Rightarrow> nat \<Rightarrow> space \<Rightarrow> space result option" where
  "pagedir_free_pages fp addr pages s = fold_ro (\<lambda>i. free_one_page fp (addr + of_nat i * 4096)) [0..<pages] s"

text \<open>A guard on a page that is present frees the page while it holds the lock of the directory
  exclusively; \<open>free_pages\<close> takes the same lock exclusively, which is a panic once locks are in use.\<close>

(* src/src/kernel/mm2/pagedirectory.cpp:274-286 PageDirectory::guard_page_at *)
definition guard_page_at :: "bool \<Rightarrow> nat \<Rightarrow> u32 \<Rightarrow> space \<Rightarrow> space result option" where
  "guard_page_at ready fp ptr s =
     (let pageno = ptr div 4096; (e, s1) = get_table_entry fp pageno s
      in bind_ro (if e AND Present \<noteq> 0
                  then if ready then Some (Inl (Panic ''(LOCK) Attempt to take lock that's already held!''))
                       else bind_ro (pagedir_free_pages fp ptr 1 s1) (\<lambda>s2. ret_ro (get_table_entry fp pageno s2))
                  else ret_ro (e, s1))
           (\<lambda>(e', s2). set_table_entry fp pageno (e' OR Guard_Page) s2))"

section \<open>Regions\<close>

(* src/src/kernel/mm2/pagedirectory.cpp:316-323 PageDirectory::add_region *)
definition add_region :: "u32 \<Rightarrow> u32 \<Rightarrow> nat \<Rightarrow> u64 \<Rightarrow> pagedir \<Rightarrow> pagedir result" where
  "add_region addr sz pf_handle rid d = (case regions d of
     None \<Rightarrow> Inl Undefined
   | Some rs \<Rightarrow> Inr (d\<lparr>regions := Some (rs @ [\<lparr>r_addr = addr, r_size = sz, r_id = rid, r_handle = pf_handle\<rparr>])\<rparr>))"

(* src/src/kernel/mm2/pagedirectory.cpp:325-333 PageDirectory::remove_region *)
definition remove_region :: "u32 \<Rightarrow> pagedir \<Rightarrow> pagedir result" where
  "remove_region addr d = (case regions d of
     None \<Rightarrow> Inl Undefined
   | Some rs \<Rightarrow> Inr (d\<lparr>regions := Some (remove_first (\<lambda>r. r_addr r = addr) rs)\<rparr>))"

text \<open>The region that serves a fault on an address that is not mapped, if any; the caller runs its
  handler. The end of a region is computed with wrap-around.\<close>

(* src/src/kernel/mm2/pagedirectory.cpp:335-347 PageDirectory::handle_pf *)
definition handle_pf :: "nat \<Rightarrow> u32 \<Rightarrow> space \<Rightarrow> region option \<times> space" where
  "handle_pf fp addr s = (case is_mapped fp addr s of (mapped, s') \<Rightarrow>
     (if mapped then None
      else case regions (fst s') of
             None \<Rightarrow> None
           | Some rs \<Rightarrow> List.find (\<lambda>r. r_addr r \<le> addr \<and> r_addr r + r_size r > addr) rs, s'))"

(* src/src/kernel/mm2/pagedirectory.cpp:210-220 PageDirectory::resolve_addr *)
definition resolve_addr :: "nat \<Rightarrow> (region \<Rightarrow> u32 \<Rightarrow> space \<Rightarrow> space) \<Rightarrow> u32 \<Rightarrow> space \<Rightarrow> u32 \<times> space" where
  "resolve_addr fp run addr s = (case handle_pf fp addr s of (r, s1) \<Rightarrow>
     let s2 = (case r of None \<Rightarrow> s1 | Some r \<Rightarrow> run r addr s1)
     in case virt2phys fp addr s2 of (physaddr, s3) \<Rightarrow>
          (if physaddr \<noteq> 0 then (if physaddr mod 4096 = 0 then 4096 else physaddr mod 4096) else 0, s3))"

(* src/src/kernel/mm2/pagedirectory.cpp:266-272 PageDirectory::get_kernel_used *)
definition get_user_used :: "pagedir \<Rightarrow> u32" where
  "get_user_used d = upages d * 4096"

section \<open>Several directories\<close>

text \<open>The directories by number; number 0 is the kernel's.\<close>

(* src/src/kernel/mm2/virtual.cpp:14-15 current_pagedir *)
record address_spaces =
  dirs :: "nat \<Rightarrow> pagedir"
  current_pagedir :: nat
  shared :: vm

(* src/src/kernel/mm2/pagedirectory.cpp:259-264 PageDirectory::copy_kernelspace *)
definition copy_kernelspace :: "pagedir \<Rightarrow> pagedir \<Rightarrow> pagedir result" where
  "copy_kernelspace src_dir d =
     (if directory_addr d = 0 then Inl (Panic ''(MM2) Copy to NULL page directory.'')
      else if directory_addr src_dir = 0 then Inl (Panic ''(MM2) Copy from NULL page directory.'')
      else Inr (d\<lparr>directory := (\<lambda>t. if t < MM2_Kernel_Tables then directory src_dir t else directory d t),
                  klowfree := klowfree src_dir\<rparr>))"

(* src/src/kernel/mm2/pagedirectory.cpp:310-314 PageDirectory::activate *)
definition activate :: "pagedir \<Rightarrow> unit result" where
  "activate d = (if directory_physical d = 0 then Inl (Panic ''(MM2) Page directory is NULL!'') else Inr ())"

(* src/src/kernel/mm2/virtual.cpp:99-107 mm2_switch *)
definition mm2_switch :: "nat \<Rightarrow> address_spaces \<Rightarrow> address_spaces result" where
  "mm2_switch newdir a =
     (if newdir = current_pagedir a then Inr a
      else bind_result (copy_kernelspace (dirs a (current_pagedir a)) (dirs a 0)) (\<lambda>k.
           let ds = (dirs a)(0 := k)
           in bind_result (copy_kernelspace (ds 0) (ds newdir)) (\<lambda>n.
              bind_result (activate n) (\<lambda>_.
                Inr (a\<lparr>dirs := ds(newdir := n), current_pagedir := newdir\<rparr>)))))"

definition on_current :: "(space \<Rightarrow> ('b \<times> space) result option) \<Rightarrow> address_spaces \<Rightarrow> ('b \<times> address_spaces) result option" where
  "on_current f a =
     bind_ro (f (dirs a (current_pagedir a), shared a)) (\<lambda>(x, (d, v)).
       ret_ro (x, a\<lparr>dirs := (dirs a)(current_pagedir a := d), shared := v\<rparr>))"

(* src/src/kernel/mm2/virtual.cpp:75-77 mm2_virtual_alloc *)
definition mm2_virtual_alloc :: "nat \<Rightarrow> u32 \<Rightarrow> u32 \<Rightarrow> address_spaces \<Rightarrow> (u32 \<times> address_spaces) result option" where
  "mm2_virtual_alloc fp pages mode = on_current (pagedir_alloc fp pages mode)"

(* src/src/kernel/mm2/virtual.cpp:79-81 mm2_virtual_free *)
definition mm2_virtual_free :: "nat \<Rightarrow> u32 \<Rightarrow> nat \<Rightarrow> address_spaces \<Rightarrow> (unit \<times> address_spaces) result option" where
  "mm2_virtual_free fp ptr pages =
     on_current (\<lambda>s. bind_ro (pagedir_free_pages fp ptr pages s) (\<lambda>s'. ret_ro ((), s')))"

(* src/src/kernel/mm2/virtual.cpp:83-93 mm2_map_physical *)
definition mm2_map_physical :: "nat \<Rightarrow> u32 \<Rightarrow> u32 \<Rightarrow> space \<Rightarrow> (u32 \<times> space) result option" where
  "mm2_map_physical fp addr pages s =
     bind_ro (pagedir_alloc fp pages Mode_Kernel s) (\<lambda>(vaddr, s1).
       bind_ro (fold_ro (\<lambda>i (d, v).
           bind_ro (Some (physical_get_io_page (addr + of_nat i * 4096) (pages_of v))) (\<lambda>(r, p).
             bind_ro (pagedir_free_pages fp (vaddr + of_nat i * 4096) 1 (d, v\<lparr>pages_of := p\<rparr>)) (\<lambda>(d2, v2).
               map_given_page_at fp (vaddr + of_nat i * 4096) (deref r (pages_of v2)) ((Present OR Writable) OR NoCache) (d2, v2))))
         [0..<unat pages] s1) (\<lambda>s2. ret_ro (vaddr, s2)))"

text \<open>A new directory: its page comes from the current one. Only the entry fields of the cache are
  cleared: \<open>garbage\<close> is what memory held for the others.\<close>

(* src/src/kernel/mm2/pagedirectory.cpp:27-37 PageDirectory::PageDirectory *)
definition PageDirectory_new :: "nat \<Rightarrow> entrycache_entry list \<Rightarrow> address_spaces \<Rightarrow> (pagedir \<times> address_spaces) result option" where
  "PageDirectory_new fp garbage a =
     bind_ro (mm2_virtual_alloc fp 1 Mode_Kernel a) (\<lambda>(addr, a1).
       bind_ro (on_current (\<lambda>s. ret_ro (virt2phys fp addr s)) a1) (\<lambda>(phys, a2).
         ret_ro (\<lparr>directory_addr = addr, directory = (\<lambda>_. 0), directory_physical = phys, current_table = 0,
                  klowfree = 0, ulowfree = MM2_Kernel_Pages, upages = 0,
                  entrycache = map (\<lambda>e. e\<lparr>ce_entry := 0\<rparr>) garbage, regions = Some []\<rparr>, a2)))"

(* src/src/kernel/mm2/pagedirectory.cpp:47-52 PageDirectory::~PageDirectory *)
definition free_table_page :: "nat \<Rightarrow> nat \<Rightarrow> space \<Rightarrow> space result option" where
  "free_table_page fp j s =
     (let e = frame_read fp j s
      in if e AND Present \<noteq> 0
         then bind_ro (Some (physical_free (e AND MM2_Address_Mask) (pages_of (snd s)))) (\<lambda>p.
                ret_ro (frame_write fp j 0 (fst s, (snd s)\<lparr>pages_of := p\<rparr>)))
         else ret_ro s)"

(* src/src/kernel/mm2/pagedirectory.cpp:44-56 PageDirectory::~PageDirectory *)
definition free_table :: "nat \<Rightarrow> nat \<Rightarrow> space \<Rightarrow> space result option" where
  "free_table fp i s =
     (case map_table fp (directory (fst s) i) s of
        (True, s1) \<Rightarrow> bind_ro (fold_ro (free_table_page fp) [0..<1024] s1) (\<lambda>(d, v).
          bind_ro (Some (physical_free (table_addr d i) (pages_of v))) (\<lambda>p.
            ret_ro (d\<lparr>directory := (directory d)(i := 0)\<rparr>, v\<lparr>pages_of := p\<rparr>)))
      | (False, s1) \<Rightarrow> ret_ro s1)"

(* src/src/kernel/mm2/pagedirectory.cpp:39-60 PageDirectory::~PageDirectory *)
definition PageDirectory_delete :: "nat \<Rightarrow> nat \<Rightarrow> address_spaces \<Rightarrow> (unit \<times> address_spaces) result option" where
  "PageDirectory_delete fp n a =
     (if n = current_pagedir a then Some (Inl (Panic ''(MM2) Attempt to delete current page directory!''))
      else bind_ro (fold_ro (free_table fp) [MM2_Kernel_Tables..<1024] (dirs a n, shared a)) (\<lambda>(d, v).
             mm2_virtual_free fp (directory_addr d) 1 (a\<lparr>dirs := (dirs a)(n := d), shared := v\<rparr>)))"

section \<open>What the tables say\<close>

text \<open>The entry of a page in the tables, behind window and cache.\<close>

definition raw_entry :: "space \<Rightarrow> nat \<Rightarrow> u32" where
  "raw_entry s i = (if table_addr (fst s) (i div 1024) = 0 then 0
     else table_mem (snd s) (table_addr (fst s) (i div 1024)) (i mod 1024))"

definition tables_ok :: "nat \<Rightarrow> space \<Rightarrow> bool" where
  "tables_ok fp s \<longleftrightarrow> fp < 2 ^ 20 \<and> directory (fst s) (fp div 1024) AND Present \<noteq> 0 \<and> table_addr (fst s) (fp div 1024) \<noteq> 0 \<and>
     (\<forall>t < 1024. \<forall>u < 1024. t \<noteq> u \<longrightarrow> table_addr (fst s) t \<noteq> 0 \<longrightarrow> table_addr (fst s) t \<noteq> table_addr (fst s) u)"

text \<open>A value that reading the entry of a page may give: for the page of the window, whose entry
  changes with every access to a table, any that is present.\<close>

definition reads :: "nat \<Rightarrow> space \<Rightarrow> nat \<Rightarrow> u32 \<Rightarrow> bool" where
  "reads fp s i r \<longleftrightarrow> (if i = fp then r AND Present \<noteq> 0 else r = raw_entry s i)"

definition coherent :: "nat \<Rightarrow> space \<Rightarrow> bool" where
  "coherent fp s \<longleftrightarrow> (\<forall>e \<in> set (entrycache (fst s)). ce_entry e \<noteq> 0 \<longrightarrow>
     unat (ce_index e) < 2 ^ 20 \<and> reads fp s (unat (ce_index e)) (ce_entry e))"

text \<open>Steps that change nothing but the window and the cache.\<close>

definition core :: "space \<Rightarrow> (u32 \<times> (nat \<Rightarrow> u32) \<times> u32 \<times> region list option) \<times> (u32 \<times> u32 \<times> u32 \<times> u32) \<times> pmm" where
  "core s = (case s of (d, v) \<Rightarrow>
     ((directory_addr d, directory d, directory_physical d, regions d), (klowfree d, ulowfree d, upages d, kpages v), pages_of v))"

definition win :: "nat \<Rightarrow> space \<Rightarrow> bool" where
  "win fp s \<longleftrightarrow> raw_entry s fp AND Present \<noteq> 0"

definition same_entries :: "nat \<Rightarrow> space \<Rightarrow> space \<Rightarrow> bool" where
  "same_entries fp s s' \<longleftrightarrow> (\<forall>i < 2 ^ 20. i \<noteq> fp \<longrightarrow> raw_entry s' i = raw_entry s i) \<and> (win fp s \<longrightarrow> win fp s')"

definition quiet :: "nat \<Rightarrow> space \<Rightarrow> space \<Rightarrow> bool" where
  "quiet fp s s' \<longleftrightarrow> core s' = core s \<and> same_entries fp s s'"

lemma same_entries_refl [simp]: "same_entries fp s s"
  by (simp add: same_entries_def)

lemma same_entries_trans [trans]: "same_entries fp s s' \<Longrightarrow> same_entries fp s' s'' \<Longrightarrow> same_entries fp s s''"
  by (simp add: same_entries_def)

lemma quiet_refl [simp]: "quiet fp s s"
  by (simp add: quiet_def)

lemma quiet_trans [trans]: "quiet fp s s' \<Longrightarrow> quiet fp s' s'' \<Longrightarrow> quiet fp s s''"
  unfolding quiet_def by (metis same_entries_trans)

lemma reads_same: "same_entries fp s s' \<Longrightarrow> i < 2 ^ 20 \<Longrightarrow> reads fp s' i r \<longleftrightarrow> reads fp s i r"
  by (simp add: reads_def same_entries_def)

lemma win_raw: "raw_entry s' = raw_entry s \<Longrightarrow> same_entries fp s s'"
  by (simp add: same_entries_def win_def)

lemma core_fields:
  assumes "core s' = core s"
  shows "directory (fst s') = directory (fst s)" "table_addr (fst s') = table_addr (fst s)"
    "pages_of (snd s') = pages_of (snd s)" "kpages (snd s') = kpages (snd s)"
    "klowfree (fst s') = klowfree (fst s)" "ulowfree (fst s') = ulowfree (fst s)"
    "upages (fst s') = upages (fst s)" "regions (fst s') = regions (fst s)"
proof -
  have eq: "directory (fst s') = directory (fst s)"
    using assms by (simp add: core_def split_beta)
  then show "directory (fst s') = directory (fst s)" "table_addr (fst s') = table_addr (fst s)"
    unfolding table_addr_def fun_eq_iff by simp_all
  show "pages_of (snd s') = pages_of (snd s)" "kpages (snd s') = kpages (snd s)"
    "klowfree (fst s') = klowfree (fst s)" "ulowfree (fst s') = ulowfree (fst s)"
    "upages (fst s') = upages (fst s)" "regions (fst s') = regions (fst s)"
    using assms by (simp_all add: core_def split_beta)
qed

lemma tables_ok_core: "core s' = core s \<Longrightarrow> tables_ok fp s \<Longrightarrow> tables_ok fp s'"
  using core_fields(1,2) [of s' s] by (simp add: tables_ok_def)

lemma mask_flags:
  "(a AND MM2_Address_Mask) OR Present OR Writable = (a AND MM2_Address_Mask) OR 3"
  "((a AND MM2_Address_Mask) OR 3) AND MM2_Address_Mask = a AND MM2_Address_Mask"
  by (simp_all add: page_flag_defs MM2_Address_Mask_def bit.conj_disj_distrib2 and.assoc)

text \<open>Mapping a table into the window succeeds for every table of a good directory, and only the
  entry of the window's own page changes.\<close>

lemma map_table_ok:
  assumes ok: "tables_ok fp s" and t: "tableaddr AND MM2_Address_Mask \<noteq> 0"
  obtains s' where "map_table fp tableaddr s = (True, s')" "core s' = core s"
    "window_table fp s' = tableaddr AND MM2_Address_Mask" "entrycache (fst s') = entrycache (fst s)"
    "\<forall>a n. (a, n) \<noteq> (table_addr (fst s) (fp div 1024), fp mod 1024) \<longrightarrow> table_mem (snd s') a n = table_mem (snd s) a n"
    "win fp s'"
proof -
  obtain d v where s: "s = (d, v)" by (cases s)
  define ft where "ft = table_addr d (fp div 1024)"
  let ?s = "(d\<lparr>current_table := tableaddr AND MM2_Address_Mask\<rparr>,
    v\<lparr>table_mem := (table_mem v)(ft := (table_mem v ft)(fp mod 1024 := (tableaddr AND MM2_Address_Mask) OR Present OR Writable))\<rparr>)"
  have "table_addr (d\<lparr>current_table := tableaddr AND MM2_Address_Mask\<rparr>) = table_addr d"
    by (simp add: table_addr_def fun_eq_iff)
  then have w: "window_table fp ?s = tableaddr AND MM2_Address_Mask" "win fp ?s"
    using ok by (simp_all add: window_table_def ft_def [symmetric] mask_flags win_def raw_entry_def tables_ok_def s)
      (simp add: page_flag_defs bit.conj_disj_distrib2)
  have "map_table fp tableaddr s = (True, ?s)"
    using ok t by (simp add: map_table_def s tables_ok_def ft_def Let_def)
  moreover have "core ?s = core s" "entrycache (fst ?s) = entrycache (fst s)"
    by (simp_all add: core_def s)
  moreover have "\<forall>a n. (a, n) \<noteq> (table_addr (fst s) (fp div 1024), fp mod 1024) \<longrightarrow> table_mem (snd ?s) a n = table_mem (snd s) a n"
    by (simp add: s ft_def [symmetric])
  ultimately show ?thesis
    using w that by blast
qed

lemma table_no [intro]: "(i :: nat) < 2 ^ 20 \<Longrightarrow> i div 1024 < 1024"
  by simp

lemma raw_entry_frame:
  assumes "tables_ok fp s" "core s' = core s"
    "\<forall>a n. (a, n) \<noteq> (table_addr (fst s) (fp div 1024), fp mod 1024) \<longrightarrow> table_mem (snd s') a n = table_mem (snd s) a n"
    "i < 2 ^ 20" "i \<noteq> fp"
  shows "raw_entry s' i = raw_entry s i"
proof (cases "table_addr (fst s) (i div 1024) = 0")
  case True
  then show ?thesis
    using core_fields(2) [OF assms(2)] by (simp add: raw_entry_def)
next
  case False
  have "i div 1024 \<noteq> fp div 1024 \<or> i mod 1024 \<noteq> fp mod 1024"
    using assms(5) by (metis div_mult_mod_eq)
  moreover have "i div 1024 < 1024" "fp div 1024 < 1024"
    using assms(1,4) by (auto simp: tables_ok_def intro: table_no)
  ultimately have "(table_addr (fst s) (i div 1024), i mod 1024) \<noteq> (table_addr (fst s) (fp div 1024), fp mod 1024)"
    using assms(1) False unfolding tables_ok_def by blast
  then show ?thesis
    using False assms(3) core_fields(2) [OF assms(2)] by (simp add: raw_entry_def)
qed

lemma map_table_quiet:
  assumes "tables_ok fp s" "tableaddr AND MM2_Address_Mask \<noteq> 0"
  obtains s' where "map_table fp tableaddr s = (True, s')" "quiet fp s s'" "tables_ok fp s'"
    "window_table fp s' = tableaddr AND MM2_Address_Mask" "entrycache (fst s') = entrycache (fst s)" "win fp s'"
proof -
  obtain s' where s': "map_table fp tableaddr s = (True, s')" "core s' = core s"
    "window_table fp s' = tableaddr AND MM2_Address_Mask" "entrycache (fst s') = entrycache (fst s)"
    "\<forall>a n. (a, n) \<noteq> (table_addr (fst s) (fp div 1024), fp mod 1024) \<longrightarrow> table_mem (snd s') a n = table_mem (snd s) a n"
    "win fp s'"
    by (rule map_table_ok [OF assms])
  moreover have "quiet fp s s'"
    unfolding quiet_def same_entries_def using raw_entry_frame [OF assms(1) s'(2,5)] s'(2,6) by blast
  ultimately show ?thesis
    using that tables_ok_core [OF s'(2) assms(1)] by blast
qed

section \<open>Reading and writing entries\<close>

lemma read_table_entry_ok:
  assumes ok: "tables_ok fp s" "win fp s" and p: "unat p < 2 ^ 20"
  obtains r s' where "read_table_entry fp p s = (r, s')" "quiet fp s s'" "tables_ok fp s'"
    "entrycache (fst s') = entrycache (fst s)" "reads fp s (unat p) r"
proof (cases "table_addr (fst s) (unat p div 1024) = 0")
  case True
  then have "unat p \<noteq> fp"
    using ok(1) by (auto simp: tables_ok_def)
  with True show ?thesis
    using that [of 0 s] ok by (simp add: read_table_entry_def raw_entry_def reads_def Let_def)
next
  case False
  then have nz: "directory (fst s) (unat p div 1024) AND MM2_Address_Mask \<noteq> 0"
    by (simp add: table_addr_def)
  obtain s' where s': "map_table fp (directory (fst s) (unat p div 1024)) s = (True, s')" "quiet fp s s'" "tables_ok fp s'"
    "window_table fp s' = directory (fst s) (unat p div 1024) AND MM2_Address_Mask" "entrycache (fst s') = entrycache (fst s)" "win fp s'"
    by (rule map_table_quiet [OF ok(1) nz])
  have "raw_entry s' (unat p) = frame_read fp (unat p mod 1024) s'"
    using False s'(4) core_fields(2) [of s' s] s'(2) by (simp add: raw_entry_def frame_read_def quiet_def table_addr_def)
  then have "reads fp s' (unat p) (frame_read fp (unat p mod 1024) s')"
    using s'(6) by (auto simp: reads_def win_def)
  then have "reads fp s (unat p) (frame_read fp (unat p mod 1024) s')"
    using reads_same [of fp s s'] s'(2) p by (simp add: quiet_def)
  then show ?thesis
    using that [of "frame_read fp (unat p mod 1024) s'" s'] False s' by (simp add: read_table_entry_def Let_def)
qed

lemma entrycache_get_entry:
  assumes "entrycache_get p es = (r, es')"
  shows "r = 0 \<or> (\<exists>e \<in> set es. ce_index e = p \<and> ce_entry e = r)"
    "\<forall>e' \<in> set es'. \<exists>e \<in> set es. ce_index e' = ce_index e \<and> ce_entry e' = ce_entry e"
proof -
  have f: "foldl (\<lambda>r e. if ce_index e = p \<and> ce_hits e < entrycache_maxhits then ce_entry e else r) r0 xs = r0 \<or>
      (\<exists>e \<in> set xs. ce_index e = p \<and> ce_entry e = foldl (\<lambda>r e. if ce_index e = p \<and> ce_hits e < entrycache_maxhits then ce_entry e else r) r0 xs)"
    for r0 and xs :: "entrycache_entry list"
  proof (induction xs arbitrary: r0)
    case (Cons x xs)
    from Cons.IH [of "if ce_index x = p \<and> ce_hits x < entrycache_maxhits then ce_entry x else r0"] show ?case
      by (auto split: if_splits)
  qed simp
  show "r = 0 \<or> (\<exists>e \<in> set es. ce_index e = p \<and> ce_entry e = r)"
    using assms f [of 0 es] by (auto simp: entrycache_get_def split: if_splits)
  have "ce_index (entrycache_touch p e) = ce_index e \<and> ce_entry (entrycache_touch p e) = ce_entry e" for e
    by (simp add: entrycache_touch_def Let_def)
  then show "\<forall>e' \<in> set es'. \<exists>e \<in> set es. ce_index e' = ce_index e \<and> ce_entry e' = ce_entry e"
    using assms by (fastforce simp: entrycache_get_def split: if_splits)
qed

lemma entrycache_set_entry:
  "e \<in> set (entrycache_set p r es) \<Longrightarrow> e \<in> set es \<or> (ce_index e = p \<and> ce_entry e = r)"
  unfolding entrycache_set_def by (auto split: if_splits dest!: set_update_subset_insert [THEN subsetD])

lemma entrycache_clear_entry:
  "e \<in> set (entrycache_clear p es) \<Longrightarrow> ce_entry e \<noteq> 0 \<Longrightarrow> e \<in> set es \<and> ce_index e \<noteq> p"
  unfolding entrycache_clear_def by (auto split: if_splits)

text \<open>The cache never shows: reading an entry gives the entry of the table, whatever the cache
  holds, and changes nothing that can be seen.\<close>

lemma get_table_entry_ok:
  assumes ok: "tables_ok fp s" "coherent fp s" "win fp s" and p: "unat p < 2 ^ 20"
  obtains r s' where "get_table_entry fp p s = (r, s')" "quiet fp s s'" "tables_ok fp s'" "coherent fp s'"
    "reads fp s (unat p) r"
proof -
  obtain d v where s: "s = (d, v)" by (cases s)
  obtain r es where g: "entrycache_get p (entrycache d) = (r, es)"
    by (metis surj_pair)
  define s1 :: space where "s1 = (d\<lparr>entrycache := es\<rparr>, v)"
  have raw1: "raw_entry s1 = raw_entry s" and c1: "core s1 = core s"
    by (simp_all add: s1_def s raw_entry_def core_def table_addr_def fun_eq_iff)
  have e1: "same_entries fp s s1"
    by (rule win_raw [OF raw1])
  have ok1: "tables_ok fp s1" "win fp s1"
    using tables_ok_core [OF c1 ok(1)] ok(3) raw1 by (simp_all add: win_def)
  have coh1: "coherent fp s1"
    using ok(2) entrycache_get_entry(2) [OF g] reads_same [OF e1] unfolding coherent_def by (fastforce simp: s1_def s)
  show ?thesis
  proof (cases "r = 0")
    case False
    with entrycache_get_entry(1) [OF g] ok(2) have "reads fp s (unat p) r"
      unfolding coherent_def s by auto
    moreover have "quiet fp s s1"
      using e1 c1 by (simp add: quiet_def)
    moreover have "get_table_entry fp p s = (r, s1)"
      using False g by (simp add: get_table_entry_def s s1_def Let_def)
    ultimately show ?thesis
      using that ok1(1) coh1 by blast
  next
    case True
    obtain r' s2 where s2: "read_table_entry fp p s1 = (r', s2)" "quiet fp s1 s2" "tables_ok fp s2"
      "entrycache (fst s2) = entrycache (fst s1)" "reads fp s1 (unat p) r'"
      by (rule read_table_entry_ok [OF ok1 p])
    define s3 where "s3 = ((fst s2)\<lparr>entrycache := entrycache_set p r' (entrycache (fst s2))\<rparr>, snd s2)"
    have raw3: "raw_entry s3 = raw_entry s2" and c3: "core s3 = core s2"
      by (cases s2; simp add: s3_def raw_entry_def core_def table_addr_def fun_eq_iff)+
    have e3: "same_entries fp s1 s3"
      using same_entries_trans [OF _ win_raw [OF raw3]] s2(2) by (simp add: quiet_def)
    have "coherent fp s3"
      unfolding coherent_def
    proof (intro ballI impI)
      fix e assume e: "e \<in> set (entrycache (fst s3))" "ce_entry e \<noteq> 0"
      then have "e \<in> set (entrycache (fst s1)) \<or> (ce_index e = p \<and> ce_entry e = r')"
        using entrycache_set_entry s2(4) by (auto simp: s3_def)
      then show "unat (ce_index e) < 2 ^ 20 \<and> reads fp s3 (unat (ce_index e)) (ce_entry e)"
        using coh1 e(2) s2(5) reads_same [OF e3] p unfolding coherent_def by auto
    qed
    moreover have "quiet fp s s3"
      using same_entries_trans [OF e1 e3] c1 c3 s2(2) by (simp add: quiet_def)
    moreover have "get_table_entry fp p s = (r', s3)"
      using True g s2(1) by (simp add: get_table_entry_def s s1_def [symmetric] s3_def Let_def split_beta)
    moreover have "reads fp s (unat p) r'"
      using s2(5) reads_same [OF e1 p] by simp
    ultimately show ?thesis
      using that tables_ok_core [OF c3 s2(3)] by simp
  qed
qed

lemma map_table_any:
  assumes "tables_ok fp s"
  obtains b s' where "map_table fp x s = (b, s')" "quiet fp s s'" "tables_ok fp s'" "entrycache (fst s') = entrycache (fst s)"
proof (cases "x AND MM2_Address_Mask = 0")
  case True
  then have "map_table fp x s = (False, s)"
    by (simp add: map_table_def split_beta)
  then show ?thesis
    using that assms quiet_refl by blast
next
  case False
  show ?thesis
    by (rule map_table_quiet [OF assms False]) (rule that)
qed

text \<open>The addresses of the free physical pages. In a good address space they are distinct, not zero,
  and no table of the directory lies in them.\<close>

definition free_addrs :: "pmm \<Rightarrow> u32 list" where
  "free_addrs m = map page_address (filter (\<lambda>v. page_status_of v = Some Free) (physical_pages m))"

definition reserved :: "space \<Rightarrow> bool" where
  "reserved s \<longleftrightarrow> pmm_ok (pages_of (snd s)) \<and> distinct (free_addrs (pages_of (snd s))) \<and> 0 \<notin> set (free_addrs (pages_of (snd s))) \<and>
     (\<forall>t < 1024. table_addr (fst s) t \<notin> set (free_addrs (pages_of (snd s))))"

definition space_ok :: "nat \<Rightarrow> space \<Rightarrow> bool" where
  "space_ok fp s \<longleftrightarrow> tables_ok fp s \<and> coherent fp s \<and> win fp s \<and> reserved s"

definition nfree :: "space \<Rightarrow> nat" where
  "nfree s = card (set (free_addrs (pages_of (snd s))))"

definition side :: "space \<Rightarrow> u32 \<times> u32 \<times> u32 \<times> u32 \<times> region list option" where
  "side s = (case s of (d, v) \<Rightarrow> (klowfree d, ulowfree d, upages d, kpages v, regions d))"

lemma core_side: "core s = core s' \<Longrightarrow> side s = side s'"
  by (simp add: core_def side_def split_beta)

lemma reserved_core: "core s' = core s \<Longrightarrow> reserved s \<Longrightarrow> reserved s'"
  using core_fields [of s' s] by (simp add: reserved_def)

lemma space_ok_quiet: "space_ok fp s \<Longrightarrow> quiet fp s s' \<Longrightarrow> tables_ok fp s' \<Longrightarrow> coherent fp s' \<Longrightarrow> space_ok fp s'"
  using reserved_core [of s' s] by (simp add: space_ok_def quiet_def same_entries_def)

lemma take_page_free_addrs:
  assumes "i < length (physical_pages m)" "page_status_of (physical_pages m ! i) = Some Free" "distinct (free_addrs m)"
  shows "page_address (physical_pages m ! i) \<in> set (free_addrs m)" "distinct (free_addrs (take_page i m))"
    "set (free_addrs (take_page i m)) = set (free_addrs m) - {page_address (physical_pages m ! i)}"
proof -
  let ?F = "\<lambda>v. page_status_of v = Some Free" and ?ps = "physical_pages m"
  have "?ps = take i ?ps @ ?ps ! i # drop (Suc i) ?ps"
    using assms(1) by (rule id_take_nth_drop)
  then have "free_addrs m = map page_address (filter ?F (take i ?ps @ ?ps ! i # drop (Suc i) ?ps))"
    unfolding free_addrs_def by (rule arg_cong)
  then have m: "free_addrs m = map page_address (filter ?F (take i ?ps)) @ page_address (?ps ! i) # map page_address (filter ?F (drop (Suc i) ?ps))"
    using assms(2) by simp
  have m': "free_addrs (take_page i m) = map page_address (filter ?F (take i ?ps)) @ map page_address (filter ?F (drop (Suc i) ?ps))"
    using assms(1) by (simp add: free_addrs_def take_page_def upd_conv_take_nth_drop)
  show "page_address (?ps ! i) \<in> set (free_addrs m)" "distinct (free_addrs (take_page i m))"
    "set (free_addrs (take_page i m)) = set (free_addrs m) - {page_address (?ps ! i)}"
    using assms(3) unfolding m m' by auto
qed

lemma alloc_page_ok:
  assumes "reserved s" "alloc_page s = Some (Inr (a, s'))"
  shows "fst s' = fst s" "table_mem (snd s') = table_mem (snd s)" "kpages (snd s') = kpages (snd s)"
    "a \<in> set (free_addrs (pages_of (snd s)))" "a AND MM2_Address_Mask = a" "reserved s'"
    "set (free_addrs (pages_of (snd s'))) = set (free_addrs (pages_of (snd s))) - {a}"
proof -
  obtain d v where s: "s = (d, v)" by (cases s)
  let ?m = "pages_of v" let ?ps = "physical_pages (pages_of v)"
  have ok: "pmm_ok ?m" "distinct (free_addrs ?m)"
    using assms(1) by (simp_all add: reserved_def s)
  have "\<exists>i. List.find (takeable 0xFFFFFFFF ?ps) (search_order (unat (lastidx ?m)) (length ?ps)) = Some i \<and>
      a = page_address (physical_pages (take_page i ?m) ! unat (of_nat i :: u32)) \<and> s' = (d, v\<lparr>pages_of := take_page i ?m\<rparr>)"
    using assms(2) by (auto simp: alloc_page_def s physical_alloc_exact [OF ok(1)] split: option.splits if_splits)
  then obtain i where i: "List.find (takeable 0xFFFFFFFF ?ps) (search_order (unat (lastidx ?m)) (length ?ps)) = Some i"
      "a = page_address (physical_pages (take_page i ?m) ! unat (of_nat i :: u32))" "s' = (d, v\<lparr>pages_of := take_page i ?m\<rparr>)"
    by blast
  then have il: "i < length ?ps" and st: "page_status_of (?ps ! i) = Some Free"
    using search_order_bound [of "unat (lastidx ?m)" "length ?ps" i] ok(1)
    by (auto simp: find_Some_iff pmm_ok_def takeable_def)
  have u: "unat (of_nat i :: u32) = i"
    using il ok(1) by (intro unat_of_nat_u32) (simp add: pmm_ok_def)
  have a: "a = page_address (?ps ! i)"
    using i(2) il unfolding u by (simp add: take_page_def)
  have "pmm_ok (take_page i ?m)"
    using ok(1) il u by (simp add: pmm_ok_def take_page_def)
  note fa = take_page_free_addrs [OF il st ok(2), folded a]
  show "fst s' = fst s" "table_mem (snd s') = table_mem (snd s)" "kpages (snd s') = kpages (snd s)"
    "a \<in> set (free_addrs (pages_of (snd s)))" "a AND MM2_Address_Mask = a"
    "set (free_addrs (pages_of (snd s'))) = set (free_addrs (pages_of (snd s))) - {a}"
    using fa by (simp_all add: s i(3)) (simp add: a page_address_def and.assoc)
  show "reserved s'"
    using assms(1) fa \<open>pmm_ok (take_page i ?m)\<close> by (simp add: reserved_def s i(3))
qed

lemma frame_ops_core [simp]:
  "core (frame_write fp n e s) = core s" "core (frame_clear fp s) = core s"
  "fst (frame_write fp n e s) = fst s" "fst (frame_clear fp s) = fst s"
  by (simp_all add: core_def frame_write_def frame_clear_def Let_def split_beta)

lemma frame_mem:
  "table_mem (snd (frame_write fp n e s)) a k = (if a = window_table fp s \<and> k = n then e else table_mem (snd s) a k)"
  "table_mem (snd (frame_clear fp s)) a k = (if a = window_table fp s then 0 else table_mem (snd s) a k)"
  by (simp_all add: frame_write_def frame_clear_def Let_def split_beta)

text \<open>Writing through the window changes exactly one entry of the table that it shows; clearing it
  changes only the entries of that table.\<close>

lemma frame_write_entry:
  assumes ok: "tables_ok fp s" and w: "window_table fp s = table_addr (fst s) (p div 1024)"
    "table_addr (fst s) (p div 1024) \<noteq> 0" and p: "p < 2 ^ 20" and i: "i < 2 ^ 20"
  shows "raw_entry (frame_write fp (p mod 1024) e s) i = (if i = p then e else raw_entry s i)"
proof (cases "table_addr (fst s) (i div 1024) = table_addr (fst s) (p div 1024)")
  case True
  then have "i div 1024 = p div 1024"
    using ok w(2) table_no [OF p] table_no [OF i] unfolding tables_ok_def by metis
  then have "i = p \<longleftrightarrow> i mod 1024 = p mod 1024"
    by (metis div_mult_mod_eq)
  with True w show ?thesis
    by (simp add: raw_entry_def frame_mem)
next
  case False
  then have "i \<noteq> p" by auto
  with False w show ?thesis
    by (simp add: raw_entry_def frame_mem)
qed

lemma frame_clear_entry:
  assumes ok: "tables_ok fp s" and w: "window_table fp s = table_addr (fst s) t" "table_addr (fst s) t \<noteq> 0"
    and t: "t < 1024" and i: "i < 2 ^ 20"
  shows "raw_entry (frame_clear fp s) i = (if i div 1024 = t then 0 else raw_entry s i)"
proof (cases "i div 1024 = t")
  case True
  with w show ?thesis
    by (simp add: raw_entry_def frame_mem)
next
  case False
  then have "table_addr (fst s) (i div 1024) \<noteq> table_addr (fst s) t"
    using ok w(2) t table_no [OF i] unfolding tables_ok_def by metis
  with False w show ?thesis
    by (simp add: raw_entry_def frame_mem)
qed

text \<open>Mapping a table and clearing it empties the entries of the table and leaves the others.\<close>

lemma map_and_clear:
  assumes ok: "tables_ok fp s" and t: "t < 1024" "table_addr (fst s) t \<noteq> 0" and nf: "t \<noteq> fp div 1024"
  obtains s' where "snd (map_table fp (directory (fst s) t) s) = s'" "core s' = core s" "tables_ok fp (frame_clear fp s')"
    "window_table fp (frame_clear fp s') = table_addr (fst s) t" "entrycache (fst s') = entrycache (fst s)"
    "\<forall>i < 2 ^ 20. i \<noteq> fp \<longrightarrow> raw_entry (frame_clear fp s') i = (if i div 1024 = t then 0 else raw_entry s i)"
    "win fp (frame_clear fp s')"
proof -
  have nz: "directory (fst s) t AND MM2_Address_Mask \<noteq> 0"
    using t by (simp add: table_addr_def)
  obtain s' where s': "map_table fp (directory (fst s) t) s = (True, s')" "quiet fp s s'" "tables_ok fp s'"
    "window_table fp s' = directory (fst s) t AND MM2_Address_Mask" "entrycache (fst s') = entrycache (fst s)" "win fp s'"
    by (rule map_table_quiet [OF ok nz])
  have ta: "table_addr (fst s') = table_addr (fst s)"
    using core_fields(2) [of s' s] s'(2) by (simp add: quiet_def)
  then have w: "window_table fp s' = table_addr (fst s') t"
    using s'(4) by (simp add: table_addr_def)
  have "\<forall>i < 2 ^ 20. i \<noteq> fp \<longrightarrow> raw_entry (frame_clear fp s') i = (if i div 1024 = t then 0 else raw_entry s i)"
    using frame_clear_entry [OF s'(3) w _ t(1)] ta t(2) s'(2) by (simp add: quiet_def same_entries_def)
  moreover have "win fp (frame_clear fp s')"
    using frame_clear_entry [OF s'(3) w _ t(1), of fp] s'(3,6) nf ta t(2) by (simp add: win_def tables_ok_def)
  moreover have "tables_ok fp (frame_clear fp s')"
    by (rule tables_ok_core [OF _ s'(3)]) simp
  moreover have "window_table fp (frame_clear fp s') = window_table fp s'"
  proof -
    have "table_addr (fst s') (fp div 1024) \<noteq> window_table fp s'"
      using s'(3) nf t w ta table_no [of fp] unfolding tables_ok_def by metis
    then show ?thesis
      unfolding window_table_def [of fp "frame_clear fp s'"] window_table_def [of fp s'] split_beta
      using frame_mem(2) [of fp s'] by (simp add: window_table_def split_beta)
  qed
  ultimately show ?thesis
    using that [of s'] s' w ta by (simp add: quiet_def)
qed

lemma map_table_cong: "x AND MM2_Address_Mask = y AND MM2_Address_Mask \<Longrightarrow> map_table fp x s = map_table fp y s"
  by (simp add: map_table_def split_beta Let_def)

lemma table_flags_masked:
  "((Present OR Writable) OR (if c then Usermode else 0)) AND MM2_Address_Mask = 0"
  by (simp add: page_flag_defs MM2_Address_Mask_def)

lemma or_masked: "a AND MM2_Address_Mask = a \<Longrightarrow> f AND MM2_Address_Mask = 0 \<Longrightarrow> (a OR f) AND MM2_Address_Mask = a"
  by (simp add: bit.conj_disj_distrib2)

lemma reserved_side_change:
  "reserved s \<Longrightarrow> pages_of (snd s') = pages_of (snd s) \<Longrightarrow> table_addr (fst s') = table_addr (fst s) \<Longrightarrow> reserved s'"
  by (simp add: reserved_def)

text \<open>What adding a table does: no entry changes, and the table lies in a page that was free.\<close>

definition table_added :: "nat \<Rightarrow> nat \<Rightarrow> space \<Rightarrow> space \<Rightarrow> bool" where
  "table_added fp t s s' \<longleftrightarrow> tables_ok fp s' \<and> reserved s' \<and> same_entries fp s s' \<and> side s' = side s \<and>
     entrycache (fst s') = entrycache (fst s) \<and> (\<forall>u. u \<noteq> t \<longrightarrow> directory (fst s') u = directory (fst s) u) \<and>
     table_addr (fst s') t \<in> set (free_addrs (pages_of (snd s))) \<and>
     set (free_addrs (pages_of (snd s'))) = set (free_addrs (pages_of (snd s))) - {table_addr (fst s') t}"

lemma create_table_ok:
  assumes ok: "tables_ok fp s" "reserved s" and t: "t < 1024" "table_addr (fst s) t = 0"
    and c: "create_table fp t s = Some (Inr s')"
  shows "table_added fp t s s'"
proof -
  obtain a d v where al: "alloc_page s = Some (Inr (a, (d, v)))"
    using c unfolding create_table_def by auto
  note p = alloc_page_ok [OF ok(2) al, unfolded fst_conv snd_conv]
  define fl where "fl = (Present OR Writable) OR (if t \<ge> MM2_Kernel_Tables then Usermode else 0)"
  define s1 :: space where "s1 = (d\<lparr>directory := (directory d)(t := a OR fl)\<rparr>, v)"
  have am: "(a OR fl) AND MM2_Address_Mask = a"
    using or_masked [OF p(5) table_flags_masked] unfolding fl_def by blast
  have s1: "snd s1 = v" "directory (fst s1) = (directory (fst s))(t := a OR fl)" "entrycache (fst s1) = entrycache (fst s)" "side s1 = side s"
    using p(1,3) by (simp_all add: s1_def side_def split_beta)
  have ta: "table_addr (fst s1) = (table_addr (fst s))(t := a)"
    using am unfolding table_addr_def s1(2) by auto
  have a0: "a \<noteq> 0" and au: "\<forall>u < 1024. table_addr (fst s) u \<noteq> a"
    using ok(2) p(4) unfolding reserved_def by metis+
  have tf: "t \<noteq> fp div 1024"
    using ok(1) t(2) unfolding tables_ok_def by auto
  have ok1: "tables_ok fp s1"
    using ok(1) a0 au tf unfolding tables_ok_def ta s1(2) by auto
  have raw1: "(if i div 1024 = t then 0 else raw_entry s1 i) = raw_entry s i" for i
    using t(2) p(2) unfolding raw_entry_def ta s1(1) by simp
  obtain s2 where s2: "snd (map_table fp (directory (fst s1) t) s1) = s2" "core s2 = core s1" "tables_ok fp (frame_clear fp s2)"
    "entrycache (fst s2) = entrycache (fst s1)"
    "\<forall>i < 2 ^ 20. i \<noteq> fp \<longrightarrow> raw_entry (frame_clear fp s2) i = (if i div 1024 = t then 0 else raw_entry s1 i)"
    "win fp (frame_clear fp s2)"
    by (rule map_and_clear [OF ok1 t(1) _ tf]) (use a0 ta in simp_all)
  define s3 where "s3 = frame_clear fp s2"
  have s3: "core s3 = core s1" "tables_ok fp s3" "same_entries fp s s3" "entrycache (fst s3) = entrycache (fst s)"
    using s2 s1 unfolding s3_def same_entries_def raw1 by simp_all
  obtain b s4 where s4: "map_table fp (current_table d) s3 = (b, s4)" "quiet fp s3 s4" "tables_ok fp s4" "entrycache (fst s4) = entrycache (fst s3)"
    by (rule map_table_any [OF s3(2)])
  have "map_table fp a s1 = map_table fp (directory (fst s1) t) s1"
    using am p(5) s1(2) by (intro map_table_cong) simp
  then have "s' = s3 \<or> s' = s4"
    using c al s2(1) s4(1) unfolding create_table_def Let_def fl_def [symmetric]
    by (auto simp: s1_def [symmetric] s3_def split: if_splits)
  then have cr: "core s' = core s1" "tables_ok fp s'" "same_entries fp s s'" "entrycache (fst s') = entrycache (fst s)"
    using s3 s4 by (auto simp: quiet_def same_entries_def)
  note cf = core_fields(1,2,3) [OF cr(1)]
  have "reserved s1"
    using p(6,7) p(1) au unfolding reserved_def ta s1(1) by auto
  then show ?thesis
    unfolding table_added_def cf ta s1 core_side [OF cr(1)]
    using reserved_core [OF cr(1)] cr p(4,7) by simp
qed

lemma write_and_clear_ok:
  assumes "tables_ok fp s" "reserved s" "window_table fp s = table_addr (fst s) (unat p div 1024)"
    "table_addr (fst s) (unat p div 1024) \<noteq> 0" "same_entries fp s0 s" "entrycache (fst s) = entrycache (fst s0)"
    "coherent fp s0" "unat p < 2 ^ 20" "unat p \<noteq> fp" "win fp s"
    and s': "s' = ((fst s)\<lparr>entrycache := entrycache_clear p (entrycache (fst s))\<rparr>, snd (frame_write fp (unat p mod 1024) e s))"
  shows "space_ok fp s'" "\<forall>i < 2 ^ 20. i \<noteq> fp \<longrightarrow> raw_entry s' i = (if i = unat p then e else raw_entry s0 i)" "core s' = core s"
proof -
  have c: "core s' = core (frame_write fp (unat p mod 1024) e s)"
    by (simp only: core_def split_beta s') simp
  then show c': "core s' = core s"
    by simp
  have "table_addr (fst s') = table_addr (fst s)"
    by (rule core_fields(2) [OF c'])
  then have "raw_entry s' = raw_entry (frame_write fp (unat p mod 1024) e s)"
    by (simp add: raw_entry_def fun_eq_iff s')
  then show raw: "\<forall>i < 2 ^ 20. i \<noteq> fp \<longrightarrow> raw_entry s' i = (if i = unat p then e else raw_entry s0 i)"
    using frame_write_entry [OF assms(1,3,4,8)] assms(5) by (simp add: same_entries_def)
  have w: "win fp s'"
    using frame_write_entry [OF assms(1,3,4,8), of fp e] assms(1,9,10) \<open>raw_entry s' = _\<close> by (simp add: win_def tables_ok_def)
  have "coherent fp s'"
    unfolding coherent_def
  proof (intro ballI impI)
    fix x assume x: "x \<in> set (entrycache (fst s'))" "ce_entry x \<noteq> 0"
    then have x': "x \<in> set (entrycache (fst s0))" "ce_index x \<noteq> p"
      using entrycache_clear_entry [of x p] assms(6) by (auto simp: s')
    then have "unat (ce_index x) < 2 ^ 20" "reads fp s0 (unat (ce_index x)) (ce_entry x)"
      using assms(7) x(2) unfolding coherent_def by auto
    moreover have "unat (ce_index x) \<noteq> unat p"
      using x'(2) by (simp add: word_unat_eq_iff)
    ultimately show "unat (ce_index x) < 2 ^ 20 \<and> reads fp s' (unat (ce_index x)) (ce_entry x)"
      using raw by (auto simp: reads_def)
  qed
  then show "space_ok fp s'"
    unfolding space_ok_def using tables_ok_core [OF c' assms(1)] reserved_core [OF c' assms(2)] w by blast
qed

text \<open>What writing an entry does to a good address space: it stays good, the entry is the new one and
  no other entry changes, though a table may be added in a page that was free.\<close>

definition entry_written :: "nat \<Rightarrow> nat \<Rightarrow> u32 \<Rightarrow> space \<Rightarrow> space \<Rightarrow> bool" where
  "entry_written fp p e s s' \<longleftrightarrow> space_ok fp s' \<and> side s' = side s \<and> nfree s \<le> Suc (nfree s') \<and>
     (\<forall>i < 2 ^ 20. i \<noteq> fp \<longrightarrow> raw_entry s' i = (if i = p then e else raw_entry s i)) \<and>
     set (free_addrs (pages_of (snd s'))) \<subseteq> set (free_addrs (pages_of (snd s))) \<and>
     (\<forall>t < 1024. table_addr (fst s') t = table_addr (fst s) t \<or> table_addr (fst s') t \<in> set (free_addrs (pages_of (snd s))))"

lemma set_table_entry_present:
  assumes ok: "space_ok fp s" and p: "unat p < 2 ^ 20" "unat p \<noteq> fp" and t: "table_addr (fst s) (unat p div 1024) \<noteq> 0"
  obtains s' where "set_table_entry fp p e s = Some (Inr s')" "entry_written fp (unat p) e s s'" "pages_of (snd s') = pages_of (snd s)"
    "core s' = core s"
proof -
  let ?t = "unat p div 1024"
  have nz: "directory (fst s) ?t AND MM2_Address_Mask \<noteq> 0"
    using t by (simp add: table_addr_def)
  then have nz': "directory (fst s) ?t \<noteq> 0"
    by auto
  have tok: "tables_ok fp s"
    using ok by (simp add: space_ok_def)
  obtain s1 where s1: "map_table fp (directory (fst s) ?t) s = (True, s1)" "quiet fp s s1" "tables_ok fp s1"
    "window_table fp s1 = directory (fst s) ?t AND MM2_Address_Mask" "entrycache (fst s1) = entrycache (fst s)" "win fp s1"
    by (rule map_table_quiet [OF tok nz])
  have c1: "core s1 = core s" "same_entries fp s s1"
    using s1(2) by (simp_all add: quiet_def)
  note ta = core_fields(2) [OF c1(1)]
  define s' where "s' = ((fst s1)\<lparr>entrycache := entrycache_clear p (entrycache (fst s1))\<rparr>, snd (frame_write fp (unat p mod 1024) e s1))"
  have w: "window_table fp s1 = table_addr (fst s1) ?t" "table_addr (fst s1) ?t \<noteq> 0"
    using s1(4) t unfolding ta by (simp_all add: table_addr_def)
  have "reserved s1"
    using reserved_core [OF c1(1)] ok by (simp add: space_ok_def)
  moreover have "coherent fp s"
    using ok by (simp add: space_ok_def)
  ultimately have r: "space_ok fp s'" "\<forall>i < 2 ^ 20. i \<noteq> fp \<longrightarrow> raw_entry s' i = (if i = unat p then e else raw_entry s i)" "core s' = core s1"
    using write_and_clear_ok [OF s1(3) _ w c1(2) s1(5) _ p s1(6) s'_def] by blast+
  have "set_table_entry fp p e s = Some (Inr s')"
    using nz' s1(1) by (simp add: set_table_entry_def Let_def split_beta s'_def)
  moreover have cs: "core s' = core s"
    using r(3) c1(1) by simp
  moreover have "entry_written fp (unat p) e s s'"
    unfolding entry_written_def nfree_def core_fields(2,3) [OF cs] core_side [OF cs] using r(1,2) by simp
  ultimately show ?thesis
    using that core_fields(3) [OF cs] by blast
qed

lemma set_table_entry_create:
  assumes "table_addr (fst s) (unat p div 1024) = 0"
  shows "set_table_entry fp p e s = bind_ro (create_table fp (unat p div 1024) s) (\<lambda>s2.
    let s3 = frame_clear fp (snd (map_table fp (directory (fst s2) (unat p div 1024)) s2))
    in ret_ro ((fst s3)\<lparr>entrycache := entrycache_clear p (entrycache (fst s3))\<rparr>, snd (frame_write fp (unat p mod 1024) e s3)))"
proof -
  have "map_table fp (directory (fst s) (unat p div 1024)) s = (False, s)"
    using assms by (simp add: map_table_def table_addr_def split_beta Let_def)
  then show ?thesis
    by (simp add: set_table_entry_def Let_def split_beta bind_ro_assoc)
qed

lemma set_table_entry_absent:
  assumes ok: "space_ok fp s" and p: "unat p < 2 ^ 20" "unat p \<noteq> fp" and t: "table_addr (fst s) (unat p div 1024) = 0"
    and r: "set_table_entry fp p e s = Some (Inr s')"
  shows "entry_written fp (unat p) e s s'"
proof -
  let ?t = "unat p div 1024"
  have oks: "tables_ok fp s" "coherent fp s" "reserved s"
    using ok by (simp_all add: space_ok_def)
  have t1: "?t < 1024"
    using p(1) by (rule table_no)
  from r [unfolded set_table_entry_create [OF t]] obtain s2 where s2: "create_table fp ?t s = Some (Inr s2)"
    and r': "s' = (let s3 = frame_clear fp (snd (map_table fp (directory (fst s2) ?t) s2))
      in ((fst s3)\<lparr>entrycache := entrycache_clear p (entrycache (fst s3))\<rparr>, snd (frame_write fp (unat p mod 1024) e s3)))"
    by (elim bind_roE) (auto simp: Let_def)
  have ta: "table_added fp ?t s s2"
    by (rule create_table_ok [OF oks(1,3) t1 t s2])
  then have nz: "table_addr (fst s2) ?t \<noteq> 0" and ok2: "tables_ok fp s2" "reserved s2"
    using oks(3) by (auto simp: table_added_def reserved_def)
  have tf: "?t \<noteq> fp div 1024"
    using oks(1) t unfolding tables_ok_def by auto
  obtain s3 where s3: "snd (map_table fp (directory (fst s2) ?t) s2) = s3" "core s3 = core s2" "tables_ok fp (frame_clear fp s3)"
    "window_table fp (frame_clear fp s3) = table_addr (fst s2) ?t" "entrycache (fst s3) = entrycache (fst s2)"
    "\<forall>i < 2 ^ 20. i \<noteq> fp \<longrightarrow> raw_entry (frame_clear fp s3) i = (if i div 1024 = ?t then 0 else raw_entry s2 i)"
    "win fp (frame_clear fp s3)"
    by (rule map_and_clear [OF ok2(1) t1 nz tf])
  define s4 where "s4 = frame_clear fp s3"
  have c4: "core s4 = core s2"
    using s3(2) by (simp add: s4_def)
  note f4 = core_fields [OF c4]
  have "raw_entry s i = 0" if "i div 1024 = ?t" for i
    using that t by (simp add: raw_entry_def)
  then have e4: "same_entries fp s s4"
    using s3(6,7) ta by (simp add: s4_def same_entries_def table_added_def)
  have "entrycache (fst s4) = entrycache (fst s)"
    using s3(5) ta by (simp add: s4_def table_added_def)
  moreover have "window_table fp s4 = table_addr (fst s4) ?t" "table_addr (fst s4) ?t \<noteq> 0"
    using s3(4) nz unfolding f4 by (simp_all add: s4_def)
  moreover have "s' = ((fst s4)\<lparr>entrycache := entrycache_clear p (entrycache (fst s4))\<rparr>, snd (frame_write fp (unat p mod 1024) e s4))"
    using r' s3(1) by (simp add: s4_def)
  ultimately have w: "space_ok fp s'" "\<forall>i < 2 ^ 20. i \<noteq> fp \<longrightarrow> raw_entry s' i = (if i = unat p then e else raw_entry s i)" "core s' = core s4"
    using write_and_clear_ok [OF s3(3) [folded s4_def] reserved_core [OF c4 ok2(2)] _ _ e4 _ oks(2) p s3(7) [folded s4_def]] by blast+
  have cs: "core s' = core s2"
    using w(3) c4 by simp
  have "\<forall>u < 1024. table_addr (fst s') u = table_addr (fst s) u \<or> table_addr (fst s') u \<in> set (free_addrs (pages_of (snd s)))"
    unfolding core_fields(2) [OF cs] using ta by (metis table_added_def table_addr_def)
  moreover have "nfree s \<le> Suc (nfree s')"
    unfolding nfree_def core_fields(3) [OF cs] using ta by (simp add: table_added_def card_Diff_singleton)
  ultimately show ?thesis
    unfolding entry_written_def using w core_side [OF cs] core_fields(3) [OF cs] ta by (auto simp: table_added_def)
qed

lemma set_table_entry_ok:
  assumes "space_ok fp s" "unat p < 2 ^ 20" "unat p \<noteq> fp" "set_table_entry fp p e s = Some (Inr s')"
  shows "entry_written fp (unat p) e s s'"
proof (cases "table_addr (fst s) (unat p div 1024) = 0")
  case True
  then show ?thesis
    using set_table_entry_absent [OF assms(1,2,3) _ assms(4)] by blast
next
  case False
  show ?thesis
    by (rule set_table_entry_present [OF assms(1,2,3) False, of e]) (use assms(4) in simp)
qed

section \<open>The tables as a store\<close>

text \<open>What a client of the page tables relies on: a state with a value for every index, an operation
  that reads it and one that may fail or replaces the value of one index. Reading may change the
  state, but no value.\<close>

locale entry_store =
  fixes inv :: "'s \<Rightarrow> bool" and valid :: "'i \<Rightarrow> bool" and get :: "'i \<Rightarrow> 's \<Rightarrow> 'e \<times> 's"
    and put :: "'i \<Rightarrow> 'e \<Rightarrow> 's \<Rightarrow> 's result option" and val :: "'s \<Rightarrow> 'i \<Rightarrow> 'e"
  assumes get_val: "inv s \<Longrightarrow> valid i \<Longrightarrow> fst (get i s) = val s i"
    and get_inv: "inv s \<Longrightarrow> valid i \<Longrightarrow> inv (snd (get i s))"
    and get_keeps: "inv s \<Longrightarrow> valid i \<Longrightarrow> valid j \<Longrightarrow> val (snd (get i s)) j = val s j"
    and put_inv: "inv s \<Longrightarrow> valid i \<Longrightarrow> put i e s = Some (Inr s') \<Longrightarrow> inv s'"
    and put_val: "inv s \<Longrightarrow> valid i \<Longrightarrow> valid j \<Longrightarrow> put i e s = Some (Inr s') \<Longrightarrow> val s' j = (if j = i then e else val s j)"
begin

lemma get_after_put:
  assumes "inv s" "valid i" "valid j" "put i e s = Some (Inr s')"
  shows "fst (get j s') = (if j = i then e else fst (get j s))"
  using assms get_val [OF put_inv [OF assms(1,2,4)] assms(3)] get_val [OF assms(1,3)] put_val [OF assms] by simp

lemma get_after_get:
  assumes "inv s" "valid i" "valid j"
  shows "fst (get j (snd (get i s))) = fst (get j s)"
  using assms by (simp add: get_val get_inv get_keeps)

text \<open>A series of writes leaves at every index the value written last, or the old one.\<close>

lemma get_after_puts:
  assumes "inv s" "\<forall>(i, e) \<in> set ws. valid i" "valid j" "fold_ro (\<lambda>(i, e). put i e) ws s = Some (Inr s')"
  shows "inv s' \<and> val s' j = (case map_of (rev ws) j of Some e \<Rightarrow> e | None \<Rightarrow> val s j)"
  using assms
proof (induction ws arbitrary: s)
  case (Cons w ws)
  obtain i e where w: "w = (i, e)" by (cases w)
  from Cons.prems w obtain s1 where s1: "put i e s = Some (Inr s1)" "fold_ro (\<lambda>(i, e). put i e) ws s1 = Some (Inr s')"
    by auto
  have "inv s1" "val s1 j = (if j = i then e else val s j)"
    using put_inv [OF Cons.prems(1) _ s1(1)] put_val [OF Cons.prems(1) _ Cons.prems(3) s1(1)] Cons.prems(2) w by auto
  with Cons.IH [OF _ _ Cons.prems(3) s1(2)] Cons.prems(2) w show ?case
    by (auto simp: map_add_def split: option.splits)
qed simp

end

definition page_index :: "nat \<Rightarrow> u32 \<Rightarrow> bool" where
  "page_index fp p \<longleftrightarrow> unat p < 2 ^ 20 \<and> unat p \<noteq> fp"

lemma get_entry_space:
  assumes "space_ok fp s" "unat p < 2 ^ 20"
  shows "quiet fp s (snd (get_table_entry fp p s))" "space_ok fp (snd (get_table_entry fp p s))"
    "reads fp s (unat p) (fst (get_table_entry fp p s))"
proof -
  have "tables_ok fp s" "coherent fp s" "win fp s"
    using assms(1) by (simp_all add: space_ok_def)
  then obtain r s' where g: "get_table_entry fp p s = (r, s')" "quiet fp s s'" "tables_ok fp s'" "coherent fp s'" "reads fp s (unat p) r"
    by (rule get_table_entry_ok [OF _ _ _ assms(2)])
  then show "quiet fp s (snd (get_table_entry fp p s))" "space_ok fp (snd (get_table_entry fp p s))"
    "reads fp s (unat p) (fst (get_table_entry fp p s))"
    using space_ok_quiet [OF assms(1)] by simp_all
qed

interpretation page_table: entry_store "space_ok fp" "page_index fp" "get_table_entry fp" "set_table_entry fp"
  "\<lambda>s p. raw_entry s (unat p)" for fp
proof
  fix s i j
  assume s: "space_ok fp s" and i: "page_index fp i"
  show "fst (get_table_entry fp i s) = raw_entry s (unat i)" "space_ok fp (snd (get_table_entry fp i s))"
    using get_entry_space [OF s, of i] i by (auto simp: page_index_def reads_def)
  show "raw_entry (snd (get_table_entry fp i s)) (unat j) = raw_entry s (unat j)" if "page_index fp j"
    using get_entry_space(1) [OF s, of i] i that by (auto simp: page_index_def quiet_def same_entries_def)
  fix e s'
  assume "set_table_entry fp i e s = Some (Inr s')"
  then have w: "entry_written fp (unat i) e s s'"
    using set_table_entry_ok [OF s] i by (simp add: page_index_def)
  then show "space_ok fp s'"
    by (simp add: entry_written_def)
  show "raw_entry s' (unat j) = (if j = i then e else raw_entry s (unat j))" if "page_index fp j"
    using w that by (auto simp: entry_written_def page_index_def word_unat_eq_iff)
qed

text \<open>C16. Reading and writing entries through cache and window is reading and writing a table of values:
  a write is read back at its page, and no other page is affected by writes or by reads.\<close>

theorem page_table_read_write:
  assumes "space_ok fp s" "page_index fp p" "page_index fp q" "set_table_entry fp p e s = Some (Inr s')"
  shows "space_ok fp s' \<and> fst (get_table_entry fp q s') = (if q = p then e else fst (get_table_entry fp q s)) \<and>
    fst (get_table_entry fp q (snd (get_table_entry fp p s'))) = fst (get_table_entry fp q s')"
  using page_table.put_inv [OF assms(1,2,4)] page_table.get_after_put [OF assms]
    page_table.get_after_get [OF page_table.put_inv [OF assms(1,2,4)] assms(2,3)]
  by simp

definition demo_space :: space where
  "demo_space =
     (\<lparr>directory_addr = 0x1F0000, directory = (\<lambda>t. if t = 0 then 0x200003 else 0), directory_physical = 0x1F0000,
       current_table = 0, klowfree = 0, ulowfree = 0x40000, upages = 0,
       entrycache = replicate 64 \<lparr>ce_index = 0, ce_entry = 0, ce_hits = 0\<rparr>, regions = Some []\<rparr>,
      \<lparr>pages_of = \<lparr>physical_pages = [0x200001, 0x300001, 0x301000, 0x302000, 0x303000, 0x304000, 0x305000], free_pages = 5, lastidx = 0,
                    io_pages = [], end_of_kernel = 0x300000\<rparr>,
       table_mem = (\<lambda>a n. if a \<noteq> 0x200000 then 0 else if n = 0 then 2560 else if n < 512 then of_nat n * 4096 + 3 else 0),
       kpages = 0\<rparr>)"

lemma demo_space_ok: "space_ok 384 demo_space"
proof -
  have "tables_ok 384 demo_space"
    by (simp add: tables_ok_def demo_space_def table_addr_def MM2_Address_Mask_def page_flag_defs)
  moreover have "coherent 384 demo_space"
    by (simp add: coherent_def demo_space_def)
  moreover have "win 384 demo_space"
    by (simp add: win_def raw_entry_def demo_space_def table_addr_def MM2_Address_Mask_def page_flag_defs)
  moreover have "reserved demo_space"
    by (simp add: reserved_def demo_space_def pmm_ok_def free_addrs_def page_status_of_def page_address_def table_addr_def MM2_Address_Mask_def)
  ultimately show ?thesis
    by (simp add: space_ok_def)
qed

theorem page_table_read_write_witness:
  "\<exists>s'. set_table_entry 384 600 0x301003 demo_space = Some (Inr s') \<and> fst (get_table_entry 384 600 s') = 0x301003"
proof -
  have i: "page_index 384 600"
    by (simp add: page_index_def)
  have p: "unat (600 :: u32) < 2 ^ 20" "unat (600 :: u32) \<noteq> 384" "table_addr (fst demo_space) (unat (600 :: u32) div 1024) \<noteq> 0"
    by (simp_all add: demo_space_def table_addr_def MM2_Address_Mask_def)
  obtain s' where "set_table_entry 384 600 0x301003 demo_space = Some (Inr s')"
    by (rule set_table_entry_present [OF demo_space_ok p])
  then show ?thesis
    using page_table_read_write [OF demo_space_ok i i] by auto
qed

section \<open>Mapping\<close>

lemma space_ok_cong:
  assumes "space_ok fp s" "directory (fst s') = directory (fst s)" "entrycache (fst s') = entrycache (fst s)"
    "table_mem (snd s') = table_mem (snd s)" "reserved s'"
  shows "space_ok fp s'" "raw_entry s' = raw_entry s"
proof -
  have ta: "table_addr (fst s') = table_addr (fst s)"
    unfolding table_addr_def assms(2) ..
  then show raw: "raw_entry s' = raw_entry s"
    unfolding raw_entry_def fun_eq_iff assms(4) by simp
  show "space_ok fp s'"
    using assms(1,5) unfolding space_ok_def tables_ok_def coherent_def reads_def win_def ta raw assms(2,3) by blast
qed

text \<open>The translation of an address by the entry of its page.\<close>

definition translate :: "u32 \<Rightarrow> u32 \<Rightarrow> u32" where
  "translate e addr = (let a = e AND MM2_Address_Mask in if a \<noteq> 0 then a + (addr AND NOT MM2_Address_Mask) else 0)"

lemma virt2phys_translate:
  assumes "space_ok fp s" "page_index fp (addr div 4096)"
  shows "fst (virt2phys fp addr s) = translate (raw_entry s (unat (addr div 4096))) addr"
  using page_table.get_val [OF assms] by (simp add: virt2phys_def translate_def Let_def split_beta)

definition page_mapped :: "nat \<Rightarrow> nat \<Rightarrow> nat \<Rightarrow> u32 \<Rightarrow> space \<Rightarrow> space \<Rightarrow> bool" where
  "page_mapped fp c p e s s' \<longleftrightarrow> space_ok fp s' \<and> klowfree (fst s') = klowfree (fst s) \<and> ulowfree (fst s') = ulowfree (fst s) \<and>
     nfree s \<le> nfree s' + c \<and>
     (\<forall>i < 2 ^ 20. i \<noteq> fp \<longrightarrow> raw_entry s' i = (if i = p then e else raw_entry s i)) \<and>
     set (free_addrs (pages_of (snd s'))) \<subseteq> set (free_addrs (pages_of (snd s))) \<and>
     (\<forall>t < 1024. table_addr (fst s') t = table_addr (fst s) t \<or> table_addr (fst s') t \<in> set (free_addrs (pages_of (snd s))))"

lemma map_given_page_at_ok:
  assumes "space_ok fp s" "page_index fp (addr div 4096)" "map_given_page_at fp addr page flags s = Some (Inr s')"
  shows "page_mapped fp 1 (unat (addr div 4096)) (page_address page OR flags) s s'"
proof -
  obtain s1 where s1: "set_table_entry fp (addr div 4096) (page_address page OR flags) s = Some (Inr s1)"
    and r: "(case s1 of (d, v) \<Rightarrow> ret_ro (if addr > MM2_Kernel_Boundary then (d\<lparr>upages := upages d + 1\<rparr>, v)
      else (d, v\<lparr>kpages := kpages v + 1\<rparr>))) = Some (Inr s')"
    using assms(3) unfolding map_given_page_at_def by (rule bind_roE)
  have s': "s' = (if addr > MM2_Kernel_Boundary then ((fst s1)\<lparr>upages := upages (fst s1) + 1\<rparr>, snd s1)
      else (fst s1, (snd s1)\<lparr>kpages := kpages (snd s1) + 1\<rparr>))"
    using r [symmetric] by (cases s1) simp
  have w: "entry_written fp (unat (addr div 4096)) (page_address page OR flags) s s1"
    using set_table_entry_ok [OF assms(1) _ _ s1] assms(2) by (simp add: page_index_def)
  have f: "directory (fst s') = directory (fst s1)" "entrycache (fst s') = entrycache (fst s1)" "table_mem (snd s') = table_mem (snd s1)"
    "pages_of (snd s') = pages_of (snd s1)" "klowfree (fst s') = klowfree (fst s1)" "ulowfree (fst s') = ulowfree (fst s1)"
    unfolding s' by (cases "addr > MM2_Kernel_Boundary"; simp)+
  have ta: "table_addr (fst s') = table_addr (fst s1)"
    unfolding table_addr_def f(1) ..
  have ok1: "space_ok fp s1"
    using w by (simp add: entry_written_def)
  have res: "reserved s'"
    by (rule reserved_side_change [OF _ f(4) ta]) (use ok1 in \<open>simp add: space_ok_def\<close>)
  note c = space_ok_cong [OF ok1 f(1,2,3) res]
  have "side s1 = side s"
    using w unfolding entry_written_def by blast
  then have "klowfree (fst s1) = klowfree (fst s)" "ulowfree (fst s1) = ulowfree (fst s)"
    by (simp_all add: side_def split_beta)
  with c(1) w show ?thesis
    unfolding page_mapped_def entry_written_def nfree_def f ta c(2) Suc_eq_plus1 by (elim conjE) (intro conjI, assumption+)
qed

lemma map_page_at_ok:
  assumes "space_ok fp s" "page_index fp ((addr AND MM2_Address_Mask) div 4096)" "map_page_at fp addr flags s = Some (Inr s')"
  obtains a where "a \<in> set (free_addrs (pages_of (snd s)))" "a \<notin> set (free_addrs (pages_of (snd s')))" "a AND MM2_Address_Mask = a"
    "page_mapped fp 2 (unat ((addr AND MM2_Address_Mask) div 4096)) (a OR flags) s s'"
    "\<forall>t < 1024. table_addr (fst s') t \<noteq> a"
proof -
  obtain a s1 where a: "alloc_page s = Some (Inr (a, s1))" "map_given_page_at fp (addr AND MM2_Address_Mask) a flags s1 = Some (Inr s')"
    using assms(3) by (auto simp: map_page_at_def)
  have res: "reserved s"
    using assms(1) by (simp add: space_ok_def)
  note al = alloc_page_ok [OF res a(1)]
  have c: "space_ok fp s1" "raw_entry s1 = raw_entry s"
    using space_ok_cong [OF assms(1), of s1] al by simp_all
  have "page_address a = a"
    using al(5) by (simp add: page_address_def)
  then have m: "page_mapped fp 1 (unat ((addr AND MM2_Address_Mask) div 4096)) (a OR flags) s1 s'"
    using map_given_page_at_ok [OF c(1) assms(2) a(2)] by simp
  have ta: "\<forall>t < 1024. table_addr (fst s) t \<noteq> a"
    using res al(4) unfolding reserved_def by metis
  have nf: "nfree s = Suc (nfree s1)"
    unfolding nfree_def al(7) using card.remove [OF _ al(4)] by simp
  show ?thesis
  proof (rule that [of a])
    show "page_mapped fp 2 (unat ((addr AND MM2_Address_Mask) div 4096)) (a OR flags) s s'"
      using m al nf unfolding page_mapped_def c(2) by auto
    show "a \<notin> set (free_addrs (pages_of (snd s')))"
      using m al(7) unfolding page_mapped_def by auto
    have "\<forall>t < 1024. table_addr (fst s') t = table_addr (fst s) t \<or> table_addr (fst s') t \<in> set (free_addrs (pages_of (snd s))) - {a}"
      using m al(1,7) unfolding page_mapped_def by simp
    then show "\<forall>t < 1024. table_addr (fst s') t \<noteq> a"
      using ta by (metis Diff_iff singletonI)
  qed (use al in simp_all)
qed

text \<open>Mapping a page makes every address of the page translate to the same offset in the physical
  page, and leaves the translation of all other addresses as it was.\<close>

theorem map_page_translates:
  assumes "space_ok fp s" "page_index fp (addr div 4096)" "page_index fp (x div 4096)"
    "page_address page \<noteq> 0" "flags AND MM2_Address_Mask = 0"
    "map_given_page_at fp addr page flags s = Some (Inr s')"
  shows "fst (virt2phys fp x s') =
    (if x div 4096 = addr div 4096 then page_address page + (x AND NOT MM2_Address_Mask) else fst (virt2phys fp x s))"
proof -
  have m: "page_mapped fp 1 (unat (addr div 4096)) (page_address page OR flags) s s'"
    by (rule map_given_page_at_ok [OF assms(1,2,6)])
  then have ok: "space_ok fp s'"
    by (simp add: page_mapped_def)
  have "raw_entry s' (unat (x div 4096)) =
      (if x div 4096 = addr div 4096 then page_address page OR flags else raw_entry s (unat (x div 4096)))"
    using m assms(3) by (auto simp: page_mapped_def page_index_def word_unat_eq_iff)
  moreover have "translate (page_address page OR flags) x = page_address page + (x AND NOT MM2_Address_Mask)"
    using assms(4,5) or_masked [of "page_address page" flags] by (simp add: translate_def page_address_def and.assoc)
  ultimately show ?thesis
    using virt2phys_translate [OF ok assms(3)] virt2phys_translate [OF assms(1,3)] by simp
qed

theorem map_page_translates_witness:
  "\<exists>s'. map_given_page_at 384 0x258000 0x301001 3 demo_space = Some (Inr s') \<and> fst (virt2phys 384 0x258010 s') = 0x301010"
proof -
  have i: "page_index 384 (0x258000 div 4096)" "page_index 384 (0x258010 div 4096)"
    by (simp_all add: page_index_def)
  have p: "unat (0x258000 div 4096 :: u32) < 2 ^ 20" "unat (0x258000 div 4096 :: u32) \<noteq> 384"
    "table_addr (fst demo_space) (unat (0x258000 div 4096 :: u32) div 1024) \<noteq> 0"
    by (simp_all add: demo_space_def table_addr_def MM2_Address_Mask_def)
  have a: "page_address 0x301001 \<noteq> 0" "3 AND MM2_Address_Mask = 0" "page_address 0x301001 = 0x301000"
    "0x258010 AND NOT MM2_Address_Mask = 0x10"
    by (simp_all add: page_address_def MM2_Address_Mask_def)
  obtain s1 where "set_table_entry 384 (0x258000 div 4096) (page_address 0x301001 OR 3) demo_space = Some (Inr s1)"
    by (rule set_table_entry_present [OF demo_space_ok p])
  then obtain s' where s': "map_given_page_at 384 0x258000 0x301001 3 demo_space = Some (Inr s')"
    by (cases s1) (simp add: map_given_page_at_def)
  from map_page_translates [OF demo_space_ok i a(1,2) s'] s' show ?thesis
    using a(3,4) by simp
qed

section \<open>Searching for free pages\<close>

text \<open>A page can be allocated when it is not the window and its entry is neither present nor marked.\<close>

definition avail :: "nat \<Rightarrow> space \<Rightarrow> nat \<Rightarrow> bool" where
  "avail fp s i \<longleftrightarrow> i \<noteq> fp \<and> entry_free (raw_entry s i)"

lemma is_available_ok:
  assumes "space_ok fp s" "unat p < 2 ^ 20"
  shows "fst (is_available fp p s) \<longleftrightarrow> avail fp s (unat p)" "quiet fp s (snd (is_available fp p s))" "space_ok fp (snd (is_available fp p s))"
  using get_entry_space [OF assms] by (auto simp: is_available_def split_beta avail_def reads_def entry_free_def split: if_splits)

text \<open>A step that may also move the hints.\<close>

definition hushed :: "nat \<Rightarrow> space \<Rightarrow> space \<Rightarrow> bool" where
  "hushed fp s s' \<longleftrightarrow> same_entries fp s s' \<and> directory (fst s') = directory (fst s) \<and> pages_of (snd s') = pages_of (snd s) \<and>
     kpages (snd s') = kpages (snd s) \<and> upages (fst s') = upages (fst s) \<and> regions (fst s') = regions (fst s)"

lemma hushed_refl [simp]: "hushed fp s s"
  by (simp add: hushed_def)

lemma hushed_trans [trans]: "hushed fp s s' \<Longrightarrow> hushed fp s' s'' \<Longrightarrow> hushed fp s s''"
  unfolding hushed_def by (metis same_entries_trans)

lemma quiet_hushed: "quiet fp s s' \<Longrightarrow> hushed fp s s'"
  using core_fields [of s' s] by (simp add: quiet_def hushed_def)

lemma hushed_avail: "hushed fp s s' \<Longrightarrow> i < 2 ^ 20 \<Longrightarrow> avail fp s' i = avail fp s i"
  by (auto simp: hushed_def avail_def same_entries_def)

lemma move_hints_fields [simp]:
  "directory (move_hints n mode p d) = directory d" "entrycache (move_hints n mode p d) = entrycache d"
  "upages (move_hints n mode p d) = upages d" "regions (move_hints n mode p d) = regions d"
  by (simp_all add: move_hints_def Let_def)

lemma move_hints_ok:
  assumes "space_ok fp s"
  shows "space_ok fp (move_hints n mode p (fst s), snd s)" "hushed fp s (move_hints n mode p (fst s), snd s)"
proof -
  let ?s = "(move_hints n mode p (fst s), snd s)"
  have ta: "table_addr (fst ?s) = table_addr (fst s)"
    by (simp add: table_addr_def fun_eq_iff)
  have "reserved ?s"
    by (rule reserved_side_change [OF _ _ ta]) (use assms in \<open>simp_all add: space_ok_def\<close>)
  note c = space_ok_cong [OF assms _ _ _ this]
  show "space_ok fp ?s"
    by (rule c(1)) simp_all
  have "raw_entry ?s = raw_entry s"
    by (rule c(2)) simp_all
  then show "hushed fp s ?s"
    by (simp add: hushed_def win_raw)
qed

definition run_at :: "(nat \<Rightarrow> bool) \<Rightarrow> nat \<Rightarrow> nat \<Rightarrow> bool" where
  "run_at P f k \<longleftrightarrow> (\<forall>i. f \<le> i \<longrightarrow> i < f + k \<longrightarrow> P i)"

text \<open>First fit: the first run of \<open>n\<close> pages that starts at or behind \<open>lo\<close> and ends below the top of
  the address space, as the address of its first page, zero if there is none.\<close>

definition first_fit :: "(nat \<Rightarrow> bool) \<Rightarrow> nat \<Rightarrow> nat \<Rightarrow> u32 \<Rightarrow> bool" where
  "first_fit P lo n va \<longleftrightarrow>
     (va = 0 \<and> (\<forall>f \<ge> lo. f + n \<le> 1048575 \<longrightarrow> \<not> run_at P f n)) \<or>
     (\<exists>f. va = of_nat f * 4096 \<and> 0 < f \<and> lo \<le> f \<and> f + n \<le> 1048575 \<and> run_at P f n \<and> (\<forall>g. lo \<le> g \<longrightarrow> g < f \<longrightarrow> \<not> run_at P g n))"

lemma first_fit_skip:
  assumes "first_fit P (Suc m) n va" "\<not> P m" "lo \<le> m" "m < lo + n"
  shows "first_fit P lo n va"
proof -
  have no: "\<not> run_at P g n" if "lo \<le> g" "g \<le> m" for g
    using that assms(2,4) unfolding run_at_def by (metis add_less_cancel_right leI less_le_trans order_less_le_trans nat_add_left_cancel_le add.commute add_le_mono1)
  from assms(1) show ?thesis
    unfolding first_fit_def
  proof (elim disjE exE conjE)
    assume "va = 0" "\<forall>f \<ge> Suc m. f + n \<le> 1048575 \<longrightarrow> \<not> run_at P f n"
    then have "va = 0 \<and> (\<forall>f \<ge> lo. f + n \<le> 1048575 \<longrightarrow> \<not> run_at P f n)"
      using no by (metis not_less_eq_eq)
    then show "va = 0 \<and> (\<forall>f \<ge> lo. f + n \<le> 1048575 \<longrightarrow> \<not> run_at P f n) \<or>
      (\<exists>f. va = of_nat f * 4096 \<and> 0 < f \<and> lo \<le> f \<and> f + n \<le> 1048575 \<and> run_at P f n \<and> (\<forall>g. lo \<le> g \<longrightarrow> g < f \<longrightarrow> \<not> run_at P g n))" ..
  next
    fix f assume f: "va = of_nat f * 4096" "0 < f" "Suc m \<le> f" "f + n \<le> 1048575" "run_at P f n" "\<forall>g. Suc m \<le> g \<longrightarrow> g < f \<longrightarrow> \<not> run_at P g n"
    then have "\<forall>g. lo \<le> g \<longrightarrow> g < f \<longrightarrow> \<not> run_at P g n"
      using no by (metis not_less_eq_eq)
    with f assms(3) show "va = 0 \<and> (\<forall>f \<ge> lo. f + n \<le> 1048575 \<longrightarrow> \<not> run_at P f n) \<or>
      (\<exists>f. va = of_nat f * 4096 \<and> 0 < f \<and> lo \<le> f \<and> f + n \<le> 1048575 \<and> run_at P f n \<and> (\<forall>g. lo \<le> g \<longrightarrow> g < f \<longrightarrow> \<not> run_at P g n))"
      by (intro disjI2 exI [of _ f]) simp
  qed
qed

lemma run_at_cong: "(\<And>i. f \<le> i \<Longrightarrow> i < f + k \<Longrightarrow> P i = Q i) \<Longrightarrow> run_at P f k = run_at Q f k"
  by (auto simp: run_at_def)

lemma first_fit_imp:
  assumes "\<And>i. i < 2 ^ 20 \<Longrightarrow> P i = Q i" "first_fit P lo n va"
  shows "first_fit Q lo n va"
proof -
  have eq: "run_at P f n = run_at Q f n" if "f + n \<le> 1048575" for f
    using that assms(1) by (intro run_at_cong) auto
  from assms(2) consider "va = 0" "\<forall>f \<ge> lo. f + n \<le> 1048575 \<longrightarrow> \<not> run_at P f n"
    | f where "va = of_nat f * 4096" "0 < f" "lo \<le> f" "f + n \<le> 1048575" "run_at P f n" "\<forall>g. lo \<le> g \<longrightarrow> g < f \<longrightarrow> \<not> run_at P g n"
    unfolding first_fit_def by blast
  then show ?thesis
  proof cases
    case 1
    then show ?thesis
      unfolding first_fit_def using eq by (intro disjI1) simp
  next
    case 2
    then show ?thesis
      unfolding first_fit_def using eq by (intro disjI2 exI [of _ f]) auto
  qed
qed

lemma first_fit_cong: "(\<And>i. i < 2 ^ 20 \<Longrightarrow> P i = Q i) \<Longrightarrow> first_fit P lo n va = first_fit Q lo n va"
  using first_fit_imp [of P Q] first_fit_imp [of Q P] by blast

definition search_state :: "nat \<Rightarrow> space \<Rightarrow> u32 \<Rightarrow> u32 \<Rightarrow> u32 \<Rightarrow> u32 \<Rightarrow> bool" where
  "search_state fp s pages pageno found firstpage \<longleftrightarrow>
     unat pageno \<le> 1048575 \<and> unat found < unat pages \<and> unat found \<le> unat pageno \<and>
     (if found = 0 then firstpage = 0 else firstpage = pageno - found \<and> firstpage \<noteq> 0) \<and>
     run_at (avail fp s) (unat pageno - unat found) (unat found) \<and> (pageno \<noteq> 0 \<or> \<not> avail fp s 0)"

lemma unat_Suc_word: "x < (MM2_Total_Pages :: u32) \<Longrightarrow> unat (x + 1) = Suc (unat x)"
  by (simp add: MM2_Total_Pages_def word_less_nat_alt unat_word_ariths)

lemma search_state_hit:
  assumes st: "search_state fp s pages pageno found firstpage" and p: "pageno < MM2_Total_Pages" and a: "avail fp s (unat pageno)"
    and h: "hushed fp s s'"
  defines "fst_page \<equiv> if firstpage = 0 then pageno else firstpage"
  shows "unat (found + 1) = Suc (unat found)" "fst_page = pageno - found" "fst_page \<noteq> 0"
    "found + 1 \<noteq> pages \<Longrightarrow> search_state fp s' pages (pageno + 1) (found + 1) fst_page"
    "run_at (avail fp s) (unat pageno - unat found) (Suc (unat found))"
proof -
  have u: "unat (pageno + 1) = Suc (unat pageno)"
    by (rule unat_Suc_word [OF p])
  have pm: "unat pageno < 1048575"
    using p by (simp add: MM2_Total_Pages_def word_less_nat_alt)
  have fu: "unat found \<le> unat pageno" "unat found < unat pages"
    using st by (simp_all add: search_state_def)
  show uf: "unat (found + 1) = Suc (unat found)"
    using fu pm by (simp add: unat_word_ariths)
  have "pageno \<noteq> 0"
    using st a by (auto simp: search_state_def)
  with st show ff: "fst_page = pageno - found" "fst_page \<noteq> 0"
    by (auto simp: search_state_def fst_page_def split: if_splits)
  show r: "run_at (avail fp s) (unat pageno - unat found) (Suc (unat found))"
    using st a fu(1) unfolding search_state_def run_at_def by (auto simp: less_Suc_eq)
  have r': "run_at (avail fp s') (unat pageno - unat found) (Suc (unat found))"
    using r hushed_avail [OF h] pm fu(1) unfolding run_at_def by auto
  assume "found + 1 \<noteq> pages"
  then have "unat (found + 1) \<noteq> unat pages"
    by (simp add: word_unat_eq_iff)
  moreover have "found + 1 \<noteq> 0" "pageno + 1 \<noteq> 0"
    using uf u by (auto simp: word_unat_eq_iff)
  ultimately show "search_state fp s' pages (pageno + 1) (found + 1) fst_page"
    using fu pm u uf ff r' by (simp add: search_state_def)
qed

lemma search_state_miss:
  assumes "search_state fp s pages pageno found firstpage" "pageno < MM2_Total_Pages" "hushed fp s s'"
  shows "search_state fp s' pages (pageno + 1) 0 0"
  using assms unat_Suc_word [OF assms(2)] by (auto simp: search_state_def run_at_def word_unat_eq_iff MM2_Total_Pages_def word_less_nat_alt)

lemma alloc_search_hit:
  assumes "pageno < MM2_Total_Pages" "is_available fp pageno s = (True, s1)"
  shows "alloc_search fp pages mode pageno found firstpage s =
    (if found + 1 = pages then ((if firstpage = 0 then pageno else firstpage) * 4096, s1)
     else alloc_search fp pages mode (pageno + 1) (found + 1) (if firstpage = 0 then pageno else firstpage) s1)"
  using assms by (subst alloc_search.simps) (cases s1; simp)

lemma alloc_search_miss:
  assumes "pageno < MM2_Total_Pages" "is_available fp pageno s = (False, s1)" "pages \<noteq> 0"
  shows "alloc_search fp pages mode pageno found firstpage s =
    alloc_search fp pages mode (pageno + 1) 0 0 (move_hints pages mode pageno (fst s1), snd s1)"
  using assms by (subst alloc_search.simps) (cases s1; simp)

lemma alloc_search_ok:
  assumes "space_ok fp s" "search_state fp s pages pageno found firstpage"
    "alloc_search fp pages mode pageno found firstpage s = (va, s')"
  shows "first_fit (avail fp s) (unat pageno - unat found) (unat pages) va \<and> hushed fp s s' \<and> space_ok fp s'"
  using assms
proof (induction "1048575 - unat pageno" arbitrary: pageno found firstpage s rule: less_induct)
  case less
  note st = less.prems(2)
  show ?case
  proof (cases "pageno < MM2_Total_Pages")
    case False
    then have "unat pageno = 1048575"
      using st by (simp add: search_state_def MM2_Total_Pages_def word_less_nat_alt)
    then have "first_fit (avail fp s) (unat pageno - unat found) (unat pages) 0"
      using st by (auto simp: first_fit_def search_state_def)
    moreover have "va = 0" "s' = s"
      using less.prems(3) False by (simp_all add: alloc_search.simps)
    ultimately show ?thesis
      using less.prems(1) by simp
  next
    case True
    have p: "unat pageno < 2 ^ 20" "unat pageno < 1048575"
      using True by (simp_all add: MM2_Total_Pages_def word_less_nat_alt)
    note u = unat_Suc_word [OF True]
    define s1 where "s1 = snd (is_available fp pageno s)"
    note av = is_available_ok [OF less.prems(1) p(1), folded s1_def]
    have ia: "is_available fp pageno s = (avail fp s (unat pageno), s1)"
      using av(1) by (simp add: s1_def prod_eq_iff)
    have h1: "hushed fp s s1"
      by (rule quiet_hushed [OF av(2)])
    show ?thesis
    proof (cases "avail fp s (unat pageno)")
      case hit: True
      note sh = search_state_hit [OF st True hit h1]
      define fst_page where "fst_page = (if firstpage = 0 then pageno else firstpage)"
      have eq: "(va, s') = (if found + 1 = pages then (fst_page * 4096, s1) else alloc_search fp pages mode (pageno + 1) (found + 1) fst_page s1)"
        unfolding fst_page_def less.prems(3) [symmetric] by (rule alloc_search_hit [OF True]) (simp add: ia hit)
      show ?thesis
      proof (cases "found + 1 = pages")
        case True
        have m: "fst_page * 4096 = of_nat (unat fst_page) * 4096"
          by simp
        have "unat fst_page = unat pageno - unat found"
          using sh(2) st unfolding fst_page_def search_state_def by (simp add: unat_sub word_le_nat_alt)
        moreover have "0 < unat fst_page"
          using sh(3) by (simp add: fst_page_def word_unat_eq_iff)
        moreover have "unat pages = Suc (unat found)"
          using True sh(1) by simp
        ultimately have "first_fit (avail fp s) (unat pageno - unat found) (unat pages) (fst_page * 4096)"
          using sh(5) p(2) st unfolding first_fit_def search_state_def
          by (intro disjI2 exI [of _ "unat fst_page"] conjI m) auto
        with eq True h1 av(3) show ?thesis by simp
      next
        case False
        then have st': "search_state fp s1 pages (pageno + 1) (found + 1) fst_page"
          using sh(4) by (simp add: fst_page_def)
        have "first_fit (avail fp s1) (unat (pageno + 1) - unat (found + 1)) (unat pages) va \<and> hushed fp s1 s' \<and> space_ok fp s'"
          using less.hyps [OF _ av(3) st'] eq False u p(2) by simp
        moreover have "first_fit (avail fp s1) lo n va = first_fit (avail fp s) lo n va" for lo n
          by (intro first_fit_cong hushed_avail [OF h1])
        ultimately show ?thesis
          using u sh(1) hushed_trans [OF h1] by simp
      qed
    next
      case miss: False
      define s2 where "s2 = (move_hints pages mode pageno (fst s1), snd s1)"
      have s2: "space_ok fp s2" "hushed fp s s2"
        using move_hints_ok [OF av(3)] hushed_trans [OF h1] unfolding s2_def by blast+
      have nz: "pages \<noteq> 0"
        using st by (auto simp: search_state_def)
      have eq: "alloc_search fp pages mode (pageno + 1) 0 0 s2 = (va, s')"
        unfolding s2_def less.prems(3) [symmetric] by (rule alloc_search_miss [OF True _ nz, symmetric]) (simp add: ia miss)
      have "first_fit (avail fp s2) (unat (pageno + 1) - unat (0 :: u32)) (unat pages) va \<and> hushed fp s2 s' \<and> space_ok fp s'"
        using less.hyps [OF _ s2(1) search_state_miss [OF st True s2(2)] eq] u p(2) by simp
      moreover have "first_fit (avail fp s2) lo n va = first_fit (avail fp s) lo n va" for lo n
        by (intro first_fit_cong hushed_avail [OF s2(2)])
      ultimately have "first_fit (avail fp s) (Suc (unat pageno)) (unat pages) va" "hushed fp s s'" "space_ok fp s'"
        using u hushed_trans [OF s2(2)] by simp_all
      moreover have "unat pageno < unat pageno - unat found + unat pages"
        using st unfolding search_state_def by (elim conjE) linarith
      ultimately show ?thesis
        using first_fit_skip [of _ "unat pageno" _ va "unat pageno - unat found"] miss by simp
    qed
  qed
qed

section \<open>Physical pages behind mapped pages\<close>

abbreviation frame_of :: "space \<Rightarrow> nat \<Rightarrow> u32" where
  "frame_of s i \<equiv> raw_entry s i AND MM2_Address_Mask"

abbreviation present :: "space \<Rightarrow> nat \<Rightarrow> bool" where
  "present s i \<equiv> raw_entry s i AND Present \<noteq> 0"

text \<open>No mapped page lies in a free physical page. Pages outside \<open>K\<close>, the pages of the kernel image
  that were mapped at boot and are never freed, lie in no table, and share their physical page with no
  other page.\<close>

definition frames_ok :: "nat \<Rightarrow> nat set \<Rightarrow> space \<Rightarrow> bool" where
  "frames_ok fp K s \<longleftrightarrow> (\<forall>i < 2 ^ 20. i \<noteq> fp \<longrightarrow> present s i \<longrightarrow>
     frame_of s i \<notin> set (free_addrs (pages_of (snd s))) \<and>
     (i \<notin> K \<longrightarrow> frame_of s i \<noteq> 0 \<and> (\<forall>t < 1024. table_addr (fst s) t \<noteq> frame_of s i) \<and>
        (\<forall>j < 2 ^ 20. j \<noteq> fp \<longrightarrow> j \<noteq> i \<longrightarrow> present s j \<longrightarrow> frame_of s j \<noteq> frame_of s i)))"

lemma frames_ok_hushed:
  assumes "frames_ok fp K s" "hushed fp s s'"
  shows "frames_ok fp K s'"
proof -
  have ta: "table_addr (fst s') = table_addr (fst s)"
    using assms(2) unfolding hushed_def table_addr_def by simp
  have pg: "pages_of (snd s') = pages_of (snd s)" and raw: "\<And>i. i < 2 ^ 20 \<Longrightarrow> i \<noteq> fp \<Longrightarrow> raw_entry s' i = raw_entry s i"
    using assms(2) by (simp_all add: hushed_def same_entries_def)
  from assms(1) show ?thesis
    unfolding frames_ok_def ta pg using raw by simp
qed

text \<open>Mapping a new page, free before, keeps the physical pages apart.\<close>

lemma frames_ok_mapped:
  assumes fr: "frames_ok fp K s" and res: "reserved s" and m: "page_mapped fp c p (a OR flags) s s'"
    and a: "a \<in> set (free_addrs (pages_of (snd s)))" "a \<notin> set (free_addrs (pages_of (snd s')))" "a AND MM2_Address_Mask = a"
      "\<forall>t < 1024. table_addr (fst s') t \<noteq> a" and fl: "flags AND MM2_Address_Mask = 0"
  shows "frames_ok fp K s'"
  unfolding frames_ok_def
proof (intro allI impI)
  have raw: "raw_entry s' i = (if i = p then a OR flags else raw_entry s i)" if "i < 2 ^ 20" "i \<noteq> fp" for i
    using m that by (simp add: page_mapped_def)
  have fp: "frame_of s' i = (if i = p then a else frame_of s i)" if "i < 2 ^ 20" "i \<noteq> fp" for i
    using raw [OF that] or_masked [OF a(3) fl] by simp
  have sub: "set (free_addrs (pages_of (snd s'))) \<subseteq> set (free_addrs (pages_of (snd s)))"
    and tab: "\<forall>t < 1024. table_addr (fst s') t = table_addr (fst s) t \<or> table_addr (fst s') t \<in> set (free_addrs (pages_of (snd s)))"
    using m by (simp_all add: page_mapped_def)
  have old: "frame_of s i \<notin> set (free_addrs (pages_of (snd s)))" if "i < 2 ^ 20" "i \<noteq> fp" "present s i" for i
    using fr that by (simp add: frames_ok_def)
  have a0: "a \<noteq> 0"
    using res a(1) by (auto simp: reserved_def)
  fix i assume i: "i < 2 ^ 20" "i \<noteq> fp" "present s' i"
  show "frame_of s' i \<notin> set (free_addrs (pages_of (snd s'))) \<and>
     (i \<notin> K \<longrightarrow> frame_of s' i \<noteq> 0 \<and> (\<forall>t < 1024. table_addr (fst s') t \<noteq> frame_of s' i) \<and>
        (\<forall>j < 2 ^ 20. j \<noteq> fp \<longrightarrow> j \<noteq> i \<longrightarrow> present s' j \<longrightarrow> frame_of s' j \<noteq> frame_of s' i))"
  proof (cases "i = p")
    case True
    have "frame_of s' j \<noteq> a" if "j < 2 ^ 20" "j \<noteq> fp" "j \<noteq> i" "present s' j" for j
      using that fp [of j] raw [of j] old [of j] a(1) True by auto
    with True show ?thesis
      using fp [OF i(1,2)] a a0 by simp
  next
    case False
    then have pr: "present s i" and e: "frame_of s' i = frame_of s i"
      using i raw [OF i(1,2)] fp [OF i(1,2)] by simp_all
    have "frame_of s j \<noteq> frame_of s i" if "j < 2 ^ 20" "j \<noteq> fp" "j \<noteq> i" "present s j" "i \<notin> K" for j
      using fr that i pr unfolding frames_ok_def by metis
    then have "frame_of s' j \<noteq> frame_of s i" if "j < 2 ^ 20" "j \<noteq> fp" "j \<noteq> i" "present s' j" "i \<notin> K" for j
      using that fp [of j] raw [of j] old [OF i(1,2) pr] a(1) by (auto split: if_splits)
    moreover have "\<forall>t < 1024. table_addr (fst s') t \<noteq> frame_of s i" if "i \<notin> K"
      using fr that i pr tab old [OF i(1,2) pr] unfolding frames_ok_def by metis
    moreover have "frame_of s i \<noteq> 0" if "i \<notin> K"
      using fr that i pr unfolding frames_ok_def by metis
    ultimately show ?thesis
      using old [OF i(1,2) pr] sub unfolding e by blast
  qed
qed

lemma page_of_address:
  assumes "n < 2 ^ 20"
  shows "unat (((of_nat n * 4096 :: u32) AND MM2_Address_Mask) div 4096) = n"
proof -
  have "(of_nat n * 4096 :: u32) AND MM2_Address_Mask = of_nat n * 4096"
    using page_address_aligned [of "of_nat n"] by (simp add: page_address_def mult.commute)
  moreover have "unat (of_nat n * 4096 :: u32) = n * 4096"
    using assms by (simp add: unat_word_ariths)
  ultimately show ?thesis
    by (simp add: unat_div)
qed

lemma fold_ro_upt:
  assumes "fold_ro f [k..<n] s = Some (Inr s')" "k \<le> n" "I k s"
    "\<And>j s s'. k \<le> j \<Longrightarrow> j < n \<Longrightarrow> I j s \<Longrightarrow> f j s = Some (Inr s') \<Longrightarrow> I (Suc j) s'"
  shows "I n s'"
  using assms
proof (induction "n - k" arbitrary: k s)
  case (Suc m)
  then have "[k..<n] = k # [Suc k..<n]"
    by (simp add: upt_conv_Cons)
  with Suc.prems(1) obtain s1 where s1: "f k s = Some (Inr s1)" "fold_ro f [Suc k..<n] s1 = Some (Inr s')"
    by auto
  show ?case
  proof (rule Suc.hyps(1) [OF _ s1(2)])
    show "I (Suc k) s1"
      using Suc.prems(3,4) s1(1) Suc.hyps(2) by simp
  qed (use Suc in simp_all)
qed simp

text \<open>After mapping a run of pages, each of them lies in a page that was free, and no other page has
  changed.\<close>

definition run_mapped :: "nat \<Rightarrow> nat set \<Rightarrow> nat \<Rightarrow> nat \<Rightarrow> u32 \<Rightarrow> space \<Rightarrow> space \<Rightarrow> bool" where
  "run_mapped fp K f n flags s s' \<longleftrightarrow> space_ok fp s' \<and> frames_ok fp K s' \<and>
     klowfree (fst s') = klowfree (fst s) \<and> ulowfree (fst s') = ulowfree (fst s) \<and>
     set (free_addrs (pages_of (snd s'))) \<subseteq> set (free_addrs (pages_of (snd s))) \<and>
     (\<forall>i < 2 ^ 20. i \<noteq> fp \<longrightarrow>
        (if f \<le> i \<and> i < f + n then \<exists>a \<in> set (free_addrs (pages_of (snd s))). raw_entry s' i = a OR flags
         else raw_entry s' i = raw_entry s i))"

lemma map_run_step:
  assumes fl: "flags AND MM2_Address_Mask = 0" and f: "f + n \<le> 1048575" "\<forall>i. f \<le> i \<longrightarrow> i < f + n \<longrightarrow> i \<noteq> fp"
    and k: "k < n" and I: "run_mapped fp K f k flags s s1" and m: "map_page_at fp (of_nat f * 4096 + of_nat k * 4096) flags s1 = Some (Inr s2)"
  shows "run_mapped fp K f (Suc k) flags s s2" "nfree s1 \<le> nfree s2 + 2"
proof -
  let ?ad = "of_nat f * 4096 + of_nat k * 4096 :: u32"
  have p: "unat ((?ad AND MM2_Address_Mask) div 4096) = f + k"
    using page_of_address [of "f + k"] k f(1) by (simp add: distrib_right)
  have pi: "page_index fp ((?ad AND MM2_Address_Mask) div 4096)"
    unfolding page_index_def p using k f by auto
  have ok1: "space_ok fp s1" and fr1: "frames_ok fp K s1"
    using I by (simp_all add: run_mapped_def)
  obtain a where a: "a \<in> set (free_addrs (pages_of (snd s1)))" "a \<notin> set (free_addrs (pages_of (snd s2)))" "a AND MM2_Address_Mask = a"
    "page_mapped fp 2 (f + k) (a OR flags) s1 s2" "\<forall>t < 1024. table_addr (fst s2) t \<noteq> a"
    by (rule map_page_at_ok [OF ok1 pi m, unfolded p])
  have fr2: "frames_ok fp K s2"
    using frames_ok_mapped [OF fr1 _ a(4,1,2,3,5) fl] ok1 by (simp add: space_ok_def)
  have m2: "space_ok fp s2" "klowfree (fst s2) = klowfree (fst s1)" "ulowfree (fst s2) = ulowfree (fst s1)"
    "set (free_addrs (pages_of (snd s2))) \<subseteq> set (free_addrs (pages_of (snd s1)))"
    and raw2: "\<And>i. i < 2 ^ 20 \<Longrightarrow> i \<noteq> fp \<Longrightarrow> raw_entry s2 i = (if i = f + k then a OR flags else raw_entry s1 i)"
    using a(4) by (simp_all add: page_mapped_def)
  have I1: "klowfree (fst s1) = klowfree (fst s)" "ulowfree (fst s1) = ulowfree (fst s)"
    "set (free_addrs (pages_of (snd s1))) \<subseteq> set (free_addrs (pages_of (snd s)))"
    and raw1: "\<And>i. i < 2 ^ 20 \<Longrightarrow> i \<noteq> fp \<Longrightarrow>
      if f \<le> i \<and> i < f + k then \<exists>a \<in> set (free_addrs (pages_of (snd s))). raw_entry s1 i = a OR flags else raw_entry s1 i = raw_entry s i"
    using I by (simp_all add: run_mapped_def)
  have "if f \<le> i \<and> i < f + Suc k then \<exists>a \<in> set (free_addrs (pages_of (snd s))). raw_entry s2 i = a OR flags else raw_entry s2 i = raw_entry s i"
    if "i < 2 ^ 20" "i \<noteq> fp" for i
    using raw1 [OF that] raw2 [OF that] a(1) I1(3) by (cases "i = f + k") auto
  then show "run_mapped fp K f (Suc k) flags s s2"
    unfolding run_mapped_def using m2 I1 fr2 by auto
  show "nfree s1 \<le> nfree s2 + 2"
    using a(4) by (simp add: page_mapped_def)
qed

lemma map_run_ok:
  assumes "space_ok fp s" "frames_ok fp K s" "flags AND MM2_Address_Mask = 0" "f + n \<le> 1048575" "\<forall>i. f \<le> i \<longrightarrow> i < f + n \<longrightarrow> i \<noteq> fp"
    and r: "fold_ro (\<lambda>page. map_page_at fp (of_nat f * 4096 + of_nat page * 4096) flags) [0..<n] s = Some (Inr s')"
  shows "run_mapped fp K f n flags s s'"
proof (rule fold_ro_upt [OF r, where I = "\<lambda>k. run_mapped fp K f k flags s"])
  show "run_mapped fp K f 0 flags s s"
    using assms(1,2) by (simp add: run_mapped_def)
qed (use map_run_step [OF assms(3-5)] in simp_all)

section \<open>Enough memory\<close>

lemma two_free_pages:
  assumes "2 \<le> card (set (free_addrs m))"
  shows "\<exists>i < length (physical_pages m). i \<noteq> l \<and> page_status_of (physical_pages m ! i) = Some Free"
proof (rule ccontr)
  assume none: "\<not> ?thesis"
  have "set (free_addrs m) \<subseteq> {page_address (physical_pages m ! l)}"
  proof
    fix a assume "a \<in> set (free_addrs m)"
    then obtain v where "v \<in> set (physical_pages m)" "page_status_of v = Some Free" "a = page_address v"
      by (auto simp: free_addrs_def)
    with none show "a \<in> {page_address (physical_pages m ! l)}"
      by (metis in_set_conv_nth singletonI)
  qed
  then have "card (set (free_addrs m)) \<le> card {page_address (physical_pages m ! l)}"
    by (intro card_mono) simp_all
  with assms show False by simp
qed

lemma page_address_below: "page_address v < 0xFFFFFFFF"
proof -
  have "page_address v \<le> MM2_Address_Mask"
    unfolding page_address_def by (rule word_and_le1)
  also have "MM2_Address_Mask < 0xFFFFFFFF"
    by (simp add: MM2_Address_Mask_def)
  finally show ?thesis .
qed

lemma alloc_page_returns:
  assumes "reserved s" "2 \<le> nfree s"
  obtains a s' where "alloc_page s = Some (Inr (a, s'))" "nfree s = Suc (nfree s')" "reserved s'"
proof -
  obtain d v where s: "s = (d, v)" by (cases s)
  let ?m = "pages_of v"
  have ok: "pmm_ok ?m"
    using assms(1) by (simp add: reserved_def s)
  obtain i where i: "i < length (physical_pages ?m)" "i \<noteq> unat (lastidx ?m)" "page_status_of (physical_pages ?m ! i) = Some Free"
    using two_free_pages [of ?m] assms(2) by (auto simp: nfree_def s)
  then have "takeable 0xFFFFFFFF (physical_pages ?m) i"
    using page_address_below by (simp add: takeable_def)
  moreover have "i \<in> set (search_order (unat (lastidx ?m)) (length (physical_pages ?m)))"
    using i ok search_order_mem by (simp add: pmm_ok_def)
  ultimately obtain j where "List.find (takeable 0xFFFFFFFF (physical_pages ?m)) (search_order (unat (lastidx ?m)) (length (physical_pages ?m))) = Some j"
    by (metis find_None_iff option.exhaust)
  then have a: "alloc_page s = Some (Inr (page_address (physical_pages (take_page j ?m) ! unat (of_nat j :: u32)), (d, v\<lparr>pages_of := take_page j ?m\<rparr>)))"
    by (simp add: alloc_page_def s physical_alloc_exact [OF ok])
  note al = alloc_page_ok [OF assms(1) a]
  show ?thesis
  proof (rule that [OF a _ al(6)])
    show "nfree s = Suc (nfree (d, v\<lparr>pages_of := take_page j ?m\<rparr>))"
      unfolding nfree_def al(7) using card.remove [OF _ al(4)] by simp
  qed
qed

lemma create_table_returns:
  assumes "reserved s" "2 \<le> nfree s"
  shows "\<exists>s'. create_table fp t s = Some (Inr s')"
proof -
  obtain a s1 where "alloc_page s = Some (Inr (a, s1))"
    using alloc_page_returns [OF assms] by metis
  then show ?thesis
    by (simp add: create_table_def split_beta Let_def)
qed

lemma set_table_entry_returns:
  assumes "space_ok fp s" "unat p < 2 ^ 20" "unat p \<noteq> fp" "2 \<le> nfree s"
  shows "\<exists>s'. set_table_entry fp p e s = Some (Inr s')"
proof (cases "table_addr (fst s) (unat p div 1024) = 0")
  case True
  obtain s2 where "create_table fp (unat p div 1024) s = Some (Inr s2)"
    using create_table_returns [of s fp "unat p div 1024"] assms(1,4) unfolding space_ok_def by blast
  then show ?thesis
    by (simp add: set_table_entry_create [OF True] Let_def)
next
  case False
  then show ?thesis
    using set_table_entry_present [OF assms(1-3)] by metis
qed

lemma map_page_at_returns:
  assumes "space_ok fp s" "page_index fp ((addr AND MM2_Address_Mask) div 4096)" "3 \<le> nfree s"
  shows "\<exists>s'. map_page_at fp addr flags s = Some (Inr s')"
proof -
  have res: "reserved s"
    using assms(1) by (simp add: space_ok_def)
  obtain a s1 where a: "alloc_page s = Some (Inr (a, s1))" "nfree s = Suc (nfree s1)" "reserved s1"
    by (rule alloc_page_returns [OF res]) (use assms(3) in simp_all)
  note al = alloc_page_ok [OF res a(1)]
  have "space_ok fp s1"
    using space_ok_cong [OF assms(1), of s1] al by simp
  then obtain s2 where "set_table_entry fp ((addr AND MM2_Address_Mask) div 4096) (page_address a OR flags) s1 = Some (Inr s2)"
    using set_table_entry_returns assms(2,3) a(2) unfolding page_index_def by fastforce
  then show ?thesis
    by (simp add: map_page_at_def a(1) map_given_page_at_def split_beta)
qed

lemma fold_ro_returns:
  assumes "\<And>j s. k \<le> j \<Longrightarrow> j < n \<Longrightarrow> I j s \<Longrightarrow> \<exists>s'. f j s = Some (Inr s') \<and> I (Suc j) s'" "I k s" "k \<le> n"
  shows "\<exists>s'. fold_ro f [k..<n] s = Some (Inr s')"
  using assms
proof (induction "n - k" arbitrary: k s)
  case (Suc m)
  then have u: "[k..<n] = k # [Suc k..<n]"
    by (simp add: upt_conv_Cons)
  from Suc.prems Suc.hyps(2) obtain s1 where "f k s = Some (Inr s1)" "I (Suc k) s1"
    by (metis le_refl zero_less_Suc zero_less_diff)
  with Suc show ?case
    unfolding u by simp
qed simp

lemma map_run_returns:
  assumes "space_ok fp s" "frames_ok fp K s" "flags AND MM2_Address_Mask = 0" "f + n \<le> 1048575" "\<forall>i. f \<le> i \<longrightarrow> i < f + n \<longrightarrow> i \<noteq> fp"
    and enough: "2 * n < nfree s"
  shows "\<exists>s'. fold_ro (\<lambda>page. map_page_at fp (of_nat f * 4096 + of_nat page * 4096) flags) [0..<n] s = Some (Inr s')"
proof (rule fold_ro_returns [where I = "\<lambda>k s1. run_mapped fp K f k flags s s1 \<and> nfree s \<le> nfree s1 + 2 * k"])
  fix k s1
  assume k: "k < n" and I: "run_mapped fp K f k flags s s1 \<and> nfree s \<le> nfree s1 + 2 * k"
  let ?ad = "of_nat f * 4096 + of_nat k * 4096 :: u32"
  have p: "unat ((?ad AND MM2_Address_Mask) div 4096) = f + k"
    using page_of_address [of "f + k"] k assms(4) by (simp add: distrib_right)
  have "page_index fp ((?ad AND MM2_Address_Mask) div 4096)"
    unfolding page_index_def p using k assms(4,5) by auto
  then obtain s2 where s2: "map_page_at fp ?ad flags s1 = Some (Inr s2)"
    using map_page_at_returns [of fp s1 ?ad flags] I k enough unfolding run_mapped_def by fastforce
  then show "\<exists>s'. map_page_at fp ?ad flags s1 = Some (Inr s') \<and> run_mapped fp K f (Suc k) flags s s' \<and> nfree s \<le> nfree s' + 2 * Suc k"
    using map_run_step [OF assms(3-5) k _ s2] I by fastforce
qed (use assms in \<open>auto simp: run_mapped_def\<close>)

section \<open>Allocation\<close>

definition start_page :: "u32 \<Rightarrow> space \<Rightarrow> u32" where
  "start_page mode s = (if has_mode mode Mode_Userlow then ulowfree (fst s) else klowfree (fst s))"

text \<open>What the caller of \<open>alloc\<close> may rely on. The pages returned are the first run of pages that were
  all free, at or behind the hint; each is now present, writable and for user mode, in a physical
  page that was free; no other page has changed, and the physical pages of all pages stay apart. The
  result is zero only when there is no such run. With two free physical pages for every page asked
  for, and one more, the call returns.\<close>

lemma alloc_flags: "((Present OR Writable) OR Usermode) AND MM2_Address_Mask = 0"
  by (simp add: page_flag_defs MM2_Address_Mask_def)

lemma hushed_nfree: "hushed fp s s' \<Longrightarrow> nfree s' = nfree s"
  by (simp add: hushed_def nfree_def)

lemma first_fitE:
  assumes "first_fit (avail fp s) lo n va" "va \<noteq> 0"
  obtains f where "va = of_nat f * 4096" "unat va div 4096 = f" "lo \<le> f" "f + n \<le> 1048575" "\<forall>i. f \<le> i \<longrightarrow> i < f + n \<longrightarrow> i \<noteq> fp"
proof -
  obtain f where f: "va = of_nat f * 4096" "lo \<le> f" "f + n \<le> 1048575" "run_at (avail fp s) f n"
    using assms by (auto simp: first_fit_def)
  moreover have "unat va div 4096 = f"
    using f(1,3) by (simp add: unat_word_ariths)
  moreover have "\<forall>i. f \<le> i \<longrightarrow> i < f + n \<longrightarrow> i \<noteq> fp"
    using f(4) by (simp add: run_at_def avail_def)
  ultimately show ?thesis
    using that by blast
qed

lemma pagedir_alloc_eq:
  assumes "has_mode mode Mode_Kernel \<or> has_mode mode Mode_Userlow" "alloc_search fp pages mode (start_page mode s) 0 0 s = (va, s1)"
  shows "pagedir_alloc fp pages mode s = (if va \<noteq> 0
       then bind_ro (fold_ro (\<lambda>page. map_page_at fp (va + of_nat page * 4096) ((Present OR Writable) OR Usermode)) [0..<unat pages] s1)
              (\<lambda>s2. ret_ro (va, s2))
       else ret_ro (0, s1))"
  using assms by (simp add: pagedir_alloc_def start_page_def Let_def split_beta)

lemma pagedir_alloc_search:
  assumes ok: "space_ok fp s" "frames_ok fp K s" and mode: "has_mode mode Mode_Kernel \<or> has_mode mode Mode_Userlow"
    and n: "0 < unat pages" and st: "unat (start_page mode s) \<le> 1048575" "start_page mode s \<noteq> 0 \<or> \<not> avail fp s 0"
  obtains va s1 where "first_fit (avail fp s) (unat (start_page mode s)) (unat pages) va" "hushed fp s s1" "space_ok fp s1" "frames_ok fp K s1"
    "pagedir_alloc fp pages mode s = (if va \<noteq> 0
       then bind_ro (fold_ro (\<lambda>page. map_page_at fp (va + of_nat page * 4096) ((Present OR Writable) OR Usermode)) [0..<unat pages] s1)
              (\<lambda>s2. ret_ro (va, s2))
       else ret_ro (0, s1))"
proof -
  obtain va s1 where a: "alloc_search fp pages mode (start_page mode s) 0 0 s = (va, s1)"
    by (metis surj_pair)
  have "search_state fp s pages (start_page mode s) 0 0"
    using n st by (simp add: search_state_def run_at_def)
  from alloc_search_ok [OF ok(1) this a] have
    "first_fit (avail fp s) (unat (start_page mode s)) (unat pages) va" "hushed fp s s1" "space_ok fp s1"
    by simp_all
  then show ?thesis
    using that [OF _ _ _ _ pagedir_alloc_eq [OF mode a]] frames_ok_hushed [OF ok(2)] by blast
qed

text \<open>C18. With enough physical pages free, an allocation always returns. It returns the first run of available
  pages at or after the start of the requested area, or 0 if there is none; each page of the run is mapped
  writable to a physical page that was free, and no other page changes.\<close>

theorem alloc_first_fit:
  assumes "space_ok fp s" "frames_ok fp K s" "has_mode mode Mode_Kernel \<or> has_mode mode Mode_Userlow"
    "0 < unat pages" "unat (start_page mode s) \<le> 1048575" "start_page mode s \<noteq> 0 \<or> \<not> avail fp s 0" "2 * unat pages < nfree s"
  shows "\<exists>va s'. pagedir_alloc fp pages mode s = Some (Inr (va, s')) \<and>
    first_fit (avail fp s) (unat (start_page mode s)) (unat pages) va \<and> space_ok fp s' \<and> frames_ok fp K s' \<and>
    (\<forall>i < 2 ^ 20. i \<noteq> fp \<longrightarrow>
       (if va \<noteq> 0 \<and> unat va div 4096 \<le> i \<and> i < unat va div 4096 + unat pages
        then \<exists>a \<in> set (free_addrs (pages_of (snd s))). raw_entry s' i = a OR ((Present OR Writable) OR Usermode)
        else raw_entry s' i = raw_entry s i))"
proof -
  obtain va s1 where a: "first_fit (avail fp s) (unat (start_page mode s)) (unat pages) va" "hushed fp s s1" "space_ok fp s1" "frames_ok fp K s1"
    "pagedir_alloc fp pages mode s = (if va \<noteq> 0
       then bind_ro (fold_ro (\<lambda>page. map_page_at fp (va + of_nat page * 4096) ((Present OR Writable) OR Usermode)) [0..<unat pages] s1)
              (\<lambda>s2. ret_ro (va, s2))
       else ret_ro (0, s1))"
    by (rule pagedir_alloc_search [OF assms(1-6)])
  have raw: "raw_entry s1 i = raw_entry s i" if "i < 2 ^ 20" "i \<noteq> fp" for i
    using a(2) that by (simp add: hushed_def same_entries_def)
  show ?thesis
  proof (cases "va = 0")
    case True
    then show ?thesis
      using a raw by (intro exI [of _ 0] exI [of _ s1]) simp
  next
    case False
    obtain f where f: "va = of_nat f * 4096" "unat va div 4096 = f" "unat (start_page mode s) \<le> f" "f + unat pages \<le> 1048575"
      "\<forall>i. f \<le> i \<longrightarrow> i < f + unat pages \<longrightarrow> i \<noteq> fp"
      by (rule first_fitE [OF a(1) False])
    obtain s2 where s2: "fold_ro (\<lambda>page. map_page_at fp (va + of_nat page * 4096) ((Present OR Writable) OR Usermode)) [0..<unat pages] s1 = Some (Inr s2)"
      using map_run_returns [OF a(3,4) alloc_flags f(4,5)] assms(7) hushed_nfree [OF a(2)] f(1) by auto
    then have r: "run_mapped fp K f (unat pages) ((Present OR Writable) OR Usermode) s1 s2"
      using map_run_ok [OF a(3,4) alloc_flags f(4,5)] f(1) by simp
    have pg: "pages_of (snd s1) = pages_of (snd s)"
      using a(2) by (simp add: hushed_def)
    have "if va \<noteq> 0 \<and> unat va div 4096 \<le> i \<and> i < unat va div 4096 + unat pages
        then \<exists>a \<in> set (free_addrs (pages_of (snd s))). raw_entry s2 i = a OR ((Present OR Writable) OR Usermode)
        else raw_entry s2 i = raw_entry s i" if "i < 2 ^ 20" "i \<noteq> fp" for i
      using r that raw [OF that] False unfolding run_mapped_def f(2) pg by auto
    moreover have "pagedir_alloc fp pages mode s = Some (Inr (va, s2))"
      using a(5) False s2 by simp
    moreover have "space_ok fp s2" "frames_ok fp K s2"
      using r by (simp_all add: run_mapped_def)
    ultimately show ?thesis
      using a(1) by blast
  qed
qed

lemma demo_entry: "raw_entry demo_space i = (if i div 1024 \<noteq> 0 then 0 else if i mod 1024 = 0 then 2560 else if i mod 1024 < 512 then of_nat (i mod 1024) * 4096 + 3 else 0)"
  by (simp add: raw_entry_def demo_space_def table_addr_def MM2_Address_Mask_def)

lemma demo_free: "set (free_addrs (pages_of (snd demo_space))) = {0x301000, 0x302000, 0x303000, 0x304000, 0x305000}"
  by (simp add: demo_space_def free_addrs_def page_status_of_def page_address_def MM2_Address_Mask_def)

lemma demo_frames_ok: "frames_ok 384 {0..<512} demo_space"
proof -
  have "i < 512 \<and> frame_of demo_space i \<notin> {0x301000, 0x302000, 0x303000, 0x304000, 0x305000}" if "i < 2 ^ 20" "present demo_space i" for i
  proof -
    have c: "i div 1024 = 0" "i mod 1024 < 512" "i mod 1024 \<noteq> 0"
      using that(2) unfolding demo_entry by (auto simp: page_flag_defs split: if_splits)
    then have e: "raw_entry demo_space i = of_nat i * 4096 + 3" "i < 512"
      unfolding demo_entry by auto
    have "frame_of demo_space i \<le> raw_entry demo_space i"
      by (rule word_and_le2)
    also have "\<dots> < 0x301000"
      using e(2) unfolding e(1) by (simp add: word_less_nat_alt unat_word_ariths)
    finally have "frame_of demo_space i < 0x301000" .
    then have "frame_of demo_space i \<notin> {0x301000, 0x302000, 0x303000, 0x304000, 0x305000}"
      by auto
    with e(2) show ?thesis by blast
  qed
  then show ?thesis
    unfolding frames_ok_def demo_free by (metis atLeastLessThan_iff le0)
qed

theorem alloc_first_fit_witness:
  "\<exists>s'. pagedir_alloc 384 1 Mode_Kernel demo_space = Some (Inr (0x200000, s')) \<and> frames_ok 384 {0..<512} s'"
proof -
  have mode: "has_mode Mode_Kernel Mode_Kernel \<or> has_mode Mode_Kernel Mode_Userlow"
    by (simp add: Mode_Kernel_def)
  have st: "start_page Mode_Kernel demo_space = 0"
    by (simp add: start_page_def Mode_Kernel_def Mode_Userlow_def demo_space_def)
  have av: "avail 384 demo_space i \<longleftrightarrow> 512 \<le> i" if "i < 1024" for i
  proof (cases "i = 0 \<or> 512 \<le> i")
    case True
    with that show ?thesis
      by (auto simp: avail_def demo_entry entry_free_def page_flag_defs)
  next
    case False
    have "odd (of_nat i * 4096 + 3 :: u32)"
      by simp
    then have "(of_nat i * 4096 + 3 :: u32) AND 1 \<noteq> 0"
      unfolding and_one_eq odd_iff_mod_2_eq_one by simp
    with False that show ?thesis
      by (simp add: avail_def demo_entry entry_free_def page_flag_defs)
  qed
  have "\<not> avail 384 demo_space 0"
    using av [of 0] by simp
  moreover have "nfree demo_space = 5"
    unfolding nfree_def demo_free by simp
  ultimately obtain va s' where r: "pagedir_alloc 384 1 Mode_Kernel demo_space = Some (Inr (va, s'))"
    "first_fit (avail 384 demo_space) 0 1 va" "frames_ok 384 {0..<512} s'"
    using alloc_first_fit [OF demo_space_ok demo_frames_ok mode, of 1] st by auto
  have one: "run_at P f 1 \<longleftrightarrow> P f" for P and f :: nat
    by (auto simp: run_at_def less_Suc_eq_le dest: le_antisym)
  have ff: "first_fit (avail 384 demo_space) 0 1 va \<Longrightarrow> va = of_nat 512 * 4096"
    unfolding first_fit_def one
  proof (elim disjE exE conjE)
    assume "\<forall>f \<ge> 0. f + 1 \<le> 1048575 \<longrightarrow> \<not> avail 384 demo_space f"
    then have "\<not> avail 384 demo_space 512" by simp
    then show ?thesis using av [of 512] by simp
  next
    fix f assume f: "va = of_nat f * 4096" "avail 384 demo_space f" "\<forall>g. 0 \<le> g \<longrightarrow> g < f \<longrightarrow> \<not> avail 384 demo_space g"
    then have "f \<le> 512"
      using av [of 512] by (metis le0 leI le_refl numeral_less_iff semiring_norm(68,76,78,80))
    moreover have "512 \<le> f"
      using f(2) av [of f] calculation by simp
    ultimately show ?thesis using f(1) by simp
  qed
  then have "va = 0x200000"
    using r(2) by simp
  with r show ?thesis by auto
qed

section \<open>Freeing\<close>

lemma find_page_loop_sound:
  "find_page_loop ps addr mn mx = Inr (Some i) \<Longrightarrow> i < length ps \<and> page_address (ps ! i) = addr"
proof (induction ps addr mn mx rule: find_page_loop.induct)
  case (1 ps addr mn mx)
  define g where "g = nat ((int mn + mx) div 2)"
  note unf = find_page_loop.simps [of ps addr mn mx, folded g_def, unfolded Let_def]
  show ?case
    using "1.prems" "1.IH" [OF g_def] unfolding unf by (auto split: if_splits)
qed

lemma find_page_loop_total:
  "mx < int (length ps) \<Longrightarrow> int mn \<le> mx \<Longrightarrow> \<exists>r. find_page_loop ps addr mn mx = Inr r"
proof (induction ps addr mn mx rule: find_page_loop.induct)
  case (1 ps addr mn mx)
  define g where "g = nat ((int mn + mx) div 2)"
  have g: "mn \<le> g" "int g \<le> mx" "g < length ps"
    using "1.prems" by (auto simp: g_def)
  note unf = find_page_loop.simps [of ps addr mn mx, folded g_def, unfolded Let_def]
  show ?case
    using "1.prems" "1.IH" [OF g_def] g unfolding unf by (cases "page_address (ps ! g) = addr"; cases "page_address (ps ! g) < addr") auto
qed

text \<open>Freeing a physical page that is not free and has an address of its own adds at most that address
  to the free ones, whether the search finds the page or not.\<close>

lemma physical_free_effect:
  assumes ok: "pmm_ok m" "distinct (free_addrs m)" and a: "a AND MM2_Address_Mask = a" "a \<notin> set (free_addrs m)"
  obtains m' where "physical_free a m = Inr m'" "pmm_ok m'" "distinct (free_addrs m')"
    "set (free_addrs m) \<subseteq> set (free_addrs m')" "set (free_addrs m') \<subseteq> insert a (set (free_addrs m))"
proof -
  let ?ps = "physical_pages m"
  have ne: "0 \<le> int (length ?ps) - 1"
    using ok(1) by (cases "physical_pages m") (auto simp: pmm_ok_def)
  obtain r where r: "find_page_loop ?ps a 0 (int (length ?ps) - 1) = Inr r"
    using find_page_loop_total [of "int (length ?ps) - 1" ?ps 0 a] ne by auto
  have same: "pmm_ok m' \<and> free_addrs m' = free_addrs m" if "physical_pages m' = ?ps" "lastidx m' = lastidx m" for m'
    using that ok(1) by (simp add: pmm_ok_def free_addrs_def)
  show ?thesis
  proof (cases "find_index (\<lambda>v. page_address v = a) (io_pages m) = None \<and> r \<noteq> None")
    case False
    then have "\<exists>m'. physical_free a m = Inr m' \<and> physical_pages m' = ?ps \<and> lastidx m' = lastidx m"
      using r by (auto simp: physical_free_def find_page_def a(1) free_page_def update_page_def Let_def split: option.splits)
    then show ?thesis
      using that same ok(2) by (metis order_refl subset_insertI)
  next
    case True
    then obtain i where i: "r = Some i" by auto
    then have il: "i < length ?ps" "page_address (?ps ! i) = a"
      using find_page_loop_sound [of ?ps a] r by auto
    have pf: "physical_free a m = Inr (free_page (Phys i) m)"
      using True r i by (simp add: physical_free_def find_page_def a(1))
    show ?thesis
    proof (cases "page_status_of (?ps ! i) = Some InUse")
      case False
      then have "physical_pages (free_page (Phys i) m) = ?ps" "lastidx (free_page (Phys i) m) = lastidx m"
        by (simp_all add: free_page_def update_page_def deref_def Let_def)
      with same [of "free_page (Phys i) m"] that [OF pf] ok(2) show ?thesis by auto
    next
      case True
      let ?F = "\<lambda>v. page_status_of v = Some Free" and ?v = "set_page_status Free (?ps ! i)"
      have pp: "physical_pages (free_page (Phys i) m) = ?ps[i := ?v]" "lastidx (free_page (Phys i) m) = lastidx m"
        using True by (simp_all add: free_page_def update_page_def deref_def Let_def)
      have "?ps = take i ?ps @ ?ps ! i # drop (Suc i) ?ps"
        using il(1) by (rule id_take_nth_drop)
      then have "free_addrs m = map page_address (filter ?F (take i ?ps @ ?ps ! i # drop (Suc i) ?ps))"
        unfolding free_addrs_def by (rule arg_cong)
      then have m: "free_addrs m = map page_address (filter ?F (take i ?ps)) @ map page_address (filter ?F (drop (Suc i) ?ps))"
        using True by simp
      have m': "free_addrs (free_page (Phys i) m) = map page_address (filter ?F (take i ?ps)) @ a # map page_address (filter ?F (drop (Suc i) ?ps))"
        using il by (simp add: free_addrs_def pp upd_conv_take_nth_drop)
      have "pmm_ok (free_page (Phys i) m)"
        using ok(1) by (simp add: pmm_ok_def pp)
      moreover have "distinct (free_addrs (free_page (Phys i) m))"
        using ok(2) a(2) unfolding m m' by auto
      moreover have "set (free_addrs m) \<subseteq> set (free_addrs (free_page (Phys i) m))"
        "set (free_addrs (free_page (Phys i) m)) \<subseteq> insert a (set (free_addrs m))"
        unfolding m m' by auto
      ultimately show ?thesis
        using that [OF pf] by blast
    qed
  qed
qed

definition lower_hints :: "u32 \<Rightarrow> pagedir \<Rightarrow> pagedir" where
  "lower_hints pageno d =
     (if pageno < MM2_Kernel_Pages \<and> pageno < klowfree d then d\<lparr>klowfree := pageno\<rparr>
      else if pageno \<ge> MM2_Kernel_Pages \<and> pageno < ulowfree d then d\<lparr>ulowfree := pageno\<rparr> else d)"

lemma lower_hints_ok:
  assumes "space_ok fp s"
  shows "space_ok fp (lower_hints p (fst s), snd s)" "hushed fp s (lower_hints p (fst s), snd s)"
proof -
  let ?s = "(lower_hints p (fst s), snd s)"
  have f: "directory (fst ?s) = directory (fst s)" "entrycache (fst ?s) = entrycache (fst s)" "upages (fst ?s) = upages (fst s)"
    "regions (fst ?s) = regions (fst s)"
    by (simp_all add: lower_hints_def)
  have ta: "table_addr (fst ?s) = table_addr (fst s)"
    unfolding table_addr_def f(1) ..
  have "reserved ?s"
    by (rule reserved_side_change [OF _ _ ta]) (use assms in \<open>simp_all add: space_ok_def\<close>)
  note c = space_ok_cong [OF assms f(1,2) _ this]
  show "space_ok fp ?s"
    by (rule c(1)) simp
  have "raw_entry ?s = raw_entry s"
    by (rule c(2)) simp
  then show "hushed fp s ?s"
    using f by (simp add: hushed_def win_raw)
qed

text \<open>A page that is not present has its entry cleared; the physical page of one that is present is
  freed first.\<close>

definition page_freed :: "nat \<Rightarrow> nat \<Rightarrow> space \<Rightarrow> space \<Rightarrow> bool" where
  "page_freed fp p s s' \<longleftrightarrow> space_ok fp s' \<and>
     (\<forall>i < 2 ^ 20. i \<noteq> fp \<longrightarrow> raw_entry s' i = (if i = p then 0 else raw_entry s i)) \<and>
     set (free_addrs (pages_of (snd s'))) \<subseteq> (if present s p then insert (frame_of s p) else id) (set (free_addrs (pages_of (snd s)))) \<and>
     (\<forall>t < 1024. table_addr (fst s') t = table_addr (fst s) t \<or>
        table_addr (fst s') t \<in> (if present s p then insert (frame_of s p) else id) (set (free_addrs (pages_of (snd s)))))"

lemma release_frame:
  assumes ok: "space_ok fp s" "frames_ok fp K s" and p: "p < 2 ^ 20" "p \<noteq> fp" "p \<notin> K" "present s p"
  obtains m where "physical_free (frame_of s p) (pages_of (snd s)) = Inr m" "space_ok fp (fst s, (snd s)\<lparr>pages_of := m\<rparr>)"
    "raw_entry (fst s, (snd s)\<lparr>pages_of := m\<rparr>) = raw_entry s"
    "set (free_addrs m) \<subseteq> insert (frame_of s p) (set (free_addrs (pages_of (snd s))))" "set (free_addrs (pages_of (snd s))) \<subseteq> set (free_addrs m)"
proof -
  have res: "reserved s"
    using ok(1) by (simp add: space_ok_def)
  have fr: "frame_of s p \<notin> set (free_addrs (pages_of (snd s)))" "frame_of s p \<noteq> 0" "\<forall>t < 1024. table_addr (fst s) t \<noteq> frame_of s p"
    using ok(2) p unfolding frames_ok_def by blast+
  have ms: "frame_of s p AND MM2_Address_Mask = frame_of s p"
    by (simp add: and.assoc)
  obtain m where m: "physical_free (frame_of s p) (pages_of (snd s)) = Inr m" "pmm_ok m" "distinct (free_addrs m)"
    "set (free_addrs (pages_of (snd s))) \<subseteq> set (free_addrs m)" "set (free_addrs m) \<subseteq> insert (frame_of s p) (set (free_addrs (pages_of (snd s))))"
    by (rule physical_free_effect [OF _ _ ms fr(1)]) (use res in \<open>simp_all add: reserved_def\<close>)
  let ?s = "(fst s, (snd s)\<lparr>pages_of := m\<rparr>)"
  have "reserved ?s"
    using res m fr unfolding reserved_def by auto
  note c = space_ok_cong [OF ok(1) _ _ _ this]
  show ?thesis
    by (rule that [OF m(1) c(1) c(2) m(5,4)]) simp_all
qed

lemma clear_entry_ok:
  assumes "space_ok fp s" "page_index fp p" "table_addr (fst s) (unat p div 1024) \<noteq> 0 \<or> 2 \<le> nfree s"
    and k: "\<And>d v. k (d, v) = (if up then (d\<lparr>upages := upages d - 1\<rparr>, v) else (d, v\<lparr>kpages := kpages v - 1\<rparr>))"
  obtains s1 where "set_table_entry fp p 0 s = Some (Inr s1)" "entry_written fp (unat p) 0 s s1" "space_ok fp (k s1)" "raw_entry (k s1) = raw_entry s1"
    "pages_of (snd (k s1)) = pages_of (snd s1)" "table_addr (fst (k s1)) = table_addr (fst s1)"
    "klowfree (fst (k s1)) = klowfree (fst s1)" "ulowfree (fst (k s1)) = ulowfree (fst s1)"
proof -
  have pp: "unat p < 2 ^ 20" "unat p \<noteq> fp"
    using assms(2) by (simp_all add: page_index_def)
  obtain s1 where s1: "set_table_entry fp p 0 s = Some (Inr s1)"
    using assms(3) set_table_entry_returns [OF assms(1) pp] set_table_entry_present [OF assms(1) pp] by metis
  have w: "entry_written fp (unat p) 0 s s1"
    by (rule set_table_entry_ok [OF assms(1) pp s1])
  have ok1: "space_ok fp s1"
    using w by (simp add: entry_written_def)
  have f: "directory (fst (k s1)) = directory (fst s1)" "entrycache (fst (k s1)) = entrycache (fst s1)" "table_mem (snd (k s1)) = table_mem (snd s1)"
    "pages_of (snd (k s1)) = pages_of (snd s1)" "klowfree (fst (k s1)) = klowfree (fst s1)" "ulowfree (fst (k s1)) = ulowfree (fst s1)"
    by (cases s1; cases up; simp add: k)+
  have ta: "table_addr (fst (k s1)) = table_addr (fst s1)"
    unfolding table_addr_def f(1) ..
  have "reserved (k s1)"
    by (rule reserved_side_change [OF _ f(4) ta]) (use ok1 in \<open>simp add: space_ok_def\<close>)
  note c = space_ok_cong [OF ok1 f(1,2,3) this]
  show ?thesis
    by (rule that [OF s1 w c f(4) ta f(5,6)])
qed

definition count_down :: "u32 \<Rightarrow> space \<Rightarrow> space" where
  "count_down pageaddr s = (case s of (d, v) \<Rightarrow>
     if pageaddr > MM2_Kernel_Boundary then (d\<lparr>upages := upages d - 1\<rparr>, v) else (d, v\<lparr>kpages := kpages v - 1\<rparr>))"

lemma free_one_page_unfold:
  "free_one_page fp pageaddr s =
     (let (e, s2) = get_table_entry fp (pageaddr div 4096) (lower_hints (pageaddr div 4096) (fst s), snd s)
      in bind_ro (if e AND Present \<noteq> 0
                  then Some (bind_result (physical_free (e AND MM2_Address_Mask) (pages_of (snd s2))) (\<lambda>p. Inr ((snd s2)\<lparr>pages_of := p\<rparr>)))
                  else ret_ro (snd s2)) (\<lambda>v3.
           bind_ro (set_table_entry fp (pageaddr div 4096) 0 (fst s2, v3)) (\<lambda>s4. ret_ro (count_down pageaddr s4))))"
  unfolding free_one_page_def lower_hints_def count_down_def Let_def split_beta by simp

lemma page_freed_from:
  assumes "entry_written fp p 0 s3 s4" "\<And>i. i < 2 ^ 20 \<Longrightarrow> i \<noteq> fp \<Longrightarrow> raw_entry s3 i = raw_entry s i" "table_addr (fst s3) = table_addr (fst s)"
    "set (free_addrs (pages_of (snd s3))) \<subseteq> (if present s p then insert (frame_of s p) else id) (set (free_addrs (pages_of (snd s))))"
    "space_ok fp s'" "raw_entry s' = raw_entry s4" "pages_of (snd s') = pages_of (snd s4)" "table_addr (fst s') = table_addr (fst s4)"
  shows "page_freed fp p s s'"
proof -
  have w: "\<forall>i < 2 ^ 20. i \<noteq> fp \<longrightarrow> raw_entry s4 i = (if i = p then 0 else raw_entry s3 i)"
    "set (free_addrs (pages_of (snd s4))) \<subseteq> set (free_addrs (pages_of (snd s3)))"
    "\<forall>t < 1024. table_addr (fst s4) t = table_addr (fst s3) t \<or> table_addr (fst s4) t \<in> set (free_addrs (pages_of (snd s3)))"
    using assms(1) by (simp_all add: entry_written_def)
  show ?thesis
    unfolding page_freed_def assms(6,7,8)
  proof (intro conjI)
    show "\<forall>i < 2 ^ 20. i \<noteq> fp \<longrightarrow> raw_entry s4 i = (if i = p then 0 else raw_entry s i)"
      using w(1) assms(2) by simp
    show "\<forall>t < 1024. table_addr (fst s4) t = table_addr (fst s) t \<or>
        table_addr (fst s4) t \<in> (if present s p then insert (frame_of s p) else id) (set (free_addrs (pages_of (snd s))))"
      using w(3) assms(4) unfolding assms(3) by blast
    show "set (free_addrs (pages_of (snd s4))) \<subseteq> (if present s p then insert (frame_of s p) else id) (set (free_addrs (pages_of (snd s))))"
      by (rule subset_trans [OF w(2) assms(4)])
  qed (rule assms(5))
qed

lemma free_one_page_ok:
  assumes ok: "space_ok fp s" "frames_ok fp K s" and p: "page_index fp (pageaddr div 4096)" "unat (pageaddr div 4096) \<notin> K"
    and t: "table_addr (fst s) (unat (pageaddr div 4096) div 1024) \<noteq> 0 \<or> 2 \<le> nfree s"
  obtains s' where "free_one_page fp pageaddr s = Some (Inr s')" "page_freed fp (unat (pageaddr div 4096)) s s'"
    "klowfree (fst s') = klowfree (lower_hints (pageaddr div 4096) (fst s))" "ulowfree (fst s') = ulowfree (lower_hints (pageaddr div 4096) (fst s))"
proof -
  let ?p = "pageaddr div 4096"
  have pp: "unat ?p < 2 ^ 20" "unat ?p \<noteq> fp"
    using p(1) by (simp_all add: page_index_def)
  define s1 where "s1 = (lower_hints ?p (fst s), snd s)"
  note s1 = lower_hints_ok [OF ok(1), of ?p, folded s1_def]
  obtain e s2 where g: "get_table_entry fp ?p s1 = (e, s2)"
    by (metis surj_pair)
  note g' = get_entry_space [OF s1(1) pp(1), unfolded g fst_conv snd_conv]
  have h: "hushed fp s s2"
    using hushed_trans [OF s1(2) quiet_hushed [OF g'(1)]] .
  have raw: "raw_entry s2 i = raw_entry s i" if "i < 2 ^ 20" "i \<noteq> fp" for i
    using h that by (simp add: hushed_def same_entries_def)
  have e: "e = raw_entry s (unat ?p)" "raw_entry s2 (unat ?p) = raw_entry s (unat ?p)"
    using g'(3) pp s1(2) raw by (simp_all add: reads_def hushed_def same_entries_def)
  have pg: "pages_of (snd s2) = pages_of (snd s)" "table_addr (fst s2) = table_addr (fst s)"
    using h unfolding hushed_def table_addr_def by simp_all
  have hints: "klowfree (fst s2) = klowfree (fst s1)" "ulowfree (fst s2) = ulowfree (fst s1)"
    using core_fields [of s2 s1] g'(1) by (simp_all add: quiet_def)
  have fr2: "frames_ok fp K s2"
    by (rule frames_ok_hushed [OF ok(2) h])
  have "\<exists>v3. (if e AND Present \<noteq> 0
          then Some (bind_result (physical_free (e AND MM2_Address_Mask) (pages_of (snd s2))) (\<lambda>p. Inr ((snd s2)\<lparr>pages_of := p\<rparr>)))
          else ret_ro (snd s2)) = Some (Inr v3) \<and> space_ok fp (fst s2, v3) \<and> raw_entry (fst s2, v3) = raw_entry s2 \<and>
      set (free_addrs (pages_of v3)) \<subseteq> (if present s (unat ?p) then insert (frame_of s (unat ?p)) else id) (set (free_addrs (pages_of (snd s)))) \<and>
      set (free_addrs (pages_of (snd s))) \<subseteq> set (free_addrs (pages_of v3))"
  proof (cases "present s (unat ?p)")
    case True
    obtain m where "physical_free (frame_of s2 (unat ?p)) (pages_of (snd s2)) = Inr m" "space_ok fp (fst s2, (snd s2)\<lparr>pages_of := m\<rparr>)"
      "raw_entry (fst s2, (snd s2)\<lparr>pages_of := m\<rparr>) = raw_entry s2"
      "set (free_addrs m) \<subseteq> insert (frame_of s2 (unat ?p)) (set (free_addrs (pages_of (snd s2))))" "set (free_addrs (pages_of (snd s2))) \<subseteq> set (free_addrs m)"
      by (rule release_frame [OF g'(2) fr2 pp p(2)]) (use True e in simp_all)
    then show ?thesis
      using True e pg by (intro exI [of _ "(snd s2)\<lparr>pages_of := m\<rparr>"]) simp
  next
    case False
    then show ?thesis
      using e pg g'(2) by (intro exI [of _ "snd s2"]) simp
  qed
  then obtain v3 where v3: "(if e AND Present \<noteq> 0
          then Some (bind_result (physical_free (e AND MM2_Address_Mask) (pages_of (snd s2))) (\<lambda>p. Inr ((snd s2)\<lparr>pages_of := p\<rparr>)))
          else ret_ro (snd s2)) = Some (Inr v3)" "space_ok fp (fst s2, v3)" "raw_entry (fst s2, v3) = raw_entry s2"
      "set (free_addrs (pages_of v3)) \<subseteq> (if present s (unat ?p) then insert (frame_of s (unat ?p)) else id) (set (free_addrs (pages_of (snd s))))"
      "set (free_addrs (pages_of (snd s))) \<subseteq> set (free_addrs (pages_of v3))"
    by blast
  have "nfree s \<le> nfree (fst s2, v3)"
    unfolding nfree_def using v3(5) by (simp add: card_mono)
  then have t3: "table_addr (fst (fst s2, v3)) (unat ?p div 1024) \<noteq> 0 \<or> 2 \<le> nfree (fst s2, v3)"
    using t pg(2) by auto
  obtain s4 where s4: "set_table_entry fp ?p 0 (fst s2, v3) = Some (Inr s4)" "entry_written fp (unat ?p) 0 (fst s2, v3) s4"
    "space_ok fp (count_down pageaddr s4)" "raw_entry (count_down pageaddr s4) = raw_entry s4"
    "pages_of (snd (count_down pageaddr s4)) = pages_of (snd s4)" "table_addr (fst (count_down pageaddr s4)) = table_addr (fst s4)"
    "klowfree (fst (count_down pageaddr s4)) = klowfree (fst s4)" "ulowfree (fst (count_down pageaddr s4)) = ulowfree (fst s4)"
    by (rule clear_entry_ok [OF v3(2) p(1) t3, where k = "count_down pageaddr" and up = "pageaddr > MM2_Kernel_Boundary"])
      (simp_all add: count_down_def)
  have "side s4 = side (fst s2, v3)"
    using s4(2) unfolding entry_written_def by blast
  then have "klowfree (fst s4) = klowfree (fst s1)" "ulowfree (fst s4) = ulowfree (fst s1)"
    using hints by (simp_all add: side_def split_beta)
  moreover have "free_one_page fp pageaddr s = Some (Inr (count_down pageaddr s4))"
    unfolding free_one_page_unfold s1_def [symmetric] g Let_def prod.case v3(1) by (simp add: s4(1))
  moreover have "page_freed fp (unat ?p) s (count_down pageaddr s4)"
    by (rule page_freed_from [OF s4(2) _ _ _ s4(3-6)]) (use v3 raw pg in simp_all)
  ultimately show ?thesis
    using that s4(7,8) by (simp add: s1_def)
qed

lemma frames_ok_freed:
  assumes fr: "frames_ok fp K s" and f: "page_freed fp p s s'" and p: "p < 2 ^ 20" "p \<noteq> fp" "p \<notin> K"
  shows "frames_ok fp K s'"
  unfolding frames_ok_def
proof (intro allI impI)
  let ?A = "(if present s p then insert (frame_of s p) else id) (set (free_addrs (pages_of (snd s))))"
  fix i assume i: "i < 2 ^ 20" "i \<noteq> fp" "present s' i"
  have raw: "raw_entry s' j = (if j = p then 0 else raw_entry s j)" if "j < 2 ^ 20" "j \<noteq> fp" for j
    using f that by (simp add: page_freed_def)
  have ip: "i \<noteq> p" "raw_entry s' i = raw_entry s i"
    using i raw [OF i(1,2)] by (auto split: if_splits)
  have fi: "frame_of s i \<notin> ?A"
    using fr i p ip unfolding frames_ok_def by (auto split: if_splits)
  have K: "frame_of s i \<noteq> 0" "\<forall>t < 1024. table_addr (fst s) t \<noteq> frame_of s i"
    "\<forall>j < 2 ^ 20. j \<noteq> fp \<longrightarrow> j \<noteq> i \<longrightarrow> present s j \<longrightarrow> frame_of s j \<noteq> frame_of s i" if "i \<notin> K"
    using fr i ip that unfolding frames_ok_def by metis+
  have "frame_of s' j \<noteq> frame_of s i" if "i \<notin> K" "j < 2 ^ 20" "j \<noteq> fp" "j \<noteq> i" "present s' j" for j
    using K(3) [OF that(1)] that raw [of j] by (auto split: if_splits)
  moreover have "table_addr (fst s') t \<noteq> frame_of s i" if "i \<notin> K" "t < 1024" for t
    using K(2) [OF that(1)] fi f that unfolding page_freed_def by metis
  ultimately show "frame_of s' i \<notin> set (free_addrs (pages_of (snd s'))) \<and>
     (i \<notin> K \<longrightarrow> frame_of s' i \<noteq> 0 \<and> (\<forall>t < 1024. table_addr (fst s') t \<noteq> frame_of s' i) \<and>
        (\<forall>j < 2 ^ 20. j \<noteq> fp \<longrightarrow> j \<noteq> i \<longrightarrow> present s' j \<longrightarrow> frame_of s' j \<noteq> frame_of s' i))"
    unfolding ip(2) using fi f K(1) unfolding page_freed_def by blast
qed

section \<open>An address space in use\<close>

text \<open>Any sequence of reads of entries, allocations, mappings and frees of pages outside \<open>K\<close>.\<close>

inductive space_step :: "nat \<Rightarrow> nat set \<Rightarrow> space \<Rightarrow> space \<Rightarrow> bool" for fp K where
  Look: "unat p < 2 ^ 20 \<Longrightarrow> space_step fp K s (snd (get_table_entry fp p s))"
| Alloc: "0 < unat pages \<Longrightarrow> pagedir_alloc fp pages mode s = Some (Inr (va, s')) \<Longrightarrow> space_step fp K s s'"
| Map: "page_index fp ((addr AND MM2_Address_Mask) div 4096) \<Longrightarrow> flags AND MM2_Address_Mask = 0 \<Longrightarrow> flags AND Present \<noteq> 0 \<Longrightarrow>
    map_page_at fp addr flags s = Some (Inr s') \<Longrightarrow> space_step fp K s s'"
| Free_page: "page_index fp (pageaddr div 4096) \<Longrightarrow> unat (pageaddr div 4096) \<notin> K \<Longrightarrow> present s (unat (pageaddr div 4096)) \<Longrightarrow>
    free_one_page fp pageaddr s = Some (Inr s') \<Longrightarrow> space_step fp K s s'"

inductive space_reachable :: "nat \<Rightarrow> nat set \<Rightarrow> space \<Rightarrow> space \<Rightarrow> bool" for fp K s0 where
  Start: "space_reachable fp K s0 s0"
| Step: "space_reachable fp K s0 s \<Longrightarrow> space_step fp K s s' \<Longrightarrow> space_reachable fp K s0 s'"

definition space_good :: "nat \<Rightarrow> nat set \<Rightarrow> space \<Rightarrow> bool" where
  "space_good fp K s \<longleftrightarrow> space_ok fp s \<and> frames_ok fp K s \<and> 0 \<in> K \<and> \<not> avail fp s 0 \<and>
     unat (klowfree (fst s)) \<le> 1048575 \<and> unat (ulowfree (fst s)) \<le> 1048575"

lemma alloc_search_hints:
  "alloc_search fp pages mode pageno found firstpage s = (va, s') \<Longrightarrow> space_ok fp s \<Longrightarrow>
   unat (klowfree (fst s)) \<le> 1048575 \<Longrightarrow> unat (ulowfree (fst s)) \<le> 1048575 \<Longrightarrow>
   unat (klowfree (fst s')) \<le> 1048575 \<and> unat (ulowfree (fst s')) \<le> 1048575"
proof (induction "1048575 - unat pageno" arbitrary: pageno found firstpage s rule: less_induct)
  case less
  show ?case
  proof (cases "pageno < MM2_Total_Pages")
    case False
    then show ?thesis
      using less.prems by (simp add: alloc_search.simps)
  next
    case True
    have p: "unat pageno < 2 ^ 20" "unat pageno < 1048575"
      using True by (simp_all add: MM2_Total_Pages_def word_less_nat_alt)
    note u = unat_Suc_word [OF True]
    obtain b s1 where ia: "is_available fp pageno s = (b, s1)"
      by (metis surj_pair)
    note av = is_available_ok [OF less.prems(2) p(1), unfolded ia fst_conv snd_conv]
    have h1: "unat (klowfree (fst s1)) \<le> 1048575" "unat (ulowfree (fst s1)) \<le> 1048575"
      using core_fields [of s1 s] av(2) less.prems(3,4) by (simp_all add: quiet_def)
    define s2 where "s2 = (move_hints pages mode pageno (fst s1), snd s1)"
    have h2: "unat (klowfree (fst s2)) \<le> 1048575" "unat (ulowfree (fst s2)) \<le> 1048575"
      using h1 p(2) by (simp_all add: s2_def move_hints_def Let_def)
    have ok2: "space_ok fp s2"
      unfolding s2_def by (rule move_hints_ok(1) [OF av(3)])
    have IH: "unat (klowfree (fst s')) \<le> 1048575 \<and> unat (ulowfree (fst s')) \<le> 1048575"
      if "alloc_search fp pages mode (pageno + 1) f g x = (va, s')" "space_ok fp x"
        "unat (klowfree (fst x)) \<le> 1048575" "unat (ulowfree (fst x)) \<le> 1048575" for f g x
      using less.hyps [OF _ that] u p(2) by simp
    show ?thesis
    proof (cases b)
      case True
      with less.prems(1) h1 av(3) IH alloc_search_hit [OF \<open>pageno < MM2_Total_Pages\<close>, of fp s s1] ia show ?thesis
        by (simp split: if_splits)
    next
      case False
      have "alloc_search fp pages mode pageno found firstpage s =
          (if pages = 0 then (0, s2) else alloc_search fp pages mode (pageno + 1) 0 0 s2)"
        using False ia True by (subst alloc_search.simps) (cases s1; simp add: s2_def)
      with less.prems(1) h2 ok2 IH show ?thesis
        by (auto split: if_splits)
    qed
  qed
qed

lemma avail_zero_kept:
  assumes "\<not> avail fp s 0" "raw_entry s' 0 = raw_entry s 0 \<or> 0 = fp \<or> present s' 0"
  shows "\<not> avail fp s' 0"
  using assms by (auto simp: avail_def entry_free_def)

lemma pagedir_alloc_good:
  assumes g: "space_good fp K s" and r: "pagedir_alloc fp pages mode s = Some (Inr (va, s'))" and n: "0 < unat pages"
  shows "space_good fp K s'"
proof -
  have mode: "has_mode mode Mode_Kernel \<or> has_mode mode Mode_Userlow"
    using r by (auto simp: pagedir_alloc_def split: if_splits)
  obtain va1 s1 where a: "alloc_search fp pages mode (start_page mode s) 0 0 s = (va1, s1)"
    by (metis surj_pair)
  have gs: "space_ok fp s" "frames_ok fp K s" "\<not> avail fp s 0" "unat (klowfree (fst s)) \<le> 1048575" "unat (ulowfree (fst s)) \<le> 1048575"
    using g by (simp_all add: space_good_def)
  then have st: "search_state fp s pages (start_page mode s) 0 0"
    using n by (auto simp: search_state_def run_at_def start_page_def)
  from alloc_search_ok [OF gs(1) st a] have s1: "first_fit (avail fp s) (unat (start_page mode s)) (unat pages) va1" "hushed fp s s1" "space_ok fp s1"
    by simp_all
  have h1: "unat (klowfree (fst s1)) \<le> 1048575" "unat (ulowfree (fst s1)) \<le> 1048575"
    using alloc_search_hints [OF a gs(1,4,5)] by simp_all
  have z1: "\<not> avail fp s1 0"
    using hushed_avail [OF s1(2), of 0] gs(3) by simp
  have fr1: "frames_ok fp K s1"
    by (rule frames_ok_hushed [OF gs(2) s1(2)])
  show ?thesis
  proof (cases "va1 = 0")
    case True
    then have "s' = s1"
      using r pagedir_alloc_eq [OF mode a] by simp
    then show ?thesis
      using s1(3) fr1 z1 h1 g by (simp add: space_good_def)
  next
    case False
    obtain f where f: "va1 = of_nat f * 4096" "unat va1 div 4096 = f" "unat (start_page mode s) \<le> f" "f + unat pages \<le> 1048575"
      "\<forall>i. f \<le> i \<longrightarrow> i < f + unat pages \<longrightarrow> i \<noteq> fp"
      by (rule first_fitE [OF s1(1) False])
    have f0: "f \<noteq> 0"
      using f(1) False by (cases f) simp_all
    have "fold_ro (\<lambda>page. map_page_at fp (va1 + of_nat page * 4096) ((Present OR Writable) OR Usermode)) [0..<unat pages] s1 = Some (Inr s')"
      using r pagedir_alloc_eq [OF mode a] False by auto
    then have rm: "run_mapped fp K f (unat pages) ((Present OR Writable) OR Usermode) s1 s'"
      using map_run_ok [OF s1(3) fr1 alloc_flags f(4,5)] f(1) by simp
    then have "raw_entry s' 0 = raw_entry s1 0 \<or> 0 = fp"
      using f0 by (auto simp: run_mapped_def)
    then have "\<not> avail fp s' 0"
      using avail_zero_kept [OF z1] by blast
    then show ?thesis
      using rm h1 g by (simp add: space_good_def run_mapped_def)
  qed
qed

lemma space_step_good:
  assumes "space_step fp K s s'" "space_good fp K s"
  shows "space_good fp K s'"
proof -
  have z: "\<not> avail fp s 0"
    using assms(2) by (simp add: space_good_def)
  from assms(1) show ?thesis
  proof cases
    case (Look p)
    note p = Look
    have ok: "space_ok fp s" "frames_ok fp K s"
      using assms(2) by (simp_all add: space_good_def)
    note q = get_entry_space [OF ok(1) p(2), folded p(1)]
    have "frames_ok fp K s'"
      by (rule frames_ok_hushed [OF ok(2) quiet_hushed [OF q(1)]])
    moreover have "klowfree (fst s') = klowfree (fst s)" "ulowfree (fst s') = ulowfree (fst s)"
      using core_fields [of s' s] q(1) by (simp_all add: quiet_def)
    moreover have "avail fp s' 0 = avail fp s 0"
      by (rule hushed_avail [OF quiet_hushed [OF q(1)]]) simp
    ultimately show ?thesis
      using assms(2) q(2) by (simp add: space_good_def)
  next
    case (Alloc pages mode va)
    then show ?thesis
      using pagedir_alloc_good [OF assms(2)] by blast
  next
    case (Map addr flags)
    note m = Map
    have ok: "space_ok fp s" "frames_ok fp K s" "reserved s"
      using assms(2) by (simp_all add: space_good_def space_ok_def)
    obtain a where a: "a \<in> set (free_addrs (pages_of (snd s)))" "a \<notin> set (free_addrs (pages_of (snd s')))" "a AND MM2_Address_Mask = a"
      "page_mapped fp 2 (unat ((addr AND MM2_Address_Mask) div 4096)) (a OR flags) s s'" "\<forall>t < 1024. table_addr (fst s') t \<noteq> a"
      by (rule map_page_at_ok [OF ok(1) m(1,4)])
    have fr: "frames_ok fp K s'"
      by (rule frames_ok_mapped [OF ok(2,3) a(4,1,2,3,5) m(2)])
    have "(a OR flags) AND Present \<noteq> 0"
      using m(3) by (simp add: bit.conj_disj_distrib2 or_eq_0_iff)
    moreover have "raw_entry s' 0 = (if 0 = unat ((addr AND MM2_Address_Mask) div 4096) then a OR flags else raw_entry s 0)" if "0 \<noteq> fp"
      using a(4) that unfolding page_mapped_def by simp
    ultimately have "raw_entry s' 0 = raw_entry s 0 \<or> 0 = fp \<or> present s' 0"
      by (metis (full_types))
    from avail_zero_kept [OF z this] have "\<not> avail fp s' 0" .
    moreover have "space_ok fp s'" "klowfree (fst s') = klowfree (fst s)" "ulowfree (fst s') = ulowfree (fst s)"
      using a(4) unfolding page_mapped_def by blast+
    ultimately show ?thesis
      using assms(2) fr unfolding space_good_def by simp
  next
    case (Free_page pageaddr)
    note m = Free_page
    let ?p = "pageaddr div 4096"
    have ok: "space_ok fp s" "frames_ok fp K s" "0 \<in> K"
      using assms(2) by (simp_all add: space_good_def)
    have t: "table_addr (fst s) (unat ?p div 1024) \<noteq> 0 \<or> 2 \<le> nfree s"
      using m(3) by (auto simp: raw_entry_def)
    obtain s2 where s2: "free_one_page fp pageaddr s = Some (Inr s2)" "page_freed fp (unat ?p) s s2"
      "klowfree (fst s2) = klowfree (lower_hints ?p (fst s))" "ulowfree (fst s2) = ulowfree (lower_hints ?p (fst s))"
      by (rule free_one_page_ok [OF ok(1,2) m(1,2) t])
    then have f: "s2 = s'"
      using m(4) by simp
    have "frames_ok fp K s'"
      using frames_ok_freed [OF ok(2) s2(2)] m(1,2) f by (simp add: page_index_def)
    moreover have "raw_entry s' 0 = raw_entry s 0 \<or> 0 = fp"
    proof -
      have "unat ?p \<noteq> 0"
        using m(2) ok(3) by metis
      moreover have "raw_entry s' 0 = (if 0 = unat ?p then 0 else raw_entry s 0)" if "0 \<noteq> fp"
        using s2(2) that unfolding f page_freed_def by simp
      ultimately show ?thesis by metis
    qed
    then have "\<not> avail fp s' 0"
      using avail_zero_kept [OF z] by blast
    moreover have "space_ok fp s'"
      using s2(2) unfolding f page_freed_def by blast
    moreover have "unat (klowfree (fst s')) \<le> 1048575" "unat (ulowfree (fst s')) \<le> 1048575"
      using assms(2) s2(3,4) m(1) f by (auto simp: space_good_def lower_hints_def page_index_def)
    ultimately show ?thesis
      using ok(3) unfolding space_good_def by blast
  qed
qed

lemma space_reachable_good: "space_reachable fp K s0 s \<Longrightarrow> space_good fp K s0 \<Longrightarrow> space_good fp K s"
  by (induction rule: space_reachable.induct) (auto intro: space_step_good)


lemma demo_space_good: "space_good 384 {0..<512} demo_space"
proof -
  have "\<not> avail 384 demo_space 0"
    by (simp add: avail_def demo_entry entry_free_def page_flag_defs)
  then show ?thesis
    using demo_space_ok demo_frames_ok by (simp add: space_good_def) (simp add: demo_space_def)
qed


section \<open>Switching\<close>

lemma copy_kernelspace_eq:
  "copy_kernelspace c d = Inr d' \<Longrightarrow>
   d' = d\<lparr>directory := (\<lambda>t. if t < MM2_Kernel_Tables then directory c t else directory d t), klowfree := klowfree c\<rparr>"
  by (auto simp: copy_kernelspace_def split: if_splits)

lemma mm2_switch_effect:
  assumes "mm2_switch n a = Inr a'" "n \<noteq> current_pagedir a"
  shows "current_pagedir a' = n" "shared a' = shared a"
    "\<forall>t < MM2_Kernel_Tables. directory (dirs a' n) t = directory (dirs a (current_pagedir a)) t"
    "\<forall>t \<ge> MM2_Kernel_Tables. directory (dirs a' k) t = directory (dirs a k) t"
    "entrycache (dirs a' k) = entrycache (dirs a k)"
    "k \<noteq> 0 \<Longrightarrow> k \<noteq> n \<Longrightarrow> dirs a' k = dirs a k"
    "klowfree (dirs a' n) = klowfree (dirs a (current_pagedir a))"
proof -
  let ?c = "dirs a (current_pagedir a)"
  obtain kd nd where k: "copy_kernelspace ?c (dirs a 0) = Inr kd" "copy_kernelspace kd (((dirs a)(0 := kd)) n) = Inr nd"
    and a': "a' = a\<lparr>dirs := (dirs a)(0 := kd, n := nd), current_pagedir := n\<rparr>"
    using assms by (auto simp: mm2_switch_def bind_result_Inr_iff Let_def)
  note kd = copy_kernelspace_eq [OF k(1)] and nd = copy_kernelspace_eq [OF k(2)]
  show "current_pagedir a' = n" "shared a' = shared a"
    "\<forall>t < MM2_Kernel_Tables. directory (dirs a' n) t = directory (dirs a (current_pagedir a)) t"
    "\<forall>t \<ge> MM2_Kernel_Tables. directory (dirs a' k) t = directory (dirs a k) t"
    "entrycache (dirs a' k) = entrycache (dirs a k)"
    "k \<noteq> 0 \<Longrightarrow> k \<noteq> n \<Longrightarrow> dirs a' k = dirs a k"
    "klowfree (dirs a' n) = klowfree (dirs a (current_pagedir a))"
    by (simp_all add: a' nd kd)
qed

lemma raw_entry_kernel:
  assumes "\<forall>t < MM2_Kernel_Tables. directory d t = directory d' t" "i < 262144"
  shows "raw_entry (d, v) i = raw_entry (d', v) i"
  using assms by (simp add: raw_entry_def table_addr_def MM2_Kernel_Tables_def less_mult_imp_div_less)

text \<open>C19. The cache of a directory survives switches. When one process has looked up a kernel page and
  another then maps the page anew, the first still sees its old entry after the switch back, although
  the shared table has the new one: the address translates to a physical page that may belong to
  someone else by then.\<close>

theorem stale_kernel_entry:
  assumes ids: "current_pagedir a = m" "m \<noteq> 0" "n \<noteq> 0" "m \<noteq> n"
    and p: "unat p < 262144" "unat p \<noteq> fp" and cached: "fst (entrycache_get p (entrycache (dirs a m))) = e" "e \<noteq> 0"
    and to: "mm2_switch n a = Inr a1" and ok: "space_ok fp (dirs a1 n, shared a1)"
    and remap: "set_table_entry fp p e' (dirs a1 n, shared a1) = Some (Inr (d2, v2))"
    and return_to: "mm2_switch m (a1\<lparr>dirs := (dirs a1)(n := d2), shared := v2\<rparr>) = Inr a3"
  shows "raw_entry (dirs a3 m, shared a3) (unat p) = e' \<and> fst (get_table_entry fp p (dirs a3 m, shared a3)) = e"
proof -
  let ?a2 = "a1\<lparr>dirs := (dirs a1)(n := d2), shared := v2\<rparr>"
  note s1 = mm2_switch_effect [OF to]
  have c1: "current_pagedir a1 = n"
    using s1(1) ids by simp
  note s3 = mm2_switch_effect [OF return_to]
  have k: "\<forall>t < MM2_Kernel_Tables. directory (dirs a3 m) t = directory d2 t" "shared a3 = v2"
    using s3(2,3) ids c1 by simp_all
  have "entry_written fp (unat p) e' (dirs a1 n, shared a1) (d2, v2)"
    using set_table_entry_ok [OF ok _ p(2) remap] p(1) by simp
  then have "raw_entry (d2, v2) (unat p) = e'"
    using p unfolding entry_written_def by simp
  then have raw: "raw_entry (dirs a3 m, shared a3) (unat p) = e'"
    using raw_entry_kernel [OF k(1) p(1)] k(2) by simp
  have "entrycache (dirs a3 m) = entrycache (dirs a m)"
    using s3(5) [of m] s1(5) [of m] ids c1 by simp
  then have "fst (get_table_entry fp p (dirs a3 m, shared a3)) = e"
    using cached by (simp add: get_table_entry_def Let_def split_beta)
  with raw show ?thesis ..
qed

definition demo_dir :: "u32 \<Rightarrow> pagedir" where
  "demo_dir a = (fst demo_space)\<lparr>directory_addr := a, directory_physical := a\<rparr>"

definition demo_spaces :: address_spaces where
  "demo_spaces = \<lparr>dirs = (\<lambda>n. if n = 1 then (demo_dir 0x1F1000)\<lparr>entrycache := \<lparr>ce_index = 600, ce_entry = 0x301003, ce_hits = 2\<rparr> # replicate 63 \<lparr>ce_index = 0, ce_entry = 0, ce_hits = 0\<rparr>\<rparr>
     else demo_dir 0x1F0000), current_pagedir = 1, shared = snd demo_space\<rparr>"

lemma demo_switch:
  "mm2_switch 2 demo_spaces = Inr (demo_spaces\<lparr>current_pagedir := 2\<rparr>)"
proof -
  have k: "copy_kernelspace (dirs demo_spaces 1) (demo_dir 0x1F0000) = Inr (demo_dir 0x1F0000)"
    "copy_kernelspace (demo_dir 0x1F0000) (demo_dir 0x1F0000) = Inr (demo_dir 0x1F0000)"
    by (simp_all add: copy_kernelspace_def demo_spaces_def demo_dir_def demo_space_def cong: if_cong)
  have d: "dirs demo_spaces 0 = demo_dir 0x1F0000" "dirs demo_spaces 2 = demo_dir 0x1F0000" "current_pagedir demo_spaces = 1"
    "activate (demo_dir 0x1F0000) = Inr ()"
    by (simp_all add: demo_spaces_def activate_def demo_dir_def)
  have "(dirs demo_spaces)(0 := demo_dir 0x1F0000) = dirs demo_spaces" "(dirs demo_spaces)(2 := demo_dir 0x1F0000) = dirs demo_spaces"
    using d(1,2) by auto
  with k d show ?thesis
    by (simp add: mm2_switch_def Let_def)
qed

theorem stale_kernel_entry_witness:
  "\<exists>a1 d2 v2 a3. mm2_switch 2 demo_spaces = Inr a1 \<and> set_table_entry 384 600 0x302003 (dirs a1 2, shared a1) = Some (Inr (d2, v2)) \<and>
     mm2_switch 1 (a1\<lparr>dirs := (dirs a1)(2 := d2), shared := v2\<rparr>) = Inr a3 \<and>
     raw_entry (dirs a3 1, shared a3) 600 = 0x302003 \<and> fst (get_table_entry 384 600 (dirs a3 1, shared a3)) = 0x301003"
proof -
  define a1 where "a1 = demo_spaces\<lparr>current_pagedir := 2\<rparr>"
  let ?s = "(dirs a1 2, shared a1)"
  have f: "directory (fst ?s) = directory (fst demo_space)" "entrycache (fst ?s) = entrycache (fst demo_space)" "snd ?s = snd demo_space"
    by (simp_all add: a1_def demo_spaces_def demo_dir_def)
  have ta: "table_addr (fst ?s) = table_addr (fst demo_space)"
    unfolding table_addr_def f(1) ..
  have "reserved ?s"
    by (rule reserved_side_change [of demo_space, OF _ _ ta]) (use demo_space_ok f(3) in \<open>simp_all add: space_ok_def\<close>)
  then have ok: "space_ok 384 ?s"
    using space_ok_cong(1) [OF demo_space_ok f(1,2)] f(3) by simp
  have p: "unat (600 :: u32) < 2 ^ 20" "unat (600 :: u32) \<noteq> 384" "table_addr (fst ?s) (unat (600 :: u32) div 1024) \<noteq> 0"
    unfolding ta by (simp_all add: demo_space_def table_addr_def MM2_Address_Mask_def)
  obtain s2 where s2: "set_table_entry 384 600 0x302003 ?s = Some (Inr s2)" "core s2 = core ?s"
    by (rule set_table_entry_present [OF ok p])
  obtain d2 v2 where dv: "s2 = (d2, v2)" by (cases s2)
  have d2: "directory_addr d2 = 0x1F0000"
    using s2(2) by (simp add: dv core_def a1_def demo_spaces_def demo_dir_def)
  have "\<exists>a3. mm2_switch 1 (a1\<lparr>dirs := (dirs a1)(2 := d2), shared := v2\<rparr>) = Inr a3"
    using d2 by (simp add: mm2_switch_def Let_def copy_kernelspace_def activate_def a1_def demo_spaces_def demo_dir_def)
  then obtain a3 where a3: "mm2_switch 1 (a1\<lparr>dirs := (dirs a1)(2 := d2), shared := v2\<rparr>) = Inr a3" ..
  have skip: "foldl (\<lambda>r e. if ce_index e = 600 \<and> ce_hits e < 1024 then ce_entry e else r) r (replicate k \<lparr>ce_index = 0, ce_entry = 0, ce_hits = 0\<rparr>) = r" for r k
    by (induction k) simp_all
  have c: "fst (entrycache_get 600 (entrycache (dirs demo_spaces 1))) = 0x301003"
    using skip by (simp add: demo_spaces_def entrycache_get_def entrycache_maxhits_def)
  from stale_kernel_entry [OF _ _ _ _ _ p(2) c _ demo_switch [folded a1_def] ok s2(1) [unfolded dv] a3] have
    "raw_entry (dirs a3 1, shared a3) 600 = 0x302003" "fst (get_table_entry 384 600 (dirs a3 1, shared a3)) = 0x301003"
    by (simp_all add: demo_spaces_def)
  with demo_switch [folded a1_def] s2(1) dv a3 show ?thesis
    by blast
qed

end
