(* ===== verification/Rtc.thy ===== *)
theory Rtc
  imports Kernel_Prelude "HOL-Library.Multiset"
begin

text \<open>
  The clock and timer extension of the kernel, src/src/kernel/rtc: conversion between the count of
  milliseconds since the year 2000 and calendar dates (convert.cpp), the timers of user programs and
  the thread that fires them (timer.cpp), and the functions offered to programs (rtc.cpp).

  Counts are 64-bit words, the fields of a date are integers. Reading the table of month lengths
  outside its thirteen entries is undefined.

  The lemmas show that the two conversions are inverse to each other on all dates that the range of the
  count allows, that the conversion to dates always returns a proper date, and that in every state that
  the timers reach each active timer has exactly one pending event, events fire in the order of their
  times, and a closed timer fires no more.
\<close>

section \<open>Calendar\<close>

(* src/src/kernel/rtc/rtc_internal.hpp:12-15 datetime *)
record datetime =
  day :: int
  month :: int
  year :: int
  hour :: int
  minute :: int
  second :: int

(* src/src/kernel/rtc/convert.cpp:3-3 epochYear *)
definition epochYear :: int where
  "epochYear = 2000"

(* src/src/kernel/rtc/convert.cpp:5-7 secondsPerDay *)
definition secondsPerDay :: u64 where
  "secondsPerDay = 60 * 60 * 24"

(* src/src/kernel/rtc/convert.cpp:9-23 secondsPerMonth *)
definition secondsPerMonth :: "int \<Rightarrow> u64 result" where
  "secondsPerMonth m =
     (if 0 \<le> m \<and> m \<le> 12
      then Inr ([0, 31, 28, 31, 30, 31, 30, 31, 31, 30, 31, 30, 31] ! nat m * secondsPerDay)
      else Inl Undefined)"

(* src/src/kernel/rtc/convert.cpp:25-27 is_leap_year *)
definition is_leap_year :: "int \<Rightarrow> bool" where
  "is_leap_year y \<longleftrightarrow> y mod 4 = 0 \<and> (y mod 100 \<noteq> 0 \<or> y mod 400 = 0)"

(* src/src/kernel/rtc/convert.cpp:29-31 seconds_in_year *)
definition seconds_in_year :: "int \<Rightarrow> u64" where
  "seconds_in_year y = (if is_leap_year y then 366 * secondsPerDay else 365 * secondsPerDay)"

(* src/src/kernel/rtc/convert.cpp:33-35 seconds_in_month *)
definition seconds_in_month :: "int \<Rightarrow> int \<Rightarrow> u64 result" where
  "seconds_in_month m y =
     bind_result (secondsPerMonth m) (\<lambda>s. Inr (if m = 2 \<and> is_leap_year y then s + secondsPerDay else s))"

(* src/src/kernel/rtc/convert.cpp:43-45 datetime2epoch *)
fun add_months :: "nat \<Rightarrow> u64 \<Rightarrow> u64 result" where
  "add_months 0 r = Inr r"
| "add_months (Suc m) r = bind_result (add_months m r) (\<lambda>r'. bind_result (secondsPerMonth (int m)) (\<lambda>s. Inr (r' + s)))"

(* src/src/kernel/rtc/convert.cpp:46-48 datetime2epoch *)
fun add_years :: "nat \<Rightarrow> u64 \<Rightarrow> u64" where
  "add_years 0 r = r"
| "add_years (Suc n) r = add_years n r + seconds_in_year (epochYear + int n)"

text \<open>A negative month is a huge count of months when it is converted to an unsigned number.\<close>

(* src/src/kernel/rtc/convert.cpp:37-51 datetime2epoch *)
definition datetime2epoch :: "datetime \<Rightarrow> u64 result" where
  "datetime2epoch dt =
     (let r = of_int (second dt) + of_int (minute dt) * 60 + of_int (hour dt) * (60 * 60) + of_int (day dt - 1) * secondsPerDay
      in if month dt < 0 then Inl Undefined
         else bind_result (add_months (nat (month dt)) r) (\<lambda>r1.
           let r2 = add_years (nat (year dt - epochYear)) r1
           in Inr ((if is_leap_year (year dt) \<and> month dt > 2 then r2 + secondsPerDay else r2) * 1000)))"

(* src/src/kernel/rtc/convert.cpp:56-59 epoch2datetime *)
function year_loop :: "u64 \<Rightarrow> int \<Rightarrow> u64 \<times> int" where
  "year_loop ep y = (if ep \<ge> seconds_in_year y then year_loop (ep - seconds_in_year y) (y + 1) else (ep, y))"
  by pat_completeness auto
termination
proof (relation "measure (\<lambda>(ep, y). unat ep)", goal_cases)
  case (2 ep y)
  then show ?case
    by (auto simp: seconds_in_year_def secondsPerDay_def word_le_nat_alt unat_sub split: if_splits)
qed simp

(* src/src/kernel/rtc/convert.cpp:60-63 epoch2datetime *)
function month_loop :: "u64 \<Rightarrow> int \<Rightarrow> int \<Rightarrow> (u64 \<times> int) result" where
  "month_loop ep m y =
     (case seconds_in_month m y of
        Inl e \<Rightarrow> Inl e
      | Inr s \<Rightarrow> if ep \<ge> s then month_loop (ep - s) (m + 1) y else Inr (ep, m))"
  by pat_completeness auto
termination
proof (relation "measure (\<lambda>(ep, m, y). nat (13 - m))", goal_cases)
  case (2 ep m y)
  then show ?case
    by (auto simp: seconds_in_month_def secondsPerMonth_def bind_result_def split: if_splits)
qed simp

text \<open>The loops for days, hours and minutes.\<close>

(* src/src/kernel/rtc/convert.cpp:64-75 epoch2datetime *)
function unit_loop :: "u64 \<Rightarrow> u64 \<Rightarrow> int \<Rightarrow> u64 \<times> int" where
  "unit_loop u ep n = (if u \<noteq> 0 \<and> ep \<ge> u then unit_loop u (ep - u) (n + 1) else (ep, n))"
  by pat_completeness auto
termination
proof (relation "measure (\<lambda>(u, ep, n). unat ep)", goal_cases)
  case (2 u ep n)
  then show ?case
    by (auto simp: word_le_nat_alt unat_sub word_neq_0_conv unat_gt_0 intro!: diff_less elim: order.strict_trans2 [rotated])
qed simp

declare year_loop.simps [simp del] month_loop.simps [simp del] unit_loop.simps [simp del]

(* src/src/kernel/rtc/convert.cpp:53-78 epoch2datetime *)
definition epoch2datetime :: "u64 \<Rightarrow> datetime result" where
  "epoch2datetime ep =
     (let (ep1, y) = year_loop (ep div 1000) epochYear
      in bind_result (month_loop ep1 0 y) (\<lambda>(ep2, m).
           let (ep3, d) = unit_loop secondsPerDay ep2 1;
               (ep4, h) = unit_loop (60 * 60) ep3 0;
               (ep5, mi) = unit_loop 60 ep4 0
           in Inr \<lparr>day = d, month = m, year = y, hour = h, minute = mi, second = uint ep5\<rparr>))"


section \<open>Reference calendar\<close>

text \<open>The same calendar over natural numbers: lengths in seconds and the seconds before a date.\<close>

definition month_secs :: "nat \<Rightarrow> int \<Rightarrow> nat" where
  "month_secs m y =
     ([0, 31, 28, 31, 30, 31, 30, 31, 31, 30, 31, 30, 31] ! m + (if m = 2 \<and> is_leap_year y then 1 else 0)) * 86400"

definition year_secs :: "int \<Rightarrow> nat" where
  "year_secs y = (if is_leap_year y then 366 else 365) * 86400"

primrec months_before :: "nat \<Rightarrow> int \<Rightarrow> nat" where
  "months_before 0 y = 0"
| "months_before (Suc m) y = months_before m y + month_secs m y"

primrec years_before :: "nat \<Rightarrow> int \<Rightarrow> nat" where
  "years_before 0 y = 0"
| "years_before (Suc n) y = years_before n y + year_secs (y + int n)"

definition valid_datetime :: "datetime \<Rightarrow> bool" where
  "valid_datetime dt \<longleftrightarrow>
     epochYear \<le> year dt \<and> 1 \<le> month dt \<and> month dt \<le> 12 \<and>
     1 \<le> day dt \<and> nat (day dt) * 86400 \<le> month_secs (nat (month dt)) (year dt) \<and>
     0 \<le> hour dt \<and> hour dt < 24 \<and> 0 \<le> minute dt \<and> minute dt < 60 \<and> 0 \<le> second dt \<and> second dt < 60"

definition day_secs :: "datetime \<Rightarrow> nat" where
  "day_secs dt = nat (second dt) + 60 * nat (minute dt) + 3600 * nat (hour dt)"

definition seconds_since_epoch :: "datetime \<Rightarrow> nat" where
  "seconds_since_epoch dt =
     years_before (nat (year dt - epochYear)) epochYear + months_before (nat (month dt)) (year dt)
     + nat (day dt - 1) * 86400 + day_secs dt"

lemma nat_le_12_cases:
  assumes "(m::nat) \<le> 12"
  shows "m = 0 \<or> m = 1 \<or> m = 2 \<or> m = 3 \<or> m = 4 \<or> m = 5 \<or> m = 6 \<or> m = 7 \<or> m = 8 \<or> m = 9 \<or> m = 10 \<or> m = 11 \<or> m = 12"
  using assms by arith

lemma seconds_in_month_ref:
  assumes "m \<le> 12"
  shows "seconds_in_month (int m) y = Inr (of_nat (month_secs m y))"
  using nat_le_12_cases [OF assms]
  by (elim disjE) (simp_all add: seconds_in_month_def secondsPerMonth_def month_secs_def secondsPerDay_def)

lemma secondsPerMonth_ref:
  assumes "m \<le> 12"
  shows "secondsPerMonth (int m) = Inr (of_nat (month_secs m 1))"
  using nat_le_12_cases [OF assms]
  by (elim disjE) (simp_all add: secondsPerMonth_def month_secs_def secondsPerDay_def is_leap_year_def)

lemma month_secs_bound:
  assumes "m \<le> 12"
  shows "month_secs m y \<le> 31 * 86400"
  using nat_le_12_cases [OF assms] by (elim disjE) (simp_all add: month_secs_def)

lemma month_secs_positive:
  assumes "0 < m" "m \<le> 12"
  shows "28 * 86400 \<le> month_secs m y"
  using nat_le_12_cases [OF assms(2)] assms(1) by (elim disjE) (simp_all add: month_secs_def)

lemma months_before_13: "months_before 13 y = year_secs y"
proof -
  have "(13::nat) = Suc (Suc (Suc (Suc (Suc (Suc (Suc (Suc (Suc (Suc (Suc (Suc (Suc 0))))))))))))"
    by simp
  then show ?thesis
    by (simp only: months_before.simps) (simp add: month_secs_def year_secs_def)
qed

lemma months_before_mono: "m \<le> n \<Longrightarrow> months_before m y \<le> months_before n y"
  by (induction n) (auto simp: le_Suc_eq)

lemma months_before_leap:
  assumes "m \<le> 13"
  shows "months_before m y = months_before m 1 + (if is_leap_year y \<and> 2 < m then 86400 else 0)"
  using assms
proof (induction m)
  case (Suc m)
  have "month_secs m y = month_secs m 1 + (if is_leap_year y \<and> m = 2 then 86400 else 0)"
    by (simp add: month_secs_def is_leap_year_def [of 1])
  then show ?case
    using Suc by (cases "is_leap_year y") (auto simp: less_Suc_eq)
qed simp

lemma seconds_in_year_ref: "seconds_in_year y = of_nat (year_secs y)"
  by (simp add: seconds_in_year_def year_secs_def secondsPerDay_def)

lemma unat_small_u64: "n < 2 ^ 64 \<Longrightarrow> unat (of_nat n :: u64) = n"
  by (simp add: unat_of_nat take_bit_nat_eq_self_iff)

lemma u64_of_unat: "unat (ep::u64) = r \<Longrightarrow> of_nat r = ep"
  by auto

lemma year_secs_bounds: "31536000 \<le> year_secs y" "year_secs y \<le> 31622400"
  by (simp_all add: year_secs_def)

lemma unat_seconds_in_year: "unat (seconds_in_year y) = year_secs y"
  using year_secs_bounds [of y] by (simp only: seconds_in_year_ref) (rule unat_small_u64, simp)

lemma add_months_ref:
  assumes "m \<le> 13"
  shows "add_months m r = Inr (r + of_nat (months_before m 1))"
  using assms by (induction m) (simp_all add: secondsPerMonth_ref algebra_simps)

lemma add_years_ref: "add_years n r = r + of_nat (years_before n epochYear)"
  by (induction n) (simp_all add: seconds_in_year_ref algebra_simps)

lemma years_before_shift: "years_before (Suc n) y = year_secs y + years_before n (y + 1)"
  by (induction n arbitrary: y) (simp_all add: algebra_simps)

lemma years_before_le: "years_before n y \<le> n * 31622400"
proof (induction n)
  case (Suc n)
  then show ?case
    using year_secs_bounds(2) [of "y + int n"] by simp
qed simp


section \<open>The loops compute the calendar\<close>

lemma year_loop_hit: "year_secs y \<le> unat ep \<Longrightarrow> year_loop ep y = year_loop (ep - seconds_in_year y) (y + 1)"
  by (subst year_loop.simps) (simp add: word_le_nat_alt unat_seconds_in_year)

lemma year_loop_stop: "unat ep < year_secs y \<Longrightarrow> year_loop ep y = (ep, y)"
  by (subst year_loop.simps) (simp add: word_le_nat_alt unat_seconds_in_year)

lemma unat_minus_year: "year_secs y \<le> unat ep \<Longrightarrow> unat (ep - seconds_in_year y) = unat ep - year_secs y"
  by (simp add: unat_sub word_le_nat_alt unat_seconds_in_year)

lemma year_loop_add:
  assumes "unat ep = years_before n y + r" "r < year_secs (y + int n)"
  shows "year_loop ep y = (of_nat r, y + int n)"
  using assms
proof (induction n arbitrary: ep y)
  case 0
  then show ?case
    using u64_of_unat [of ep r] by (simp add: year_loop_stop)
next
  case (Suc n)
  then have a: "unat ep = year_secs y + (years_before n (y + 1) + r)"
    by (simp add: years_before_shift del: years_before.simps)
  then have b: "unat (ep - seconds_in_year y) = years_before n (y + 1) + r"
    by (simp add: unat_minus_year)
  show ?case
    using Suc.IH [OF b] Suc.prems(2) a by (simp add: year_loop_hit algebra_simps)
qed

lemma year_split:
  "\<exists>n r. unat (ep::u64) = years_before n y + r \<and> r < year_secs (y + int n)"
proof (induction "unat ep" arbitrary: ep y rule: less_induct)
  case less
  show ?case
  proof (cases "year_secs y \<le> unat ep")
    case True
    then have a: "unat (ep - seconds_in_year y) = unat ep - year_secs y"
      by (rule unat_minus_year)
    then have "unat (ep - seconds_in_year y) < unat ep"
      using year_secs_bounds(1) [of y] True by simp
    from less [OF this, of "y + 1"] obtain n r
      where "unat ep - year_secs y = years_before n (y + 1) + r" "r < year_secs (y + 1 + int n)"
      unfolding a by blast
    then have "unat ep = years_before (Suc n) y + r" "r < year_secs (y + int (Suc n))"
      using True by (simp_all add: years_before_shift algebra_simps del: years_before.simps)
    then show ?thesis
      by blast
  next
    case False
    then show ?thesis
      by (intro exI [of _ 0] exI [of _ "unat ep"]) simp
  qed
qed

lemma month_secs_le_iff:
  assumes "m \<le> 12"
  shows "of_nat (month_secs m y) \<le> (ep::u64) \<longleftrightarrow> month_secs m y \<le> unat ep"
proof -
  have "unat (of_nat (month_secs m y) :: u64) = month_secs m y"
    by (rule unat_small_u64) (rule le_less_trans [OF month_secs_bound [OF assms]], simp)
  then show ?thesis
    by (simp only: word_le_nat_alt)
qed

lemma month_loop_hit:
  assumes "m \<le> 12" "month_secs m y \<le> unat ep"
  shows "month_loop ep (int m) y = month_loop (ep - of_nat (month_secs m y)) (int (Suc m)) y"
  unfolding month_loop.simps [of ep "int m" y] seconds_in_month_ref [OF assms(1)] sum.case
    month_secs_le_iff [OF assms(1)] of_nat_Suc
  using assms(2) by (simp only: if_True add.commute)

lemma month_loop_stop:
  assumes "m \<le> 12" "unat ep < month_secs m y"
  shows "month_loop ep (int m) y = Inr (ep, int m)"
  unfolding month_loop.simps [of ep "int m" y] seconds_in_month_ref [OF assms(1)] sum.case
    month_secs_le_iff [OF assms(1)]
  using assms(2) by simp

lemma unat_minus_month:
  assumes "m \<le> 12" "month_secs m y \<le> unat (ep::u64)"
  shows "unat (ep - of_nat (month_secs m y)) = unat ep - month_secs m y"
proof -
  have "unat (of_nat (month_secs m y) :: u64) = month_secs m y"
    by (rule unat_small_u64) (rule le_less_trans [OF month_secs_bound [OF assms(1)]], simp)
  then show ?thesis
    using assms by (simp add: unat_sub month_secs_le_iff)
qed

lemma month_loop_skip:
  assumes "k \<le> m" "m \<le> 12" "unat ep = months_before m y - months_before k y + r" "r < month_secs m y"
  shows "month_loop ep (int k) y = Inr (of_nat r, int m)"
  using assms
proof (induction "m - k" arbitrary: k ep)
  case 0
  then show ?case
    using u64_of_unat [of ep r] by (simp add: month_loop_stop)
next
  case (Suc d)
  then have k: "k < m" "k \<le> 12" "Suc k \<le> m" "d = m - Suc k"
    by simp_all
  have le: "months_before (Suc k) y \<le> months_before m y"
    by (rule months_before_mono [OF k(3)])
  then have a: "unat ep = month_secs k y + (months_before m y - months_before (Suc k) y + r)"
    using Suc.prems(3) by simp
  then have hit: "month_secs k y \<le> unat ep"
    by simp
  have b: "unat (ep - of_nat (month_secs k y)) = months_before m y - months_before (Suc k) y + r"
    using unat_minus_month [OF k(2) hit] a by simp
  show ?case
    using month_loop_hit [OF k(2) hit] Suc.hyps(1) [OF k(4) k(3) Suc.prems(2) b Suc.prems(4)] by simp
qed

lemma month_split:
  assumes "s < year_secs y"
  shows "\<exists>m r. 1 \<le> m \<and> m \<le> 12 \<and> s = months_before m y + r \<and> r < month_secs m y"
proof -
  have "\<exists>m \<le> n. s = months_before m y + (s - months_before m y) \<and> s - months_before m y < month_secs m y"
    if "s < months_before (Suc n) y" for n
    using that
  proof (induction n)
    case (Suc n)
    show ?case
    proof (cases "s < months_before (Suc n) y")
      case True
      then show ?thesis
        using Suc.IH [OF True] le_SucI by blast
    next
      case False
      then show ?thesis
        using Suc.prems by (intro exI [of _ "Suc n"]) simp
    qed
  qed simp
  moreover have "s < months_before (Suc 12) y"
    using assms by (simp add: months_before_13 del: months_before.simps)
  ultimately obtain m where m: "m \<le> 12" "s = months_before m y + (s - months_before m y)"
    "s - months_before m y < month_secs m y"
    by blast
  moreover have "m \<noteq> 0"
    using m(3) by (cases m) (simp_all add: month_secs_def)
  ultimately show ?thesis
    by (intro exI [of _ m] exI [of _ "s - months_before m y"]) simp
qed

lemma unit_loop_ref:
  assumes "u \<noteq> 0"
  shows "unit_loop u ep n = (ep mod u, n + int (unat ep div unat u))"
  using assms
proof (induction u ep n rule: unit_loop.induct)
  case (1 u ep n)
  have u: "0 < unat u"
    using 1(2) by (simp add: unat_gt_0)
  show ?case
  proof (cases "u \<le> ep")
    case True
    then have le: "unat u \<le> unat ep"
      by (simp add: word_le_nat_alt)
    have d: "unat (ep - u) = unat ep - unat u"
      using True by (simp add: unat_sub)
    have "(ep - u) mod u = ep mod u"
      using le by (simp add: word_unat_eq_iff unat_mod d le_mod_geq [symmetric])
    then show ?thesis
      using 1(1) [OF _ 1(2)] True 1(2) le u
      by (subst unit_loop.simps) (simp add: d le_div_geq)
  next
    case False
    then have "unat ep < unat u"
      by (simp add: word_le_nat_alt)
    then show ?thesis
      using False by (subst unit_loop.simps) (simp add: word_unat_eq_iff unat_mod)
  qed
qed


section \<open>The two conversions are inverse\<close>

lemma u64_of_nat_mod:
  assumes "a < 2 ^ 64"
  shows "(of_nat a :: u64) mod u = of_nat (a mod unat u)"
  using assms by (simp add: word_unat_eq_iff unat_mod unat_small_u64 less_le_trans [OF le_less_trans [OF mod_less_eq_dividend]])

lemma day_secs_less: "valid_datetime dt \<Longrightarrow> day_secs dt < 86400"
  unfolding valid_datetime_def day_secs_def by linarith

lemma datetime2epoch_exact:
  assumes v: "valid_datetime dt"
  shows "datetime2epoch dt = Inr (of_nat (1000 * seconds_since_epoch dt))"
proof -
  have r: "1 \<le> month dt" "month dt \<le> 12" "1 \<le> day dt" "0 \<le> hour dt" "0 \<le> minute dt" "0 \<le> second dt"
    using v by (simp_all add: valid_datetime_def)
  have m: "nat (month dt) \<le> 13" "2 < nat (month dt) \<longleftrightarrow> 2 < month dt"
    using r by linarith+
  have leap: "(if is_leap_year (year dt) \<and> 2 < month dt then x + secondsPerDay else x)
      = x + of_nat (if is_leap_year (year dt) \<and> 2 < nat (month dt) then 86400 else 0)" for x
    by (simp add: secondsPerDay_def m(2))
  have small: "of_int (second dt) + of_int (minute dt) * 60 + of_int (hour dt) * (60 * 60) + of_int (day dt - 1) * secondsPerDay
      = (of_nat (day_secs dt + nat (day dt - 1) * 86400) :: u64)"
    using r by (simp add: day_secs_def secondsPerDay_def algebra_simps)
  have "datetime2epoch dt
      = Inr ((of_nat (day_secs dt + nat (day dt - 1) * 86400) + of_nat (months_before (nat (month dt)) 1)
              + of_nat (years_before (nat (year dt - epochYear)) epochYear)
              + of_nat (if is_leap_year (year dt) \<and> 2 < nat (month dt) then 86400 else 0)) * 1000)"
    using r(1) unfolding datetime2epoch_def small leap Let_def add_months_ref [OF m(1)]
    by (simp only: bind_result_simps add_years_ref) simp
  also have "\<dots> = Inr (of_nat (1000 * seconds_since_epoch dt))"
    unfolding seconds_since_epoch_def months_before_leap [OF m(1), of "year dt"]
    by (simp add: algebra_simps)
  finally show ?thesis .
qed

lemma epoch2datetime_exact:
  assumes v: "valid_datetime dt" and ep: "unat ep div 1000 = seconds_since_epoch dt"
  shows "epoch2datetime ep = Inr dt"
proof -
  define n where "n = nat (year dt - epochYear)"
  define m where "m = nat (month dt)"
  define d where "d = nat (day dt - 1)"
  have r: "epochYear \<le> year dt" "1 \<le> month dt" "month dt \<le> 12" "1 \<le> day dt" "0 \<le> hour dt" "hour dt < 24"
    "0 \<le> minute dt" "minute dt < 60" "0 \<le> second dt" "second dt < 60"
    and dm: "nat (day dt) * 86400 \<le> month_secs m (year dt)"
    using v by (simp_all add: valid_datetime_def m_def)
  have n: "epochYear + int n = year dt" and m: "int m = month dt" "m \<le> 12" and d: "nat (day dt) = Suc d" "1 + int d = day dt"
    using r by (simp_all add: n_def m_def d_def)
  note small = day_secs_less [OF v]
  define r2 where "r2 = d * 86400 + day_secs dt"
  have r2: "r2 < month_secs m (year dt)"
    using dm small by (simp add: d r2_def)
  have "months_before (Suc m) (year dt) \<le> months_before 13 (year dt)"
    using m(2) by (intro months_before_mono) simp
  then have r1: "months_before m (year dt) + r2 < year_secs (epochYear + int n)"
    using r2 by (simp add: n months_before_13)
  have "unat (ep div 1000) = years_before n epochYear + (months_before m (year dt) + r2)"
    using ep by (simp add: unat_div seconds_since_epoch_def n_def m_def d_def r2_def)
  from year_loop_add [OF this r1]
  have y: "year_loop (ep div 1000) epochYear = (of_nat (months_before m (year dt) + r2), year dt)"
    by (simp add: n)
  have big: "months_before m (year dt) + r2 < 2 ^ 64" "r2 < 2 ^ 64"
    using r1 year_secs_bounds(2) [of "year dt"] by (simp_all add: n)
  have mo: "month_loop (of_nat (months_before m (year dt) + r2)) 0 (year dt) = Inr (of_nat r2, month dt)"
    using month_loop_skip [of 0 m "of_nat (months_before m (year dt) + r2)" "year dt" r2] r2 m
      unat_small_u64 [OF big(1)] by simp
  have di: "of_nat r2 mod secondsPerDay = (of_nat (day_secs dt) :: u64)" "unat (of_nat r2 :: u64) div unat secondsPerDay = d"
    using small unat_small_u64 [OF big(2)]
    by (simp_all add: word_unat_eq_iff unat_mod secondsPerDay_def unat_small_u64 r2_def)
  have lt3: "nat (second dt) + 60 * nat (minute dt) < 3600" "nat (second dt) < 60"
    using r by linarith+
  have lt: "day_secs dt < 2 ^ 64" "nat (second dt) + 60 * nat (minute dt) < 2 ^ 64"
    by (rule less_trans [OF small], simp) (rule less_trans [OF lt3(1)], simp)
  have q: "day_secs dt mod 3600 = nat (second dt) + 60 * nat (minute dt)" "day_secs dt div 3600 = nat (hour dt)"
    "(nat (second dt) + 60 * nat (minute dt)) mod 60 = nat (second dt)"
    "(nat (second dt) + 60 * nat (minute dt)) div 60 = nat (minute dt)"
    using lt3 unfolding day_secs_def by simp_all
  have h: "of_nat (day_secs dt) mod 3600 = (of_nat (nat (second dt) + 60 * nat (minute dt)) :: u64)"
    "unat (of_nat (day_secs dt) :: u64) div 3600 = nat (hour dt)"
    unfolding u64_of_nat_mod [OF lt(1)] unat_small_u64 [OF lt(1)] by (simp_all add: q)
  have mi: "of_nat (nat (second dt) + 60 * nat (minute dt)) mod 60 = (of_nat (nat (second dt)) :: u64)"
    "unat (of_nat (nat (second dt) + 60 * nat (minute dt)) :: u64) div 60 = nat (minute dt)"
    unfolding u64_of_nat_mod [OF lt(2)] unat_small_u64 [OF lt(2)] using lt3 by (simp_all add: q)
  have sec: "nat (second dt) < 2 ^ 64"
    using r by simp
  have s: "uint (of_nat (nat (second dt)) :: u64) = second dt"
    unfolding uint_nat unat_small_u64 [OF sec] using r by simp
  have nz: "secondsPerDay \<noteq> 0"
    by (simp add: secondsPerDay_def)
  have hrs: "(60 * 60 :: u64) = 3600" "(3600::u64) \<noteq> 0" "(60::u64) \<noteq> 0" "unat (3600::u64) = 3600" "unat (60::u64) = 60"
    by simp_all
  have u: "unit_loop secondsPerDay (of_nat r2) 1 = (of_nat (day_secs dt), day dt)"
    "unit_loop (60 * 60) (of_nat (day_secs dt)) 0 = (of_nat (nat (second dt) + 60 * nat (minute dt)), hour dt)"
    "unit_loop 60 (of_nat (nat (second dt) + 60 * nat (minute dt))) 0 = (of_nat (nat (second dt)), minute dt)"
    unfolding unit_loop_ref [OF nz] di hrs(1) unit_loop_ref [OF hrs(2)] unit_loop_ref [OF hrs(3)] hrs(4,5) h mi
    using r d by simp_all
  show ?thesis
    unfolding epoch2datetime_def y Let_def prod.case mo bind_result_simps u s by simp
qed

lemma some_datetime:
  "\<exists>dt. valid_datetime dt \<and> unat (ep::u64) div 1000 = seconds_since_epoch dt"
proof -
  obtain n r1 where y: "unat (ep div 1000) = years_before n epochYear + r1" "r1 < year_secs (epochYear + int n)"
    using year_split by blast
  obtain m r2 where m: "1 \<le> m" "m \<le> 12" "r1 = months_before m (epochYear + int n) + r2" "r2 < month_secs m (epochYear + int n)"
    using month_split [OF y(2)] by blast
  define dt where "dt = \<lparr>day = int (r2 div 86400) + 1, month = int m, year = epochYear + int n,
    hour = int (r2 mod 86400 div 3600), minute = int (r2 mod 3600 div 60), second = int (r2 mod 60)\<rparr>"
  have ds: "day_secs dt = r2 mod 86400"
  proof -
    have "r2 mod 86400 = 3600 * (r2 mod 86400 div 3600) + r2 mod 86400 mod 3600"
      by simp
    moreover have "r2 mod 86400 mod 3600 = r2 mod 3600"
      by (rule mod_mod_cancel) simp
    moreover have "r2 mod 3600 = 60 * (r2 mod 3600 div 60) + r2 mod 3600 mod 60"
      by simp
    moreover have "r2 mod 3600 mod 60 = r2 mod 60"
      by (rule mod_mod_cancel) simp
    ultimately show ?thesis
      unfolding day_secs_def dt_def datetime.simps nat_int by linarith
  qed
  have dvd: "\<exists>k. month_secs m (epochYear + int n) = k * 86400"
    unfolding month_secs_def by blast
  then have "(r2 div 86400 + 1) * 86400 \<le> month_secs m (epochYear + int n)"
    using m(4) less_mult_imp_div_less [of r2 _ 86400] by (metis Suc_eq_plus1 Suc_leI mult_le_mono1)
  then have "valid_datetime dt"
    using m by (auto simp: valid_datetime_def dt_def nat_add_distrib)
  moreover have "unat ep div 1000 = seconds_since_epoch dt"
    using y(1) m ds by (simp add: seconds_since_epoch_def dt_def unat_div)
  ultimately show ?thesis
    by blast
qed

text \<open>C20. 
  A proper date of the years 2000 to 500000000 converts to a count of milliseconds from which exactly the
  date comes back: no step of either conversion overflows or reads outside the table of months.
\<close>

theorem date_roundtrip:
  assumes "valid_datetime dt" and "year dt \<le> 500000000"
  shows "\<exists>ep. datetime2epoch dt = Inr ep \<and> epoch2datetime ep = Inr dt"
proof -
  define n where "n = nat (year dt - epochYear)"
  have "nat (day dt) * 86400 \<le> month_secs (nat (month dt)) (year dt)" "nat (month dt) \<le> 12" "1 \<le> day dt"
    using assms(1) unfolding valid_datetime_def by linarith+
  then have "nat (day dt - 1) * 86400 + day_secs dt < 31 * 86400"
    using month_secs_bound [of "nat (month dt)" "year dt"] day_secs_less [OF assms(1)] by linarith
  moreover have "months_before (nat (month dt)) (year dt) \<le> year_secs (year dt)"
    using months_before_mono [of "nat (month dt)" 13 "year dt"] \<open>nat (month dt) \<le> 12\<close> by (simp add: months_before_13)
  moreover have "years_before n epochYear \<le> 500000000 * 31622400"
    using years_before_le [of n epochYear] assms(2) by (simp add: n_def epochYear_def)
  ultimately have "seconds_since_epoch dt < 18446744073709551"
    using year_secs_bounds(2) [of "year dt"] unfolding seconds_since_epoch_def n_def [symmetric] by simp
  then have "unat (of_nat (1000 * seconds_since_epoch dt) :: u64) = 1000 * seconds_since_epoch dt"
    by (intro unat_small_u64) simp
  then show ?thesis
    using datetime2epoch_exact [OF assms(1)] epoch2datetime_exact [OF assms(1), of "of_nat (1000 * seconds_since_epoch dt)"]
    by simp
qed

theorem date_roundtrip_witness:
  "\<exists>ep. datetime2epoch \<lparr>day = 29, month = 2, year = 2024, hour = 23, minute = 59, second = 59\<rparr> = Inr ep \<and>
     epoch2datetime ep = Inr \<lparr>day = 29, month = 2, year = 2024, hour = 23, minute = 59, second = 59\<rparr>"
  by (rule date_roundtrip) (simp_all add: valid_datetime_def epochYear_def month_secs_def is_leap_year_def)

text \<open>C21. 
  Every count of milliseconds whatever converts to a proper date: all loops end, the table of months is
  never read outside its bounds, and converting the date back gives the count rounded down to a second.
\<close>

theorem epoch_roundtrip:
  "\<exists>dt. epoch2datetime ep = Inr dt \<and> valid_datetime dt \<and> datetime2epoch dt = Inr (ep - ep mod 1000)"
proof -
  obtain dt where dt: "valid_datetime dt" "unat ep div 1000 = seconds_since_epoch dt"
    using some_datetime by blast
  have "of_nat (1000 * (unat ep div 1000)) = ep - ep mod 1000"
    by (simp add: minus_mod_eq_mult_div word_unat_eq_iff unat_div) (simp add: unat_word_ariths unat_div unat_of_nat take_bit_eq_mod)
  then show ?thesis
    using epoch2datetime_exact [OF dt] datetime2epoch_exact [OF dt(1)] dt by (intro exI [of _ dt]) simp
qed


section \<open>Timers\<close>

text \<open>
  An event lives at an address, \<open>te_ptr\<close>; \<open>next_event\<close> and the search of the thread compare addresses.
\<close>

(* src/src/kernel/rtc/timer.cpp:8-13 timer_event *)
record timer_event =
  te_ptr :: nat
  te_pid :: u64
  te_time :: u64
  te_timer_id :: u64
  te_cancel :: bool

(* src/src/kernel/rtc/timer.cpp:15-21 timer_info *)
record timer_info =
  ti_timer_id :: u64
  ti_handle_id :: u32
  ti_pid :: u64
  ti_duration :: u64
  ti_active :: bool

text \<open>
  \<open>sent\<close> is the list of messages passed to the message manager, as recipient and handle;
  \<open>fresh_ptr\<close> is the next address that \<open>new\<close> returns.
\<close>

(* src/src/kernel/rtc/timer.cpp:5-26 timer_lock *)
record timer_state =
  timer_id_counter :: u64
  events :: "timer_event list"
  timers :: "u64 \<Rightarrow> timer_info option"
  next_event :: "nat option"
  sent :: "(u64 \<times> u32) list"
  fresh_ptr :: nat

(* src/src/kernel/rtc/timer.cpp:91-97 init_timer *)
definition init_timer :: timer_state where
  "init_timer = \<lparr>timer_id_counter = 0, events = [], timers = (\<lambda>_. None), next_event = None, sent = [], fresh_ptr = 1\<rparr>"

(* src/src/kernel/rtc/timer.cpp:28-35 events_blockcheck *)
definition events_blockcheck :: "timer_state \<Rightarrow> bool" where
  "events_blockcheck s \<longleftrightarrow> length (events s) > 0"

definition event_at :: "nat \<Rightarrow> timer_event list \<Rightarrow> timer_event option" where
  "event_at p es = List.find (\<lambda>e. te_ptr e = p) es"

(* src/src/kernel/rtc/timer.cpp:37-44 next_event_blockcheck *)
definition next_event_blockcheck :: "u64 \<Rightarrow> timer_state \<Rightarrow> bool" where
  "next_event_blockcheck now s =
     (case next_event s of
        None \<Rightarrow> False
      | Some p \<Rightarrow> (case event_at p (events s) of None \<Rightarrow> False | Some e \<Rightarrow> now \<ge> te_time e))"

(* src/src/kernel/rtc/timer.cpp:49-55 update_next_event *)
fun update_loop :: "timer_event list \<Rightarrow> nat option \<Rightarrow> u64 \<Rightarrow> nat option" where
  "update_loop [] next t = next"
| "update_loop (e # es) next t = (if te_time e < t then update_loop es (Some (te_ptr e)) (te_time e) else update_loop es next t)"

(* src/src/kernel/rtc/timer.cpp:46-56 update_next_event *)
definition update_next_event :: "timer_state \<Rightarrow> timer_state" where
  "update_next_event s = s\<lparr>next_event := update_loop (events s) None (- 1)\<rparr>"

text \<open>One round of the timer thread, from taking the lock to releasing it.\<close>

(* src/src/kernel/rtc/timer.cpp:64-87 timer_thread *)
definition timer_thread :: "timer_state \<Rightarrow> timer_state result" where
  "timer_thread s =
     (case next_event s of
        None \<Rightarrow> Inr (update_next_event s)
      | Some p \<Rightarrow>
          (case event_at p (events s) of
             None \<Rightarrow> Inl Undefined
           | Some e \<Rightarrow>
               bind_result
                 (if te_cancel e then Inr s
                  else case timers s (te_timer_id e) of
                         None \<Rightarrow> Inl Undefined
                       | Some t \<Rightarrow> Inr (s\<lparr>timers := (timers s)(te_timer_id e \<mapsto> t\<lparr>ti_active := False\<rparr>),
                                          sent := sent s @ [(te_pid e, ti_handle_id t)]\<rparr>))
                 (\<lambda>s1. Inr (update_next_event (s1\<lparr>events := filter (\<lambda>e. te_ptr e \<noteq> p) (events s1)\<rparr>)))))"

(* src/src/kernel/rtc/timer.cpp:99-108 close_timer *)
definition close_timer :: "u64 \<Rightarrow> timer_state \<Rightarrow> timer_state" where
  "close_timer tid s =
     s\<lparr>events := map (\<lambda>e. if te_timer_id e = tid then e\<lparr>te_cancel := True\<rparr> else e) (events s),
       timers := (timers s)(tid := None)\<rparr>"

text \<open>The handle is the number under which the process's handle table stores the timer.\<close>

(* src/src/kernel/rtc/timer.cpp:110-122 create_timer *)
definition create_timer :: "u32 \<Rightarrow> u64 \<Rightarrow> u32 \<Rightarrow> timer_state \<Rightarrow> timer_state" where
  "create_timer dur pid handle s =
     (let tid = timer_id_counter s + 1
      in s\<lparr>timer_id_counter := tid,
           timers := (timers s)(tid \<mapsto> \<lparr>ti_timer_id = tid, ti_handle_id = handle, ti_pid = pid,
                                        ti_duration = ucast dur, ti_active = False\<rparr>)\<rparr>)"

(* src/src/kernel/rtc/timer.cpp:124-141 reset_timer *)
definition reset_timer :: "u64 \<Rightarrow> u64 \<Rightarrow> u64 \<Rightarrow> timer_state \<Rightarrow> timer_state result" where
  "reset_timer now pid tid s =
     (case timers s tid of
        None \<Rightarrow> Inl Undefined
      | Some t \<Rightarrow>
          if ti_active t then Inr s
          else Inr (update_next_event
                 (s\<lparr>timers := (timers s)(tid \<mapsto> t\<lparr>ti_active := True\<rparr>),
                    events := events s @ [\<lparr>te_ptr = fresh_ptr s, te_pid = pid, te_time = now + ti_duration t,
                                          te_timer_id = ti_timer_id t, te_cancel = False\<rparr>],
                    fresh_ptr := fresh_ptr s + 1\<rparr>)))"

section \<open>Programs' view of the clock\<close>

(* src/src/kernel/rtc/device.cpp:14-18 get_msecs *)
definition get_msecs :: "(u64 \<times> u64) option \<Rightarrow> u64" where
  "get_msecs timer = (case timer of None \<Rightarrow> 0 | Some (millis, time) \<Rightarrow> millis)"

(* src/src/kernel/rtc/device.cpp:20-25 current_datetime *)
definition current_datetime :: "(u64 \<times> u64) option \<Rightarrow> datetime result" where
  "current_datetime timer =
     (case timer of
        None \<Rightarrow> Inr \<lparr>day = 0, month = 0, year = 0, hour = 0, minute = 0, second = 0\<rparr>
      | Some (millis, time) \<Rightarrow> epoch2datetime time)"

(* src/src/kernel/rtc/device.cpp:27-32 rtc_configure *)
definition rtc_configure :: "(u64 \<times> u64) option \<Rightarrow> u64 \<Rightarrow> u64" where
  "rtc_configure timer boot_msec = (case timer of None \<Rightarrow> boot_msec | Some (millis, time) \<Rightarrow> time)"

(* src/src/kernel/rtc/rtc.cpp:8-13 rtc_sleep *)
definition rtc_sleep_blockcheck :: "u64 \<Rightarrow> u32 \<Rightarrow> u64 \<Rightarrow> bool" where
  "rtc_sleep_blockcheck start msec now \<longleftrightarrow> now - start \<ge> ucast msec"

(* src/src/kernel/rtc/rtc.cpp:19-21 rtc_get_time *)
definition rtc_get_time :: "(u64 \<times> u64) option \<Rightarrow> u64 \<Rightarrow> u64" where
  "rtc_get_time timer boot_msec = get_msecs timer + boot_msec"

datatype rtc_call = Sleep u32 | Millis | CreateTimer u32 u32 | ResetTimer "u64 option" | GetTime | OtherCall

datatype rtc_reply = Done | Value64 u64 | SleepsUntil u64 u32

text \<open>
  A call carries its decoded arguments: the handle number that the process's table gives out for a new
  timer, and the timer behind the handle of a reset, if the handle is that of a timer.
\<close>

(* src/src/kernel/rtc/rtc.cpp:25-48 rtc_uapi *)
definition rtc_uapi :: "(u64 \<times> u64) option \<Rightarrow> u64 \<Rightarrow> u64 \<Rightarrow> rtc_call \<Rightarrow> timer_state \<Rightarrow> (rtc_reply \<times> timer_state) result" where
  "rtc_uapi timer boot_msec pid c s =
     (case c of
        Sleep msec \<Rightarrow> Inr (SleepsUntil (get_msecs timer) msec, s)
      | Millis \<Rightarrow> Inr (Value64 (get_msecs timer), s)
      | CreateTimer dur handle \<Rightarrow> Inr (Done, create_timer dur pid handle s)
      | ResetTimer None \<Rightarrow> Inr (Done, s)
      | ResetTimer (Some tid) \<Rightarrow> bind_result (reset_timer (get_msecs timer) pid tid s) (\<lambda>s'. Inr (Done, s'))
      | GetTime \<Rightarrow> Inr (Value64 (rtc_get_time timer boot_msec), s)
      | OtherCall \<Rightarrow> Inr (Done, s))"


section \<open>The next event is the first of the earliest ones\<close>

lemma update_loop_cases:
  "(\<forall>e \<in> set es. t \<le> te_time e) \<and> update_loop es next t = next \<or>
   (\<exists>e \<in> set es. update_loop es next t = Some (te_ptr e) \<and> te_time e < t \<and> (\<forall>e' \<in> set es. te_time e \<le> te_time e'))"
proof (induction es arbitrary: "next" t)
  case (Cons e es)
  show ?case
  proof (cases "te_time e < t")
    case True
    from Cons.IH [of "te_time e" "Some (te_ptr e)"] show ?thesis
      using True by (auto 4 3 intro: less_imp_le less_trans)
  next
    case False
    from Cons.IH [of t "next"] show ?thesis
      using False by (auto simp: not_less)
  qed
qed simp

lemma update_loop_cong:
  "map te_ptr es = map te_ptr es' \<Longrightarrow> map te_time es = map te_time es' \<Longrightarrow> update_loop es next t = update_loop es' next t"
proof (induction es arbitrary: es' "next" t)
  case (Cons e es)
  then show ?case
    by (cases es') auto
qed simp

definition next_of :: "timer_event list \<Rightarrow> nat option" where
  "next_of es = update_loop es None (- 1)"

lemma next_of_SomeD:
  assumes "next_of es = Some p"
  shows "\<exists>e \<in> set es. te_ptr e = p \<and> (\<forall>e' \<in> set es. te_time e \<le> te_time e')"
  using update_loop_cases [of es "- 1" None] assms by (auto simp: next_of_def)

lemma next_of_NoneD:
  assumes "next_of es = None"
  shows "\<forall>e \<in> set es. te_time e = - 1"
proof -
  have "\<forall>e \<in> set es. - 1 \<le> te_time e"
    using update_loop_cases [of es "- 1" None] assms unfolding next_of_def by force
  then show ?thesis
    by (auto intro: order.antisym simp: word_order.extremum)
qed

lemma event_at_unique:
  assumes "distinct (map te_ptr es)" "e \<in> set es" "te_ptr e = p"
  shows "event_at p es = Some e"
  using assms
proof (induction es)
  case (Cons x es)
  then show ?case
    by (cases "x = e") (auto simp: event_at_def dest: image_eqI)
qed simp

section \<open>The timers as a state machine\<close>

text \<open>
  The clock advances; programs create, reset and close timers; the timer thread wakes up when its block
  check succeeds and then, later, performs its round. The clock stays below half of its range, that is 292
  million years, and the counter of timers does not pass its greatest value.
\<close>

inductive timer_step :: "u64 \<times> bool \<times> timer_state \<Rightarrow> u64 \<times> bool \<times> timer_state \<Rightarrow> bool" where
  tick: "now \<le> now' \<Longrightarrow> unat now' < 2 ^ 63 \<Longrightarrow> timer_step (now, aw, s) (now', aw, s)"
| create: "timer_id_counter s \<noteq> - 1 \<Longrightarrow> timer_step (now, aw, s) (now, aw, create_timer dur pid h s)"
| reset: "reset_timer now pid tid s = Inr s' \<Longrightarrow> timer_step (now, aw, s) (now, aw, s')"
| close: "timer_step (now, aw, s) (now, aw, close_timer tid s)"
| wake: "events_blockcheck s \<Longrightarrow> next_event_blockcheck now s \<Longrightarrow> timer_step (now, False, s) (now, True, s)"
| fire: "timer_thread s = Inr s' \<Longrightarrow> timer_step (now, True, s) (now, False, s')"

inductive timer_reachable :: "u64 \<times> bool \<times> timer_state \<Rightarrow> bool" where
  boot: "timer_reachable (0, False, init_timer)"
| step: "timer_reachable c \<Longrightarrow> timer_step c c' \<Longrightarrow> timer_reachable c'"

definition live_events :: "u64 \<Rightarrow> timer_event list \<Rightarrow> timer_event list" where
  "live_events tid es = filter (\<lambda>e. te_timer_id e = tid \<and> \<not> te_cancel e) es"

definition timer_pending :: "u64 \<Rightarrow> timer_state \<Rightarrow> nat" where
  "timer_pending tid s = (case timers s tid of None \<Rightarrow> 0 | Some t \<Rightarrow> if ti_active t then 1 else 0)"

definition timers_inv :: "timer_state \<Rightarrow> bool" where
  "timers_inv s \<longleftrightarrow>
     distinct (map te_ptr (events s)) \<and> (\<forall>e \<in> set (events s). te_ptr e < fresh_ptr s) \<and>
     next_event s = next_of (events s) \<and>
     (\<forall>tid. length (live_events tid (events s)) = timer_pending tid s) \<and>
     (\<forall>tid t. timers s tid = Some t \<longrightarrow> ti_timer_id t = tid \<and> tid \<le> timer_id_counter s \<and> ti_duration t < 2 ^ 32)"

lemma update_next_event_inv [simp]: "next_event (update_next_event s) = next_of (events s)"
  "events (update_next_event s) = events s" "timers (update_next_event s) = timers s" "sent (update_next_event s) = sent s"
  "fresh_ptr (update_next_event s) = fresh_ptr s" "timer_id_counter (update_next_event s) = timer_id_counter s"
  by (simp_all add: update_next_event_def next_of_def)

lemma live_events_simps [simp]:
  "live_events tid [] = []"
  "live_events tid (es @ es') = live_events tid es @ live_events tid es'"
  "live_events tid (e # es) = (if te_timer_id e = tid \<and> \<not> te_cancel e then e # live_events tid es else live_events tid es)"
  by (simp_all add: live_events_def)

lemma live_events_close:
  "length (live_events tid (map (\<lambda>e. if te_timer_id e = c then e\<lparr>te_cancel := True\<rparr> else e) es))
     = (if tid = c then 0 else length (live_events tid es))"
  by (induction es) auto

lemma live_events_remove:
  assumes "distinct (map te_ptr es)" "e \<in> set es"
  shows "length (live_events tid (filter (\<lambda>x. te_ptr x \<noteq> te_ptr e) es))
           = length (live_events tid es) - (if te_timer_id e = tid \<and> \<not> te_cancel e then 1 else 0)"
  using assms
proof (induction es)
  case (Cons x es)
  show ?case
  proof (cases "x = e")
    case True
    then have "filter (\<lambda>x. te_ptr x \<noteq> te_ptr e) es = es"
      using Cons.prems(1) by (auto intro!: filter_True) (metis image_eqI)
    then show ?thesis
      using True by simp
  next
    case False
    then have "e \<in> set es" "te_ptr x \<noteq> te_ptr e"
      using Cons.prems by (auto dest: image_eqI)
    moreover have "te_timer_id e = tid \<and> \<not> te_cancel e \<Longrightarrow> 0 < length (live_events tid es)"
      using \<open>e \<in> set es\<close> by (auto simp: live_events_def filter_empty_conv)
    ultimately show ?thesis
      using Cons by auto
  qed
qed simp

lemma init_timers_inv: "timers_inv init_timer"
  by (simp add: timers_inv_def init_timer_def next_of_def timer_pending_def)


lemma create_timers_inv:
  assumes "timers_inv s" "timer_id_counter s \<noteq> - 1"
  shows "timers_inv (create_timer dur pid h s)"
proof -
  define c where "c = timer_id_counter s"
  have lt: "c < c + 1"
  proof -
    have "unat c \<noteq> unat (- 1 :: u64)"
      using assms(2) by (simp add: c_def word_unat_eq_iff)
    moreover have "unat c < 2 ^ 64"
      using unsigned_less [of c] by simp
    ultimately have "unat c + 1 < 2 ^ 64"
      by (simp add: unsigned_minus_1_eq_mask mask_eq_exp_minus_1)
    then show ?thesis
      by (simp add: word_less_nat_alt unat_word_ariths)
  qed
  have "timers s (c + 1) = None"
  proof (rule ccontr)
    assume "timers s (c + 1) \<noteq> None"
    then have "c + 1 \<le> c"
      using assms(1) unfolding timers_inv_def c_def by blast
    then show False
      using lt by simp
  qed
  moreover have "unat (ucast dur :: u64) < 2 ^ 32"
    using le_less_trans [OF take_bit_nat_less_eq_self [of 64 "unat dur"], of "2 ^ 32"] unsigned_less [of dur]
    by (simp add: unsigned_ucast_eq)
  then have "(ucast dur :: u64) < 2 ^ 32"
    by (simp add: word_less_nat_alt)
  moreover have "x \<le> c + 1" if "x \<le> c" for x
    using that lt by simp
  ultimately show ?thesis
    using assms(1) unfolding timers_inv_def create_timer_def Let_def c_def [symmetric]
    by (auto simp: timer_pending_def split: if_splits)
qed

lemma close_timers_inv:
  assumes "timers_inv s"
  shows "timers_inv (close_timer tid s)"
proof -
  let ?f = "\<lambda>e. if te_timer_id e = tid then e\<lparr>te_cancel := True\<rparr> else e"
  have m: "map te_ptr (map ?f (events s)) = map te_ptr (events s)" "map te_time (map ?f (events s)) = map te_time (events s)"
    by simp_all
  have comp: "te_ptr \<circ> ?f = te_ptr"
    by auto
  have "next_of (map ?f (events s)) = next_of (events s)"
    unfolding next_of_def by (rule update_loop_cong [OF m])
  moreover have "length (live_events t (map ?f (events s))) = timer_pending t (close_timer tid s)" for t
    unfolding live_events_close using assms by (simp add: timers_inv_def timer_pending_def close_timer_def)
  ultimately show ?thesis
    using assms unfolding timers_inv_def close_timer_def by (auto simp: comp split: if_splits)
qed

lemma reset_timers_inv:
  assumes "timers_inv s" "reset_timer now pid tid s = Inr s'"
  shows "timers_inv s'"
proof (cases "timers s tid")
  case None
  then show ?thesis
    using assms(2) by (simp add: reset_timer_def)
next
  case (Some t)
  show ?thesis
  proof (cases "ti_active t")
    case True
    then show ?thesis
      using assms Some by (simp add: reset_timer_def)
  next
    case False
    then have s': "s' = update_next_event
                 (s\<lparr>timers := (timers s)(tid \<mapsto> t\<lparr>ti_active := True\<rparr>),
                    events := events s @ [\<lparr>te_ptr = fresh_ptr s, te_pid = pid, te_time = now + ti_duration t,
                                          te_timer_id = ti_timer_id t, te_cancel = False\<rparr>],
                    fresh_ptr := fresh_ptr s + 1\<rparr>)"
      using assms(2) Some by (simp add: reset_timer_def)
    have id: "ti_timer_id t = tid" "timer_pending tid s = 0"
      using assms(1) Some False by (auto simp: timers_inv_def timer_pending_def)
    have "length (live_events i (events s')) = timer_pending i s'" for i
      using assms(1) id Some by (auto simp: s' timers_inv_def timer_pending_def)
    then show ?thesis
      using assms(1) Some unfolding timers_inv_def by (auto simp: s' less_Suc_eq)
  qed
qed

lemma timer_thread_step:
  assumes "timers_inv s" "next_event s = Some p"
  shows "\<exists>e s'. e \<in> set (events s) \<and> te_ptr e = p \<and> (\<forall>e' \<in> set (events s). te_time e \<le> te_time e') \<and>
           timer_thread s = Inr s' \<and> timers_inv s' \<and> events s' = filter (\<lambda>x. te_ptr x \<noteq> p) (events s) \<and>
           (if te_cancel e then sent s' = sent s \<and> timers s' = timers s
            else \<exists>t. timers s (te_timer_id e) = Some t \<and> ti_active t \<and> sent s' = sent s @ [(te_pid e, ti_handle_id t)] \<and>
                     timers s' = (timers s)(te_timer_id e \<mapsto> t\<lparr>ti_active := False\<rparr>))"
proof -
  have n: "next_of (events s) = Some p" and d: "distinct (map te_ptr (events s))"
    and live: "length (live_events i (events s)) = timer_pending i s" for i
    using assms by (simp_all add: timers_inv_def)
  obtain e where e: "e \<in> set (events s)" "te_ptr e = p" "\<forall>e' \<in> set (events s). te_time e \<le> te_time e'"
    using next_of_SomeD [OF n] by blast
  note at = event_at_unique [OF d e(1,2)]
  note rem = live_events_remove [OF d e(1), unfolded e(2)]
  show ?thesis
  proof (cases "te_cancel e")
    case True
    define s' where "s' = update_next_event (s\<lparr>events := filter (\<lambda>x. te_ptr x \<noteq> p) (events s)\<rparr>)"
    have r: "timer_thread s = Inr s'"
      using True by (simp add: timer_thread_def assms(2) at s'_def)
    have "length (live_events i (events s')) = timer_pending i s'" for i
      using True live by (simp add: s'_def rem timer_pending_def)
    then have "timers_inv s'"
      using assms(1) d unfolding timers_inv_def s'_def by (auto simp: distinct_map_filter)
    then show ?thesis
      using r True e by (intro exI [of _ e] exI [of _ s']) (simp add: s'_def)
  next
    case False
    have "0 < length (live_events (te_timer_id e) (events s))"
      using e(1) False by (auto simp: live_events_def filter_empty_conv)
    then obtain t where t: "timers s (te_timer_id e) = Some t" "ti_active t"
      using live [of "te_timer_id e"] by (auto simp: timer_pending_def split: option.splits if_splits)
    define s' where "s' = update_next_event (s\<lparr>timers := (timers s)(te_timer_id e \<mapsto> t\<lparr>ti_active := False\<rparr>),
        sent := sent s @ [(te_pid e, ti_handle_id t)], events := filter (\<lambda>x. te_ptr x \<noteq> p) (events s)\<rparr>)"
    have r: "timer_thread s = Inr s'"
      using False by (simp add: timer_thread_def assms(2) at s'_def t)
    have "length (live_events i (events s')) = timer_pending i s'" for i
      using False live t by (auto simp: s'_def rem timer_pending_def)
    then have "timers_inv s'"
      using assms(1) d t unfolding timers_inv_def s'_def by (auto simp: distinct_map_filter)
    then show ?thesis
      using r False e t by (intro exI [of _ e] exI [of _ s']) (simp add: s'_def)
  qed
qed


lemma next_event_blockcheck_iff:
  assumes "timers_inv s" "unat now < 2 ^ 63"
  shows "next_event_blockcheck now s \<longleftrightarrow> (\<exists>e \<in> set (events s). te_time e \<le> now)"
proof -
  have d: "distinct (map te_ptr (events s))" and n: "next_event s = next_of (events s)"
    using assms(1) by (simp_all add: timers_inv_def)
  show ?thesis
  proof (cases "next_of (events s)")
    case None
    have "\<not> te_time e \<le> now" if "e \<in> set (events s)" for e
    proof
      assume "te_time e \<le> now"
      then have "- 1 \<le> now"
        using next_of_NoneD [OF None] that by simp
      then show False
        using assms(2) by (simp add: word_le_nat_alt unsigned_minus_1_eq_mask mask_eq_exp_minus_1)
    qed
    then show ?thesis
      using None by (auto simp: next_event_blockcheck_def n)
  next
    case (Some p)
    then obtain e where e: "e \<in> set (events s)" "te_ptr e = p" "\<forall>e' \<in> set (events s). te_time e \<le> te_time e'"
      using next_of_SomeD by blast
    then show ?thesis
      using Some event_at_unique [OF d e(1,2)] by (auto simp: next_event_blockcheck_def n intro: order_trans)
  qed
qed

lemma timer_reachable_inv:
  assumes "timer_reachable c"
  shows "case c of (now, aw, s) \<Rightarrow> timers_inv s \<and> unat now < 2 ^ 63 \<and> (aw \<longrightarrow> (\<exists>e \<in> set (events s). te_time e \<le> now))"
  using assms
proof induction
  case boot
  then show ?case
    by (simp add: init_timers_inv)
next
  case (step c c')
  from step.hyps(2) step.IH show ?case
  proof cases
    case (tick now now' aw s)
    then show ?thesis
      using step.IH by (auto intro: order_trans)
  next
    case (create s now aw dur pid h)
    then show ?thesis
      using step.IH create_timers_inv by (auto simp: create_timer_def Let_def)
  next
    case (reset now pid tid s s' aw)
    have "set (events s) \<subseteq> set (events s')"
      using reset(3) by (auto simp: reset_timer_def split: option.splits if_splits)
    then show ?thesis
      using step.IH reset reset_timers_inv [OF _ reset(3)] by auto
  next
    case (close now aw s tid)
    have t: "(\<exists>e \<in> set (events (close_timer tid s)). te_time e \<le> now) = (\<exists>e \<in> set (events s). te_time e \<le> now)"
      by (simp add: close_timer_def bex_Un) blast
    show ?thesis
      using step.IH close_timers_inv [of s tid] unfolding close prod.case t by simp
  next
    case (wake s now)
    then show ?thesis
      using step.IH by (auto simp: next_event_blockcheck_iff)
  next
    case (fire s s' now)
    have inv: "timers_inv s" "unat now < 2 ^ 63" "\<exists>e \<in> set (events s). te_time e \<le> now"
      using step.IH fire by simp_all
    then obtain p where "next_event s = Some p"
      using next_event_blockcheck_iff [OF inv(1,2)] by (auto simp: next_event_blockcheck_def split: option.splits)
    then have "timers_inv s'"
      using timer_thread_step [OF inv(1)] fire(3) by fastforce
    then show ?thesis
      using fire inv by simp
  qed
qed

lemmas timer_reachableD = timer_reachable_inv [where c = "(now, aw, s)" for now aw s, unfolded prod.case]

text \<open>
  In every state that the timers reach, whatever the order of calls, a timer has exactly one pending event
  that is not cancelled while it is active, and none when it is idle or closed.
\<close>

theorem one_event_per_timer:
  assumes "timer_reachable (now, aw, s)"
  shows "length (filter (\<lambda>e. te_timer_id e = tid \<and> \<not> te_cancel e) (events s))
           = (case timers s tid of None \<Rightarrow> 0 | Some t \<Rightarrow> if ti_active t then 1 else 0)"
  using timer_reachableD [OF assms] by (simp add: timers_inv_def live_events_def timer_pending_def)

lemma reset_once_reachable:
  "timer_reachable (0, False, update_next_event (create_timer 50 3 7 init_timer
     \<lparr>timers := [1 \<mapsto> \<lparr>ti_timer_id = 1, ti_handle_id = 7, ti_pid = 3, ti_duration = 50, ti_active = True\<rparr>],
      events := [\<lparr>te_ptr = 1, te_pid = 3, te_time = 50, te_timer_id = 1, te_cancel = False\<rparr>], fresh_ptr := 2\<rparr>))"
proof (rule timer_reachable.step [OF timer_reachable.step [OF timer_reachable.boot]])
  show "timer_step (0, False, init_timer) (0, False, create_timer 50 3 7 init_timer)"
    by (rule timer_step.create) (simp add: init_timer_def)
  show "timer_step (0, False, create_timer 50 3 7 init_timer)
     (0, False, update_next_event (create_timer 50 3 7 init_timer
     \<lparr>timers := [1 \<mapsto> \<lparr>ti_timer_id = 1, ti_handle_id = 7, ti_pid = 3, ti_duration = 50, ti_active = True\<rparr>],
      events := [\<lparr>te_ptr = 1, te_pid = 3, te_time = 50, te_timer_id = 1, te_cancel = False\<rparr>], fresh_ptr := 2\<rparr>))"
    by (rule timer_step.reset [of _ 3 1])
      (simp add: reset_timer_def create_timer_def init_timer_def Let_def)
qed

theorem one_event_per_timer_witness:
  "\<exists>now aw s. timer_reachable (now, aw, s) \<and> timers s 1 \<noteq> None \<and>
     length (filter (\<lambda>e. te_timer_id e = 1 \<and> \<not> te_cancel e) (events s)) = 1"
  using one_event_per_timer [OF reset_once_reachable, of 1] reset_once_reachable
  by (intro exI conjI) (assumption, simp_all)

text \<open>C22. 
  Whenever the timer thread has been woken and performs its round, even after other calls have come in
  between, it finds an event whose time has come and which is the earliest of all. It removes this event
  only, and unless it was cancelled sends the timer's handle to the process and makes the timer idle.
\<close>

theorem timer_fires_earliest_due:
  assumes "timer_reachable (now, True, s)"
  shows "\<exists>e s'. e \<in> set (events s) \<and> te_time e \<le> now \<and> (\<forall>e' \<in> set (events s). te_time e \<le> te_time e') \<and>
           timer_thread s = Inr s' \<and> events s' = filter (\<lambda>x. te_ptr x \<noteq> te_ptr e) (events s) \<and>
           (if te_cancel e then sent s' = sent s \<and> timers s' = timers s
            else \<exists>t. timers s (te_timer_id e) = Some t \<and> ti_active t \<and> sent s' = sent s @ [(te_pid e, ti_handle_id t)] \<and>
                     timers s' = (timers s)(te_timer_id e \<mapsto> t\<lparr>ti_active := False\<rparr>))"
proof -
  have inv: "timers_inv s" "unat now < 2 ^ 63" and due: "\<exists>e \<in> set (events s). te_time e \<le> now"
    using timer_reachableD [OF assms] by simp_all
  then obtain p where p: "next_event s = Some p"
    using next_event_blockcheck_iff [OF inv] by (auto simp: next_event_blockcheck_def split: option.splits)
  from timer_thread_step [OF inv(1) p] obtain e s' where
    e: "e \<in> set (events s)" "te_ptr e = p" "\<forall>e' \<in> set (events s). te_time e \<le> te_time e'" and
    s': "timer_thread s = Inr s'" "events s' = filter (\<lambda>x. te_ptr x \<noteq> p) (events s)"
        "if te_cancel e then sent s' = sent s \<and> timers s' = timers s
            else \<exists>t. timers s (te_timer_id e) = Some t \<and> ti_active t \<and> sent s' = sent s @ [(te_pid e, ti_handle_id t)] \<and>
                     timers s' = (timers s)(te_timer_id e \<mapsto> t\<lparr>ti_active := False\<rparr>)"
    by blast
  moreover have "te_time e \<le> now"
    using e due by (auto intro: order_trans)
  ultimately show ?thesis
    by blast
qed


lemma due_now_reachable:
  assumes "timer_reachable (now, False, s)" "\<exists>e \<in> set (events s). te_time e \<le> now'" "now \<le> now'" "unat now' < 2 ^ 63"
  shows "timer_reachable (now', True, s)"
proof (rule timer_reachable.step)
  show r: "timer_reachable (now', False, s)"
    by (rule timer_reachable.step [OF assms(1)]) (rule timer_step.tick [OF assms(3,4)])
  show "timer_step (now', False, s) (now', True, s)"
  proof (rule timer_step.wake)
    show "events_blockcheck s"
      using assms(2) by (auto simp: events_blockcheck_def)
    show "next_event_blockcheck now' s"
      using timer_reachableD [OF r] assms(2) next_event_blockcheck_iff by blast
  qed
qed

theorem timer_fires_earliest_due_witness:
  "\<exists>s e s'. timer_reachable (60, True, s) \<and> e \<in> set (events s) \<and> te_time e \<le> 60 \<and> timer_thread s = Inr s' \<and>
     events s' = filter (\<lambda>x. te_ptr x \<noteq> te_ptr e) (events s)"
proof -
  have r: "timer_reachable (60, True, update_next_event (create_timer 50 3 7 init_timer
     \<lparr>timers := [1 \<mapsto> \<lparr>ti_timer_id = 1, ti_handle_id = 7, ti_pid = 3, ti_duration = 50, ti_active = True\<rparr>],
      events := [\<lparr>te_ptr = 1, te_pid = 3, te_time = 50, te_timer_id = 1, te_cancel = False\<rparr>], fresh_ptr := 2\<rparr>))"
    by (rule due_now_reachable [OF reset_once_reachable]) simp_all
  from timer_fires_earliest_due [OF r] r show ?thesis
    by blast
qed

subsection \<open>Due timers are served\<close>

fun timer_rounds :: "nat \<Rightarrow> u64 \<Rightarrow> timer_state \<Rightarrow> timer_state result" where
  "timer_rounds 0 now s = Inr s"
| "timer_rounds (Suc n) now s =
     (if next_event_blockcheck now s then bind_result (timer_thread s) (timer_rounds n now) else Inr s)"

lemma timer_rounds_serve:
  assumes "timers_inv s" "unat now < 2 ^ 63" "length (events s) \<le> n"
  shows "\<exists>s'. timer_rounds n now s = Inr s' \<and> (\<forall>e \<in> set (events s'). now < te_time e) \<and> set (sent s) \<subseteq> set (sent s') \<and>
           (\<forall>e \<in> set (events s). \<not> te_cancel e \<and> te_time e \<le> now \<longrightarrow>
              (\<exists>t. timers s (te_timer_id e) = Some t \<and> (te_pid e, ti_handle_id t) \<in> set (sent s')))"
  using assms
proof (induction n arbitrary: s)
  case (Suc n)
  note iff = next_event_blockcheck_iff [OF Suc.prems(1,2)]
  show ?case
  proof (cases "next_event_blockcheck now s")
    case False
    then show ?thesis
      using iff by (auto simp: not_le)
  next
    case True
    then obtain p where "next_event s = Some p"
      by (auto simp: next_event_blockcheck_def split: option.splits)
    from timer_thread_step [OF Suc.prems(1) this] obtain e s1 where
      e: "e \<in> set (events s)" "te_ptr e = p" and
      s1: "timer_thread s = Inr s1" "timers_inv s1" "events s1 = filter (\<lambda>x. te_ptr x \<noteq> p) (events s)"
        "if te_cancel e then sent s1 = sent s \<and> timers s1 = timers s
            else \<exists>t. timers s (te_timer_id e) = Some t \<and> ti_active t \<and> sent s1 = sent s @ [(te_pid e, ti_handle_id t)] \<and>
                     timers s1 = (timers s)(te_timer_id e \<mapsto> t\<lparr>ti_active := False\<rparr>)"
      by blast
    have "length (events s1) < length (events s)"
      unfolding s1(3) by (rule length_filter_less [OF e(1)]) (simp add: e(2))
    then have "length (events s1) \<le> n"
      using Suc.prems(3) by simp
    from Suc.IH [OF s1(2) Suc.prems(2) this] obtain s' where
      s': "timer_rounds n now s1 = Inr s'" "\<forall>e \<in> set (events s'). now < te_time e" "set (sent s1) \<subseteq> set (sent s')"
        "\<forall>e \<in> set (events s1). \<not> te_cancel e \<and> te_time e \<le> now \<longrightarrow>
              (\<exists>t. timers s1 (te_timer_id e) = Some t \<and> (te_pid e, ti_handle_id t) \<in> set (sent s'))"
      by blast
    have sub: "set (sent s) \<subseteq> set (sent s1)"
      using s1(4) by (auto split: if_splits)
    have old: "\<exists>t. timers s i = Some t \<and> ti_handle_id t = h" if "timers s1 i = Some t1" "ti_handle_id t1 = h" for i t1 h
      using that s1(4) by (auto split: if_splits)
    have "\<exists>t. timers s (te_timer_id x) = Some t \<and> (te_pid x, ti_handle_id t) \<in> set (sent s')"
      if x: "x \<in> set (events s)" "\<not> te_cancel x" "te_time x \<le> now" for x
    proof (cases "te_ptr x = p")
      case True
      have "distinct (map te_ptr (events s))"
        using Suc.prems(1) by (simp add: timers_inv_def)
      then have "x = e"
        using x(1) e True by (auto simp: distinct_map inj_on_def)
      then show ?thesis
        using s1(4) s'(3) x(2) by auto
    next
      case False
      then have "x \<in> set (events s1)"
        using x(1) by (simp add: s1(3))
      with s'(4) x obtain t where t: "timers s1 (te_timer_id x) = Some t" "(te_pid x, ti_handle_id t) \<in> set (sent s')"
        by blast
      then show ?thesis
        using old [OF t(1) refl] by auto
    qed
    then show ?thesis
      using s' sub s1(1) True by (intro exI [of _ s']) auto
  qed
qed simp

text \<open>C23. 
  A due timer is always served: as many rounds of the timer thread as there are events end without error,
  leave no event whose time has come, and send the message of every due event that is not cancelled.
\<close>

theorem due_timers_served:
  assumes "timer_reachable (now, aw, s)" and "e \<in> set (events s)" and "\<not> te_cancel e" and "te_time e \<le> now"
  shows "\<exists>t s'. timers s (te_timer_id e) = Some t \<and> timer_rounds (length (events s)) now s = Inr s' \<and>
           (te_pid e, ti_handle_id t) \<in> set (sent s') \<and> (\<forall>e' \<in> set (events s'). now < te_time e')"
proof -
  have "timers_inv s" "unat now < 2 ^ 63"
    using timer_reachableD [OF assms(1)] by simp_all
  from timer_rounds_serve [OF this order_refl] show ?thesis
    using assms(2-4) by blast
qed

theorem due_timers_served_witness:
  "\<exists>s s'. timer_reachable (60, True, s) \<and> timer_rounds (length (events s)) 60 s = Inr s' \<and> (3, 7) \<in> set (sent s')"
proof -
  define s where "s = update_next_event (create_timer 50 3 7 init_timer
     \<lparr>timers := [1 \<mapsto> \<lparr>ti_timer_id = 1, ti_handle_id = 7, ti_pid = 3, ti_duration = 50, ti_active = True\<rparr>],
      events := [\<lparr>te_ptr = 1, te_pid = 3, te_time = 50, te_timer_id = 1, te_cancel = False\<rparr>], fresh_ptr := 2\<rparr>)"
  have r: "timer_reachable (60, True, s)"
    unfolding s_def by (rule due_now_reachable [OF reset_once_reachable]) simp_all
  have e: "events s = [\<lparr>te_ptr = 1, te_pid = 3, te_time = 50, te_timer_id = 1, te_cancel = False\<rparr>]"
    "timers s 1 = Some \<lparr>ti_timer_id = 1, ti_handle_id = 7, ti_pid = 3, ti_duration = 50, ti_active = True\<rparr>"
    by (simp_all add: s_def)
  have "\<exists>s'. timer_rounds (length (events s)) 60 s = Inr s' \<and> (3, 7) \<in> set (sent s')"
    using due_timers_served [OF r, of "\<lparr>te_ptr = 1, te_pid = 3, te_time = 50, te_timer_id = 1, te_cancel = False\<rparr>"]
    by (auto simp: e simp del: timer_rounds.simps)
  then show ?thesis
    using r by blast
qed

end
