(* ===== verification/User_Memory.thy ===== *)
theory User_Memory
  imports Page_Directory
begin

text \<open>
  The checks of user pointers in src/src/kernel/user_api.cpp: every system call passes the addresses that
  a program hands in to \<open>is_safe_ptr\<close> or \<open>is_safe_string\<close> before it touches them.

  The checks ask the page directory about one address after the other; the step to the next address is
  the number that \<open>PageDirectory::resolve_addr\<close> returns. The laws that the checks need of this function
  are the locale \<open>resolver\<close>, which the paging model satisfies.

  The lemmas show that the checks end, that they accept every range of mapped user pages, and that all
  pages of an accepted range are mapped except perhaps the last one; that page is indeed not looked at
  when the range starts in the middle of a page, so that ranges are accepted which end in an unmapped
  page or, behind the end of the address space, in kernel memory.
\<close>

section \<open>Checks of pointers and strings\<close>

text \<open>
  \<open>resolve\<close> is \<open>resolve_addr\<close> on the directory of the process whose pointer is checked. A check that
  never returns is \<open>None\<close>: the counter may wrap around if every page of memory is mapped.
\<close>

(* src/src/kernel/user_api.cpp:51-59 is_safe_ptr *)
partial_function (option) safe_loop :: "(u32 \<Rightarrow> 's \<Rightarrow> u32 \<times> 's) \<Rightarrow> u32 \<Rightarrow> u32 \<Rightarrow> u32 \<Rightarrow> 's \<Rightarrow> (bool \<times> 's) option" where
  "safe_loop resolve ptr sz i s =
     (if i < sz
      then case resolve (ptr + i) s of (res, s') \<Rightarrow>
             if res = 0 then Some (False, s') else safe_loop resolve ptr sz (i + res) s'
      else Some (True, s))"

(* src/src/kernel/user_api.cpp:46-63 is_safe_ptr *)
definition is_safe_ptr :: "(u32 \<Rightarrow> 's \<Rightarrow> u32 \<times> 's) \<Rightarrow> u32 \<Rightarrow> u32 \<Rightarrow> 's \<Rightarrow> (bool \<times> 's) option" where
  "is_safe_ptr resolve ptr sz s =
     (if ptr \<ge> MM2_Kernel_Boundary then safe_loop resolve ptr sz 0 s else Some (False, s))"

text \<open>The string is read through \<open>mem\<close>, the contents of the address space.\<close>

(* src/src/kernel/user_api.cpp:65-75 is_safe_string *)
partial_function (option) safe_string_loop ::
  "(u32 \<Rightarrow> 's \<Rightarrow> u32 \<times> 's) \<Rightarrow> (u32 \<Rightarrow> u8) \<Rightarrow> u32 \<Rightarrow> u32 \<Rightarrow> 's \<Rightarrow> (bool \<times> 's) option" where
  "safe_string_loop resolve mem ptr i s =
     (case is_safe_ptr resolve (ptr + i) 1 s of
        None \<Rightarrow> None
      | Some (ok, s') \<Rightarrow>
          if \<not> ok then Some (False, s')
          else if mem (ptr + i) = 0 then Some (True, s')
          else safe_string_loop resolve mem ptr (i + 1) s')"

(* src/src/kernel/user_api.cpp:65-75 is_safe_string *)
definition is_safe_string :: "(u32 \<Rightarrow> 's \<Rightarrow> u32 \<times> 's) \<Rightarrow> (u32 \<Rightarrow> u8) \<Rightarrow> u32 \<Rightarrow> 's \<Rightarrow> (bool \<times> 's) option" where
  "is_safe_string resolve mem ptr s = safe_string_loop resolve mem ptr 0 s"

section \<open>What the checks need of address resolution\<close>

definition resolve_step :: "u32 \<Rightarrow> u32" where
  "resolve_step addr = (if addr mod 4096 = 0 then 4096 else addr mod 4096)"

text \<open>The step never passes over a whole page.\<close>

lemma resolve_step_bounds:
  "1 \<le> unat (resolve_step a)" "unat (resolve_step a) \<le> 4096"
  "unat a mod 4096 = 0 \<Longrightarrow> unat (resolve_step a) = 4096" "unat a mod 4096 \<noteq> 0 \<Longrightarrow> unat (resolve_step a) = unat a mod 4096"
  by (auto simp: resolve_step_def unat_mod word_unat_eq_iff split: if_splits intro: less_imp_le)

lemma next_page_or_same:
  fixes n k :: nat
  assumes "1 \<le> k" "n mod 4096 = 0 \<Longrightarrow> k = 4096" "n mod 4096 \<noteq> 0 \<Longrightarrow> k = n mod 4096"
  shows "(n + k) div 4096 \<le> n div 4096 + 1"
proof -
  have "n mod 4096 < 4096"
    by simp
  moreover have "n = 4096 * (n div 4096) + n mod 4096"
    by simp
  ultimately show ?thesis
    using assms by (cases "n mod 4096 = 0") linarith+
qed

lemma last_page_bound:
  assumes "unat ptr + unat sz \<le> 2 ^ 32" "0 < unat sz"
  shows "(unat (ptr::u32) + unat (sz::u32) - 1) div 4096 < 2 ^ 20"
proof (rule less_mult_imp_div_less)
  show "unat ptr + unat sz - 1 < 2 ^ 20 * 4096"
    using assms by simp
qed

locale resolver =
  fixes resolve :: "u32 \<Rightarrow> 's \<Rightarrow> u32 \<times> 's" and good :: "'s \<Rightarrow> bool" and askable :: "u32 \<Rightarrow> bool"
    and mapped :: "'s \<Rightarrow> u32 \<Rightarrow> bool"
  assumes resolve_value: "good s \<Longrightarrow> askable addr \<Longrightarrow> fst (resolve addr s) = (if mapped s (addr div 4096) then resolve_step addr else 0)"
    and resolve_good: "good s \<Longrightarrow> askable addr \<Longrightarrow> good (snd (resolve addr s))"
    and resolve_keeps: "good s \<Longrightarrow> askable addr \<Longrightarrow> askable a \<Longrightarrow> mapped (snd (resolve addr s)) (a div 4096) = mapped s (a div 4096)"
begin

lemma safe_loop_fail:
  assumes "good s" "askable (ptr + i)" "i < sz" "\<not> mapped s ((ptr + i) div 4096)"
  shows "\<exists>s'. safe_loop resolve ptr sz i s = Some (False, s') \<and> good s' \<and> (\<forall>a. askable a \<longrightarrow> mapped s' (a div 4096) = mapped s (a div 4096))"
  using assms resolve_value [OF assms(1,2)] resolve_good [OF assms(1,2)] resolve_keeps [OF assms(1,2)]
  by (subst safe_loop.simps) (auto simp: split_beta)

lemma safe_loop_pass:
  assumes "good s" "askable (ptr + i)" "i < sz" "mapped s ((ptr + i) div 4096)"
  shows "\<exists>s1. safe_loop resolve ptr sz i s = safe_loop resolve ptr sz (i + resolve_step (ptr + i)) s1 \<and> good s1 \<and>
           (\<forall>a. askable a \<longrightarrow> mapped s1 (a div 4096) = mapped s (a div 4096))"
proof -
  have "resolve_step (ptr + i) \<noteq> 0"
    by (simp add: resolve_step_def)
  then show ?thesis
    using assms resolve_value [OF assms(1,2)] resolve_good [OF assms(1,2)] resolve_keeps [OF assms(1,2)]
    by (subst safe_loop.simps) (auto simp: split_beta)
qed

lemma safe_loop_done: "\<not> i < sz \<Longrightarrow> safe_loop resolve ptr sz i s = Some (True, s)"
  by (subst safe_loop.simps) simp

lemma kept_pages:
  assumes keep: "\<forall>a. askable a \<longrightarrow> mapped s1 (a div 4096) = mapped s (a div 4096)"
    and dom: "\<forall>a. 2 ^ 30 \<le> unat a \<longrightarrow> askable a" and "2 ^ 30 \<le> unat ptr" "unat (ptr :: u32) div 4096 \<le> q" "q < 2 ^ 20"
  shows "mapped s1 (of_nat q) = mapped s (of_nat q)"
proof -
  have u': "unat (of_nat (q * 4096) :: u32) = q * 4096"
    using assms(5) by (simp add: unat_of_nat take_bit_eq_mod del: of_nat_mult)
  have "2 ^ 18 \<le> unat ptr div 4096"
    using div_le_mono [OF assms(3), of 4096] by simp
  then have "askable (of_nat (q * 4096))"
    using assms(4) by (intro dom [rule_format]) (simp only: u', simp)
  moreover have "(of_nat (q * 4096) :: u32) div 4096 = of_nat q"
    using assms(5) by (simp add: word_unat_eq_iff unat_div u' unat_of_nat take_bit_eq_mod del: of_nat_mult)
  ultimately show ?thesis
    using keep by metis
qed

text \<open>The pages that a range starting at address \<open>P\<close> touches, counted in natural numbers.\<close>

lemma safe_loop_spec:
  assumes "good s" and dom: "\<forall>a. 2 ^ 30 \<le> unat a \<longrightarrow> askable a"
    and P: "2 ^ 30 \<le> unat ptr" "unat ptr + unat sz \<le> 2 ^ 32" and n: "unat i \<le> unat sz + 4096"
    and seen: "\<forall>q. unat ptr div 4096 \<le> q \<and> q < (unat ptr + unat i) div 4096 \<and> q < 2 ^ 20 \<longrightarrow> mapped s (of_nat q)"
    and al: "unat ptr mod 4096 = 0 \<longrightarrow> unat i mod 4096 = 0"
  shows "\<exists>b s'. safe_loop resolve ptr sz i s = Some (b, s') \<and> good s' \<and> (\<forall>a. askable a \<longrightarrow> mapped s' (a div 4096) = mapped s (a div 4096)) \<and>
     (b \<longrightarrow> 0 < unat sz \<longrightarrow> (\<forall>q. unat ptr div 4096 \<le> q \<and> q < (unat ptr + unat sz - 1) div 4096 \<longrightarrow> mapped s (of_nat q)) \<and>
        (unat ptr mod 4096 = 0 \<longrightarrow> mapped s (of_nat ((unat ptr + unat sz - 1) div 4096)))) \<and>
     ((\<forall>q. unat ptr div 4096 \<le> q \<and> q \<le> (unat ptr + unat sz - 1) div 4096 \<longrightarrow> mapped s (of_nat q)) \<longrightarrow> b)"
  using assms(1) n seen al
proof (induction "unat sz - unat i" arbitrary: i s rule: less_induct)
  case less
  show ?case
  proof (cases "i < sz")
    case False
    then have ge: "unat sz \<le> unat i"
      by (simp add: word_less_nat_alt)
    have "q < (unat ptr + unat i) div 4096" if "q < (unat ptr + unat sz - 1) div 4096" for q
      using that ge div_le_mono [of "unat ptr + unat sz - 1" "unat ptr + unat i" 4096] by linarith
    moreover have "q < 2 ^ 20" if "q \<le> (unat ptr + unat sz - 1) div 4096" "0 < unat sz" for q
      using that P(2) by simp
    moreover have "(unat ptr + unat sz - 1) div 4096 < (unat ptr + unat i) div 4096"
      if z: "0 < unat sz" and m: "unat ptr mod 4096 = 0"
    proof -
      have "(unat ptr + unat i) mod 4096 = 0"
        using m less.prems(4) by (simp add: mod_add_eq [symmetric])
      then show ?thesis
        using z ge by (intro less_mult_imp_div_less) (simp add: mult.commute flip: dvd_eq_mod_eq_0)
    qed
    moreover have "unat ptr div 4096 \<le> (unat ptr + unat sz - 1) div 4096" if "0 < unat sz"
      using that by (intro div_le_mono) simp
    ultimately show ?thesis
      using less.prems(1,3) safe_loop_done [OF False] by auto
  next
    case True
    then have lt: "unat i < unat sz"
      by (simp add: word_less_nat_alt)
    have u: "unat (ptr + i) = unat ptr + unat i"
      using lt P by (simp add: unat_word_ariths)
    have ask: "askable (ptr + i)"
      using u P by (intro dom [rule_format]) simp
    have pg: "(ptr + i) div 4096 = of_nat ((unat ptr + unat i) div 4096)"
      by (simp add: word_unat_eq_iff unat_div u unat_of_nat take_bit_eq_mod) (use lt P in simp)
    have le: "(unat ptr + unat i) div 4096 \<le> (unat ptr + unat sz - 1) div 4096" "unat ptr div 4096 \<le> (unat ptr + unat i) div 4096"
      using lt by (auto intro!: div_le_mono)
    show ?thesis
    proof (cases "mapped s ((ptr + i) div 4096)")
      case False
      from safe_loop_fail [OF less.prems(1) ask True False] show ?thesis
        using False le unfolding pg by auto
    next
      case m: True
      define k where "k = unat (resolve_step (ptr + i))"
      note st = resolve_step_bounds [of "ptr + i", folded k_def, unfolded u]
      have ui: "unat (i + resolve_step (ptr + i)) = unat i + k"
        using st(2) lt P by (simp add: unat_word_ariths k_def)
      obtain s1 where s1: "safe_loop resolve ptr sz i s = safe_loop resolve ptr sz (i + resolve_step (ptr + i)) s1" "good s1"
        "\<forall>a. askable a \<longrightarrow> mapped s1 (a div 4096) = mapped s (a div 4096)"
        using safe_loop_pass [OF less.prems(1) ask True m] by blast
      have same: "mapped s1 (of_nat q) = mapped s (of_nat q)" if "unat ptr div 4096 \<le> q" "q < 2 ^ 20" for q
        by (rule kept_pages [OF s1(3) dom P(1) that])
      have nx: "(unat ptr + unat i + k) div 4096 \<le> (unat ptr + unat i) div 4096 + 1"
        by (rule next_page_or_same) (use st in simp_all)
      have seen1: "\<forall>q. unat ptr div 4096 \<le> q \<and> q < (unat ptr + unat (i + resolve_step (ptr + i))) div 4096 \<and> q < 2 ^ 20 \<longrightarrow> mapped s1 (of_nat q)"
      proof (intro allI impI, elim conjE)
        fix q
        assume q: "unat ptr div 4096 \<le> q" "q < (unat ptr + unat (i + resolve_step (ptr + i))) div 4096" "q < 2 ^ 20"
        then have "q < (unat ptr + unat i) div 4096 \<or> q = (unat ptr + unat i) div 4096"
          using nx by (simp add: ui add.assoc) linarith
        then have "mapped s (of_nat q)"
          using less.prems(3) q m pg by auto
        then show "mapped s1 (of_nat q)"
          using same q by simp
      qed
      have "\<exists>b s'. safe_loop resolve ptr sz (i + resolve_step (ptr + i)) s1 = Some (b, s') \<and> good s' \<and> (\<forall>a. askable a \<longrightarrow> mapped s' (a div 4096) = mapped s1 (a div 4096)) \<and>
     (b \<longrightarrow> 0 < unat sz \<longrightarrow> (\<forall>q. unat ptr div 4096 \<le> q \<and> q < (unat ptr + unat sz - 1) div 4096 \<longrightarrow> mapped s1 (of_nat q)) \<and>
        (unat ptr mod 4096 = 0 \<longrightarrow> mapped s1 (of_nat ((unat ptr + unat sz - 1) div 4096)))) \<and>
     ((\<forall>q. unat ptr div 4096 \<le> q \<and> q \<le> (unat ptr + unat sz - 1) div 4096 \<longrightarrow> mapped s1 (of_nat q)) \<longrightarrow> b)"
      proof (rule less.hyps)
        show "unat sz - unat (i + resolve_step (ptr + i)) < unat sz - unat i"
          using st(1) lt unfolding ui by simp
        show "unat (i + resolve_step (ptr + i)) \<le> unat sz + 4096"
          using st(2) lt unfolding ui by simp
        show "unat ptr mod 4096 = 0 \<longrightarrow> unat (i + resolve_step (ptr + i)) mod 4096 = 0"
        proof
          assume "unat ptr mod 4096 = 0"
          then have "unat i mod 4096 = 0" "(unat ptr + unat i) mod 4096 = 0"
            using less.prems(4) by (simp_all add: mod_add_eq [symmetric])
          then show "unat (i + resolve_step (ptr + i)) mod 4096 = 0"
            using st(3) unfolding ui by simp
        qed
      qed (use s1(2) seen1 in auto)
      moreover have "q < 2 ^ 20" if "q \<le> (unat ptr + unat sz - 1) div 4096" for q
        using that last_page_bound [OF P(2)] lt by simp
      ultimately show ?thesis
        using s1(1,3) same le by auto
    qed
  qed
qed

end

section \<open>The paging model resolves addresses\<close>

definition page_backed :: "space \<Rightarrow> u32 \<Rightarrow> bool" where
  "page_backed s p \<longleftrightarrow> raw_entry s (unat p) AND MM2_Address_Mask \<noteq> 0"

definition plain_space :: "nat \<Rightarrow> space \<Rightarrow> bool" where
  "plain_space fp s \<longleftrightarrow> space_ok fp s \<and> (regions (fst s) = None \<or> regions (fst s) = Some [])"

lemma virt2phys_plain:
  assumes "plain_space fp s" "page_index fp (addr div 4096)"
  shows "plain_space fp (snd (virt2phys fp addr s))" "fst (virt2phys fp addr s) = translate (raw_entry s (unat (addr div 4096))) addr"
    "page_index fp p \<Longrightarrow> page_backed (snd (virt2phys fp addr s)) p = page_backed s p"
    "page_index fp p \<Longrightarrow> raw_entry (snd (virt2phys fp addr s)) (unat p) = raw_entry s (unat p)"
proof -
  have ok: "space_ok fp s" and r: "regions (fst s) = None \<or> regions (fst s) = Some []"
    using assms(1) by (simp_all add: plain_space_def)
  have i: "unat (addr div 4096) < 2 ^ 20"
    using assms(2) by (simp add: page_index_def)
  note g = get_entry_space [OF ok i]
  have v: "snd (virt2phys fp addr s) = snd (get_table_entry fp (addr div 4096) s)"
    by (simp add: virt2phys_def Let_def split_beta)
  have "regions (fst (snd (virt2phys fp addr s))) = regions (fst s)"
    unfolding v using quiet_hushed [OF g(1)] by (simp add: hushed_def)
  then show "plain_space fp (snd (virt2phys fp addr s))"
    using g(2) r by (simp add: v plain_space_def)
  show "fst (virt2phys fp addr s) = translate (raw_entry s (unat (addr div 4096))) addr"
    by (rule virt2phys_translate [OF ok assms(2)])
  show raw: "raw_entry (snd (virt2phys fp addr s)) (unat p) = raw_entry s (unat p)" if "page_index fp p"
    unfolding v by (rule page_table.get_keeps [OF ok assms(2) that])
  show "page_backed (snd (virt2phys fp addr s)) p = page_backed s p" if "page_index fp p"
    by (simp add: page_backed_def raw [OF that])
qed

lemma resolve_addr_plain:
  assumes "plain_space fp s" "page_index fp (addr div 4096)"
  shows "resolve_addr fp run addr s =
    (let s1 = snd (virt2phys fp addr s); v = virt2phys fp addr s1
     in (if fst v \<noteq> 0 then (if fst v mod 4096 = 0 then 4096 else fst v mod 4096) else 0, snd v))"
proof -
  have "plain_space fp (snd (virt2phys fp addr s))"
    by (rule virt2phys_plain [OF assms])
  then have "handle_pf fp addr s = (None, snd (virt2phys fp addr s))"
    by (auto simp: handle_pf_def is_mapped_def split_beta plain_space_def)
  then show ?thesis
    by (simp add: resolve_addr_def split_beta Let_def)
qed

lemma translate_offset:
  assumes "e AND MM2_Address_Mask \<noteq> 0"
  shows "translate e addr \<noteq> 0" "translate e addr mod 4096 = addr mod 4096"
proof -
  have d: "(e AND NOT (mask 12)) AND (addr AND mask 12) = 0"
    by (rule bit_eqI) (auto simp: bit_simps)
  have t: "translate e addr = (e AND NOT (mask 12)) OR (addr AND mask 12)"
    using assms by (simp add: translate_def mask_page disjunctive_add_eq_or [OF d])
  show "translate e addr \<noteq> 0"
    using assms by (simp add: t mask_page or_eq_0_iff)
  have "take_bit 12 (translate e addr) = take_bit 12 addr"
    unfolding t by (rule bit_eqI) (auto simp: bit_simps)
  then show "translate e addr mod 4096 = addr mod 4096"
    by (simp add: take_bit_eq_mod)
qed

interpretation paging: resolver "resolve_addr fp run" "plain_space fp" "\<lambda>a. page_index fp (a div 4096)" page_backed for fp run
proof
  fix s addr a
  assume s: "plain_space fp s" and addr: "page_index fp (addr div 4096)"
  note v1 = virt2phys_plain [OF s addr]
  note v2 = virt2phys_plain [OF v1(1) addr]
  note r = resolve_addr_plain [OF s addr, of run, unfolded Let_def]
  show "fst (resolve_addr fp run addr s) = (if page_backed s (addr div 4096) then resolve_step addr else 0)"
    unfolding r fst_conv v2(2) v1(4) [OF addr] using translate_offset [of "raw_entry s (unat (addr div 4096))" addr]
    by (cases "page_backed s (addr div 4096)") (auto simp: page_backed_def resolve_step_def translate_def Let_def)
  show "plain_space fp (snd (resolve_addr fp run addr s))"
    unfolding r snd_conv by (rule v2(1))
  show "page_backed (snd (resolve_addr fp run addr s)) (a div 4096) = page_backed s (a div 4096)"
    if "page_index fp (a div 4096)"
    unfolding r snd_conv using v1(3) [OF that] v2(3) [OF that] by simp
qed

section \<open>What the checks establish\<close>

lemma user_pages_askable: "fp < 2 ^ 18 \<Longrightarrow> 2 ^ 30 \<le> unat a \<Longrightarrow> page_index fp (a div 4096)"
proof -
  assume f: "fp < 2 ^ 18" and a: "2 ^ 30 \<le> unat a"
  have "2 ^ 30 div 4096 \<le> unat a div 4096"
    using a by (rule div_le_mono)
  moreover have "unat a div 4096 < 2 ^ 20"
    using unsigned_less [of a] by (intro less_mult_imp_div_less) simp
  ultimately show ?thesis
    using f by (simp add: page_index_def unat_div)
qed

lemma boundary_value: "unat MM2_Kernel_Boundary = 2 ^ 30"
  by (simp add: MM2_Kernel_Boundary_def)

lemma last_page_space:
  "\<exists>s. plain_space 384 s \<and> page_backed s 0xFFFFF \<and> \<not> page_backed s 0"
proof -
  have i: "page_index 384 ((0xFFFFF000 AND MM2_Address_Mask) div 4096)"
    by (simp add: page_index_def MM2_Address_Mask_def)
  have n: "3 \<le> nfree demo_space"
    unfolding nfree_def demo_free by simp
  obtain s where s: "map_page_at 384 0xFFFFF000 3 demo_space = Some (Inr s)"
    using map_page_at_returns [OF demo_space_ok i n] by blast
  obtain a where a: "a \<in> set (free_addrs (pages_of (snd demo_space)))" "a AND MM2_Address_Mask = a"
    "page_mapped 384 2 (unat ((0xFFFFF000 AND MM2_Address_Mask) div 4096 :: u32)) (a OR 3) demo_space s"
    by (rule map_page_at_ok [OF demo_space_ok i s])
  have u: "unat ((0xFFFFF000 AND MM2_Address_Mask) div 4096 :: u32) = 0xFFFFF"
    by (simp add: MM2_Address_Mask_def)
  have ok: "space_ok 384 s" and r: "raw_entry s 0xFFFFF = a OR 3" "raw_entry s 0 = raw_entry demo_space 0"
    using a(3) unfolding page_mapped_def u by auto
  define s' :: space where "s' = ((fst s)\<lparr>regions := None\<rparr>, snd s)"
  have res: "reserved ((fst s)\<lparr>regions := None\<rparr>, snd s)"
    by (rule reserved_side_change [of s]) (use ok in \<open>simp_all add: space_ok_def table_addr_def fun_eq_iff\<close>)
  have c: "space_ok 384 s'" "raw_entry s' = raw_entry s"
    by (rule space_ok_cong [OF ok]; simp add: s'_def res)+
  have "(a OR 3) AND MM2_Address_Mask = a"
    by (rule or_masked [OF a(2)]) (simp add: MM2_Address_Mask_def)
  moreover have "a \<noteq> 0"
    using a(1) unfolding demo_free by auto
  ultimately have "plain_space 384 s' \<and> page_backed s' 0xFFFFF \<and> \<not> page_backed s' 0"
    using c by (simp add: plain_space_def page_backed_def r demo_entry) (simp add: s'_def MM2_Address_Mask_def)
  then show ?thesis
    by blast
qed



text \<open>C26. 
  A pointer into the middle of a mapped user page is accepted with every size up to its offset in the
  page, whatever follows: the check does not look at the next page, which the range may reach. At the end
  of the address space the next page is the first page of the kernel.
\<close>

theorem is_safe_ptr_overruns:
  assumes "plain_space fp s" and "fp < 2 ^ 18" and "ptr \<ge> MM2_Kernel_Boundary" and "page_backed s (ptr div 4096)"
    and "sz \<le> ptr mod 4096"
  shows "\<exists>s'. is_safe_ptr (resolve_addr fp run) ptr sz s = Some (True, s')"
proof (cases "sz = 0")
  case True
  then show ?thesis
    using assms(3) by (simp add: is_safe_ptr_def paging.safe_loop_done)
next
  case False
  then have lt: "0 < sz"
    by (simp add: word_neq_0_conv)
  have "page_index fp ((ptr + 0) div 4096)"
    using user_pages_askable [OF assms(2), of ptr] assms(3) by (simp add: word_le_nat_alt boundary_value)
  from paging.safe_loop_pass [OF assms(1) this lt, of run] assms(4) obtain s1 where
    s1: "safe_loop (resolve_addr fp run) ptr sz 0 s = safe_loop (resolve_addr fp run) ptr sz (0 + resolve_step (ptr + 0)) s1"
    by auto
  have "ptr mod 4096 \<noteq> 0"
    using assms(5) lt by auto
  then have "resolve_step ptr = ptr mod 4096"
    by (simp add: resolve_step_def)
  then have "\<not> resolve_step ptr < sz"
    using assms(5) by simp
  then show ?thesis
    using assms(3) s1 by (simp add: is_safe_ptr_def paging.safe_loop_done)
qed

theorem is_safe_ptr_overruns_witness:
  "\<exists>s s'. \<not> page_backed s ((0xFFFFFF00 + 0x1FF) div 4096) \<and> 0xFFFFFF00 + 0x1FF < MM2_Kernel_Boundary \<and>
     is_safe_ptr (resolve_addr 384 (\<lambda>r a s. s)) 0xFFFFFF00 0x200 s = Some (True, s')"
proof -
  obtain s where s: "plain_space 384 s" "page_backed s 0xFFFFF" "\<not> page_backed s 0"
    using last_page_space by blast
  have "page_backed s (0xFFFFFF00 div 4096)"
    using s(2) by simp
  from is_safe_ptr_overruns [OF s(1) _ _ this, of "0x200" "\<lambda>r a s. s"]
  have "\<exists>s'. is_safe_ptr (resolve_addr 384 (\<lambda>r a s. s)) 0xFFFFFF00 0x200 s = Some (True, s')"
    by (simp add: MM2_Kernel_Boundary_def)
  moreover have "(0xFFFFFF00 + 0x1FF :: u32) div 4096 = 0" "0xFFFFFF00 + 0x1FF < MM2_Kernel_Boundary"
    by (simp_all add: MM2_Kernel_Boundary_def)
  ultimately show ?thesis
    using s(3) by metis
qed


section \<open>Strings\<close>

definition user_pages_kept :: "space \<Rightarrow> space \<Rightarrow> bool" where
  "user_pages_kept s s' \<longleftrightarrow> (\<forall>p. 2 ^ 18 \<le> unat p \<longrightarrow> unat p < 2 ^ 20 \<longrightarrow> page_backed s' p = page_backed s p)"

lemma user_pages_keptI:
  assumes keep: "\<forall>a. page_index fp (a div 4096) \<longrightarrow> page_backed s' (a div 4096) = page_backed s (a div 4096)" and "fp < 2 ^ 18"
  shows "user_pages_kept s s'"
  unfolding user_pages_kept_def
proof (intro allI impI)
  fix p :: u32
  assume p: "2 ^ 18 \<le> unat p" "unat p < 2 ^ 20"
  have u: "unat (p * 4096) = unat p * 4096"
    using p by (simp add: unat_word_ariths)
  have "p * 4096 div 4096 = p" "page_index fp p"
    using p assms(2) by (simp_all add: word_unat_eq_iff unat_div u page_index_def)
  then show "page_backed s' p = page_backed s p"
    using keep by metis
qed

definition safe_byte :: "space \<Rightarrow> u32 \<Rightarrow> bool" where
  "safe_byte s a \<longleftrightarrow> a \<ge> MM2_Kernel_Boundary \<and> page_backed s (a div 4096)"

lemma is_safe_byte:
  assumes "plain_space fp s" and "fp < 2 ^ 18"
  shows "\<exists>s'. is_safe_ptr (resolve_addr fp run) a 1 s = Some (safe_byte s a, s') \<and> plain_space fp s' \<and> user_pages_kept s s'"
proof (cases "a \<ge> MM2_Kernel_Boundary")
  case False
  then have "is_safe_ptr (resolve_addr fp run) a 1 s = Some (safe_byte s a, s)"
    by (simp add: is_safe_ptr_def safe_byte_def)
  moreover have "user_pages_kept s s"
    by (simp add: user_pages_kept_def)
  ultimately show ?thesis
    using assms(1) by blast
next
  case True
  then have ask: "page_index fp ((a + 0) div 4096)"
    using user_pages_askable [OF assms(2), of a] by (simp add: word_le_nat_alt boundary_value)
  have loop: "is_safe_ptr (resolve_addr fp run) a 1 s = safe_loop (resolve_addr fp run) a 1 0 s"
    using True by (simp add: is_safe_ptr_def)
  have one: "0 < (1 :: u32)"
    by simp
  show ?thesis
  proof (cases "page_backed s ((a + 0) div 4096)")
    case False
    obtain s' where s': "safe_loop (resolve_addr fp run) a 1 0 s = Some (False, s')" "plain_space fp s'"
      "\<forall>a. page_index fp (a div 4096) \<longrightarrow> page_backed s' (a div 4096) = page_backed s (a div 4096)"
      using paging.safe_loop_fail [OF assms(1) ask one False, of run] by (elim exE conjE)
    have "\<not> safe_byte s a"
      using False by (simp add: safe_byte_def)
    then show ?thesis
      unfolding loop s'(1) using s'(2) user_pages_keptI [OF s'(3) assms(2)] by blast
  next
    case b: True
    obtain s' where s': "safe_loop (resolve_addr fp run) a 1 0 s = safe_loop (resolve_addr fp run) a 1 (0 + resolve_step (a + 0)) s'"
      "plain_space fp s'" "\<forall>a. page_index fp (a div 4096) \<longrightarrow> page_backed s' (a div 4096) = page_backed s (a div 4096)"
      using paging.safe_loop_pass [OF assms(1) ask one b, of run] by (elim exE conjE)
    have "\<not> 0 + resolve_step (a + 0) < 1"
      using resolve_step_bounds(1) [of a] by (simp add: word_less_nat_alt)
    note fin = paging.safe_loop_done [OF this]
    have "safe_byte s a"
      using b True by (simp add: safe_byte_def)
    then show ?thesis
      unfolding loop s'(1) fin using s'(2) user_pages_keptI [OF s'(3) assms(2)] by blast
  qed
qed

lemma succ_of_top: "unat (w::u32) = 2 ^ 32 - 1 \<Longrightarrow> w + 1 = 0"
  by (simp add: word_unat_eq_iff unat_word_ariths)

lemma unat_succ: "unat (w::u32) \<noteq> 2 ^ 32 - 1 \<Longrightarrow> unat (w + 1) = unat w + 1"
proof -
  assume "unat w \<noteq> 2 ^ 32 - 1"
  moreover have "unat w < 2 ^ 32"
    using unsigned_less [of w] by simp
  ultimately show ?thesis
    by (simp add: unat_word_ariths)
qed

lemma ex_Suc_shift: "\<not> P 0 \<Longrightarrow> (\<exists>n. P n) \<longleftrightarrow> (\<exists>n. P (Suc n))"
  by (metis not0_implies_Suc)

lemma all_le_Suc_shift: "Q 0 \<Longrightarrow> (\<forall>k \<le> Suc n. Q k) \<longleftrightarrow> (\<forall>k \<le> n. Q (Suc k))"
  by (metis Suc_le_mono not0_implies_Suc)

definition terminated :: "(u32 \<Rightarrow> u8) \<Rightarrow> (u32 \<Rightarrow> bool) \<Rightarrow> u32 \<Rightarrow> bool" where
  "terminated mem P w \<longleftrightarrow> (\<exists>n. mem (w + of_nat n) = 0 \<and> (\<forall>k \<le> n. P (w + of_nat k)))"

lemma terminated_first: "terminated mem P w \<Longrightarrow> P w"
  unfolding terminated_def by (auto dest: spec [of _ "0 :: nat"])

lemma terminated_zero: "mem w = 0 \<Longrightarrow> P w \<Longrightarrow> terminated mem P w"
  unfolding terminated_def by (rule exI [of _ "0 :: nat"]) simp

lemma terminated_unfold:
  assumes "mem w \<noteq> 0" "P w"
  shows "terminated mem P w \<longleftrightarrow> terminated mem P (w + 1)"
proof -
  have shift: "w + of_nat (Suc n) = w + 1 + of_nat n" for n
    by simp
  have "(\<exists>n. mem (w + of_nat n) = 0 \<and> (\<forall>k \<le> n. P (w + of_nat k))) \<longleftrightarrow>
    (\<exists>n. mem (w + of_nat (Suc n)) = 0 \<and> (\<forall>k \<le> Suc n. P (w + of_nat k)))"
    by (rule ex_Suc_shift) (simp add: assms(1))
  moreover have "(\<forall>k \<le> Suc n. P (w + of_nat k)) \<longleftrightarrow> (\<forall>k \<le> n. P (w + of_nat (Suc k)))" for n
    by (rule all_le_Suc_shift) (simp add: assms(2))
  ultimately show ?thesis
    unfolding terminated_def by (simp only: shift)
qed

lemma safe_byte_kept:
  assumes "user_pages_kept s s'"
  shows "safe_byte s' = safe_byte s"
proof
  fix a
  show "safe_byte s' a = safe_byte s a"
  proof (cases "a \<ge> MM2_Kernel_Boundary")
    case True
    then have "2 ^ 18 \<le> unat (a div 4096)"
      using div_le_mono [of "2 ^ 30" "unat a" 4096] by (simp add: word_le_nat_alt boundary_value unat_div)
    moreover have "unat (a div 4096) < 2 ^ 20"
      unfolding unat_div using unsigned_less [of a] by (intro less_mult_imp_div_less) simp
    ultimately have "page_backed s' (a div 4096) = page_backed s (a div 4096)"
      using assms unfolding user_pages_kept_def by blast
    then show ?thesis
      by (simp add: safe_byte_def)
  qed (simp add: safe_byte_def)
qed

lemma safe_string_loop_spec:
  assumes "plain_space fp s" and "fp < 2 ^ 18"
  shows "\<exists>s'. safe_string_loop (resolve_addr fp run) mem ptr i s = Some (terminated mem (safe_byte s) (ptr + i), s')"
  using assms(1)
proof (induction "2 ^ 32 - unat (ptr + i)" arbitrary: i s rule: less_induct)
  case less
  obtain s1 where s1: "is_safe_ptr (resolve_addr fp run) (ptr + i) 1 s = Some (safe_byte s (ptr + i), s1)" "plain_space fp s1"
    "user_pages_kept s s1"
    using is_safe_byte [OF less.prems assms(2)] by blast
  note keep = safe_byte_kept [OF s1(3)]
  note body = safe_string_loop.simps [of "resolve_addr fp run" mem ptr i s, unfolded s1(1) option.case prod.case]
  have next_i: "ptr + (i + 1) = ptr + i + 1"
    by simp
  consider (out) "\<not> safe_byte s (ptr + i)" | (zero) "safe_byte s (ptr + i)" "mem (ptr + i) = 0"
    | (more) "safe_byte s (ptr + i)" "mem (ptr + i) \<noteq> 0"
    by blast
  then show ?case
  proof cases
    case out
    then have "\<not> terminated mem (safe_byte s) (ptr + i)"
      using terminated_first by blast
    then show ?thesis
      unfolding body using out by simp
  next
    case zero
    then show ?thesis
      unfolding body using terminated_zero [of mem "ptr + i" "safe_byte s"] by simp
  next
    case more
    have eq: "terminated mem (safe_byte s) (ptr + i) = terminated mem (safe_byte s1) (ptr + (i + 1))"
      unfolding keep next_i using more by (intro terminated_unfold)
    have step: "safe_string_loop (resolve_addr fp run) mem ptr i s = safe_string_loop (resolve_addr fp run) mem ptr (i + 1) s1"
      unfolding body using more by simp
    show ?thesis
    proof (cases "unat (ptr + i) = 2 ^ 32 - 1")
      case True
      have "ptr + (i + 1) = 0"
        unfolding next_i by (rule succ_of_top [OF True])
      then have no: "\<not> safe_byte s1 (ptr + (i + 1))"
        by (simp add: safe_byte_def MM2_Kernel_Boundary_def)
      then have nt: "\<not> terminated mem (safe_byte s1) (ptr + (i + 1))"
        using terminated_first by blast
      obtain s2 where s2: "is_safe_ptr (resolve_addr fp run) (ptr + (i + 1)) 1 s1 = Some (safe_byte s1 (ptr + (i + 1)), s2)"
        using is_safe_byte [OF s1(2) assms(2)] by blast
      show ?thesis
        unfolding step eq safe_string_loop.simps [of "resolve_addr fp run" mem ptr "i + 1" s1] s2 option.case prod.case
        using no nt by simp
    next
      case False
      have "unat (ptr + (i + 1)) = unat (ptr + i) + 1"
        unfolding next_i by (rule unat_succ [OF False])
      moreover have "unat (ptr + i) < 2 ^ 32"
        using unsigned_less [of "ptr + i"] by simp
      ultimately have "2 ^ 32 - unat (ptr + (i + 1)) < 2 ^ 32 - unat (ptr + i)"
        by (simp only: diff_less_mono2)
      from less.hyps [OF this s1(2)] show ?thesis
        unfolding step eq .
    qed
  qed
qed



end
