(* ===== verification/Block_Cache.thy ===== *)
theory Block_Cache
  imports Kernel_Prelude
begin

text \<open>
  The block cache module, src/src/modules/cache/cache.cpp: blocks of one size under 64-bit numbers, each
  with a counter of its usage; when the cache is full the block of least usage goes.

  Blocks are lists of bytes. The loop of \<open>Store\<close> that makes room is a partial function, because for a
  cache that may hold no block at all it does not end.

  The contract of a cache towards the device drivers is the locale \<open>block_cache\<close>: a lookup may forget
  what was stored but never returns anything else. The lemmas show that \<open>Cache\<close> fulfils it.
\<close>

section \<open>Cache\<close>

(* src/src/modules/cache/cache.cpp:10-14 CacheEntry *)
record CacheEntry =
  cb_id :: u64
  cb_buf :: "u8 list"
  cb_usage :: u32

(* src/src/modules/cache/cache.cpp:8-31 Cache *)
record Cache =
  cb_entries :: "CacheEntry list"
  blockSize :: u32
  maxBlocks :: u32
  cb_hits :: u64
  cb_misses :: u64

(* src/src/modules/cache/cache.cpp:6-6 MaxCacheSize *)
definition MaxCacheSize :: u32 where
  "MaxCacheSize = 4 * 1024 * 1024"

(* src/src/modules/cache/cache.cpp:46-49 Cache::Cache *)
definition Cache_new :: "u32 \<Rightarrow> u32 \<Rightarrow> Cache" where
  "Cache_new bS mB =
     \<lparr>cb_entries = [], blockSize = bS,
      maxBlocks = (if bS * mB > MaxCacheSize then MaxCacheSize div bS else mB), cb_hits = 0, cb_misses = 0\<rparr>"

(* src/src/modules/cache/cache.cpp:61-68 Cache::Prune *)
fun prune_scan :: "CacheEntry list \<Rightarrow> nat \<Rightarrow> u32 \<Rightarrow> nat \<Rightarrow> nat" where
  "prune_scan [] i mn idx = idx"
| "prune_scan (e # es) i mn idx =
     (if cb_usage e \<le> mn then prune_scan es (Suc i) (cb_usage e) i else prune_scan es (Suc i) mn idx)"

(* src/src/modules/cache/cache.cpp:57-72 Cache::Prune *)
definition Prune :: "Cache \<Rightarrow> Cache" where
  "Prune c =
     (let idx = prune_scan (cb_entries c) 0 (maxBlocks c) (unat (maxBlocks c))
      in if idx \<noteq> unat (maxBlocks c) then c\<lparr>cb_entries := erase_at idx (cb_entries c)\<rparr> else c)"

(* src/src/modules/cache/cache.cpp:87-87 Cache::Store *)
partial_function (option) prune_loop :: "Cache \<Rightarrow> Cache option" where
  "prune_loop c = (if length (cb_entries c) \<ge> unat (maxBlocks c) then prune_loop (Prune c) else Some c)"

text \<open>The first entry of a block, as the loops over the entries find it.\<close>

abbreviation entry_index :: "u64 \<Rightarrow> CacheEntry list \<Rightarrow> nat option" where
  "entry_index n \<equiv> find_index (\<lambda>e. cb_id e = n)"

(* src/src/modules/cache/cache.cpp:78-83 Cache::Store *)
definition use_entry :: "nat \<Rightarrow> Cache \<Rightarrow> Cache" where
  "use_entry i c =
     c\<lparr>cb_entries :=
         (if cb_usage (cb_entries c ! i) < maxBlocks c
          then (cb_entries c)[i := (cb_entries c ! i)\<lparr>cb_usage := cb_usage (cb_entries c ! i) + 1\<rparr>]
          else map (\<lambda>(j, f). if j \<noteq> i \<and> cb_usage f > 0 then f\<lparr>cb_usage := cb_usage f - 1\<rparr> else f)
                 (zip [0..<length (cb_entries c)] (cb_entries c)))\<rparr>"

(* src/src/modules/cache/cache.cpp:74-95 Cache::Store *)
definition Store :: "u64 \<Rightarrow> u8 list \<Rightarrow> Cache \<Rightarrow> Cache option" where
  "Store n buf c =
     (let b = take (unat (blockSize c)) buf
      in case entry_index n (cb_entries c) of
           Some i \<Rightarrow> Some (use_entry i (c\<lparr>cb_entries := (cb_entries c)[i := (cb_entries c ! i)\<lparr>cb_buf := b\<rparr>]\<rparr>))
         | None \<Rightarrow>
             (case prune_loop c of
                None \<Rightarrow> None
              | Some c' \<Rightarrow> Some (c'\<lparr>cb_entries := cb_entries c' @ [\<lparr>cb_id = n, cb_buf = b, cb_usage = 1\<rparr>]\<rparr>)))"

text \<open>The result is the block copied to the caller's buffer, if there is one.\<close>

(* src/src/modules/cache/cache.cpp:97-117 Cache::Retrieve *)
definition Retrieve :: "u64 \<Rightarrow> Cache \<Rightarrow> u8 list option \<times> Cache" where
  "Retrieve n c =
     (case entry_index n (cb_entries c) of
        Some i \<Rightarrow>
          (let b = cb_buf (cb_entries c ! i); c1 = use_entry i c;
               c2 = c1\<lparr>cb_hits := cb_hits c1 + 1\<rparr>
           in (Some b, c2\<lparr>cb_hits := cb_hits c2 + 1\<rparr>))
      | None \<Rightarrow> (None, c\<lparr>cb_misses := cb_misses c + 1\<rparr>))"

(* src/src/modules/cache/cache.cpp:120-127 Cache::Drop *)
function drop_loop :: "u64 \<Rightarrow> nat \<Rightarrow> CacheEntry list \<Rightarrow> CacheEntry list" where
  "drop_loop n i es =
     (if i < length es
      then drop_loop n (Suc i) (if cb_id (es ! i) = n then erase_at i es else es)
      else es)"
  by pat_completeness auto
termination
  by (relation "measure (\<lambda>(n, i, es). length es - i)") (auto simp: erase_at_def)

declare drop_loop.simps [simp del]

(* src/src/modules/cache/cache.cpp:119-128 Cache::Drop *)
definition Drop :: "u64 \<Rightarrow> Cache \<Rightarrow> Cache" where
  "Drop n c = c\<lparr>cb_entries := drop_loop n 0 (cb_entries c)\<rparr>"

section \<open>Invariant\<close>

definition cache_lookup :: "Cache \<Rightarrow> u64 \<Rightarrow> u8 list option" where
  "cache_lookup c n = map_of (map (\<lambda>e. (cb_id e, cb_buf e)) (cb_entries c)) n"

definition cache_ok :: "Cache \<Rightarrow> bool" where
  "cache_ok c \<longleftrightarrow>
     0 < maxBlocks c \<and> distinct (map cb_id (cb_entries c)) \<and> length (cb_entries c) \<le> unat (maxBlocks c) \<and>
     (\<forall>e \<in> set (cb_entries c). cb_usage e \<le> maxBlocks c \<and> length (cb_buf e) = unat (blockSize c))"

lemma entry_index_Some:
  "entry_index n es = Some i \<Longrightarrow> i < length es \<and> cb_id (es ! i) = n"
  by (drule find_index_SomeD) simp

lemma entry_index_None: "entry_index n es = None \<longleftrightarrow> n \<notin> cb_id ` set es"
  by (auto simp: find_index_None_iff)

lemma lookup_index:
  "cache_lookup c n = map_option (\<lambda>i. cb_buf (cb_entries c ! i)) (entry_index n (cb_entries c))"
proof -
  have "map_of (map (\<lambda>e. (cb_id e, cb_buf e)) es) n = map_option (\<lambda>i. cb_buf (es ! i)) (entry_index n es)" for es
    by (induction es) (auto simp: option.map_comp comp_def)
  then show ?thesis
    by (simp add: cache_lookup_def)
qed

text \<open>Counting usage changes neither the numbers nor the blocks.\<close>

lemma use_entry_keeps:
  assumes "i < length (cb_entries c)"
  shows "map cb_id (cb_entries (use_entry i c)) = map cb_id (cb_entries c)"
    "map cb_buf (cb_entries (use_entry i c)) = map cb_buf (cb_entries c)"
    "maxBlocks (use_entry i c) = maxBlocks c" "blockSize (use_entry i c) = blockSize c"
proof -
  let ?g = "\<lambda>(j, f). if j \<noteq> i \<and> cb_usage f > 0 then f\<lparr>cb_usage := cb_usage f - 1\<rparr> else f"
  have "map cb_id (map ?g ps) = map cb_id (map snd ps)" "map cb_buf (map ?g ps) = map cb_buf (map snd ps)" for ps
    by (induction ps) auto
  from this [of "zip [0..<length (cb_entries c)] (cb_entries c)"]
  show "map cb_id (cb_entries (use_entry i c)) = map cb_id (cb_entries c)"
    "map cb_buf (cb_entries (use_entry i c)) = map cb_buf (cb_entries c)"
    using list_update_id [of "map cb_id (cb_entries c)" i] list_update_id [of "map cb_buf (cb_entries c)" i] assms
    by (simp_all add: use_entry_def map_update del: map_map)
qed (simp_all add: use_entry_def)

lemma word_dec_le: "0 < w \<Longrightarrow> w \<le> m \<Longrightarrow> w - 1 \<le> (m :: u32)"
proof -
  assume w: "0 < w" "w \<le> m"
  then have "1 \<le> w"
    by (simp add: word_le_nat_alt word_less_nat_alt)
  then have "unat (w - 1) = unat w - 1"
    by (simp add: unat_sub)
  then show "w - 1 \<le> m"
    using w(2) by (simp add: word_le_nat_alt)
qed

lemma word_inc_le: "w < m \<Longrightarrow> w + 1 \<le> (m :: u32)"
  by (rule inc_le)

lemma use_entry_usage:
  assumes "i < length (cb_entries c)" "\<forall>e \<in> set (cb_entries c). cb_usage e \<le> maxBlocks c"
  shows "\<forall>e \<in> set (cb_entries (use_entry i c)). cb_usage e \<le> maxBlocks c"
proof (cases "cb_usage (cb_entries c ! i) < maxBlocks c")
  case True
  let ?e = "(cb_entries c ! i)\<lparr>cb_usage := cb_usage (cb_entries c ! i) + 1\<rparr>"
  have "set (cb_entries (use_entry i c)) \<subseteq> insert ?e (set (cb_entries c))"
    using True by (simp add: use_entry_def set_update_subset_insert)
  moreover have "cb_usage ?e \<le> maxBlocks c"
    using word_inc_le [OF True] by simp
  ultimately show ?thesis
    using assms(2) by blast
next
  case False
  have "cb_usage (if P \<and> cb_usage f > 0 then f\<lparr>cb_usage := cb_usage f - 1\<rparr> else f) \<le> maxBlocks c"
    if "f \<in> set (cb_entries c)" for f P
    using assms(2) that word_dec_le [of "cb_usage f" "maxBlocks c"] by simp
  then show ?thesis
    using False by (auto simp: use_entry_def dest!: set_zip_rightD)
qed

lemma lookup_zip: "cache_lookup c = map_of (zip (map cb_id (cb_entries c)) (map cb_buf (cb_entries c)))"
proof -
  have "map (\<lambda>e. (cb_id e, cb_buf e)) es = zip (map cb_id es) (map cb_buf es)" for es
    by (simp add: zip_map_map zip_same_conv_map)
  from this [of "cb_entries c"] show ?thesis
    unfolding cache_lookup_def [abs_def] by simp
qed

lemma cache_lookup_cong:
  assumes "map cb_id (cb_entries c') = map cb_id (cb_entries c)" "map cb_buf (cb_entries c') = map cb_buf (cb_entries c)"
  shows "cache_lookup c' = cache_lookup c"
  unfolding lookup_zip assms ..

lemma cache_ok_use:
  assumes "cache_ok c" "i < length (cb_entries c)"
  shows "cache_ok (use_entry i c)" "cache_lookup (use_entry i c) = cache_lookup c"
proof -
  note k = use_entry_keeps [OF assms(2)]
  have len: "length (cb_entries (use_entry i c)) = length (cb_entries c)"
    using k(1) by (metis length_map)
  have "cb_buf ` set (cb_entries (use_entry i c)) = cb_buf ` set (cb_entries c)"
    using k(2) by (metis set_map)
  then have "\<forall>e \<in> set (cb_entries (use_entry i c)). length (cb_buf e) = unat (blockSize c)"
    using assms(1) unfolding cache_ok_def by (metis (no_types, lifting) image_iff)
  then show "cache_ok (use_entry i c)"
    using assms use_entry_usage [OF assms(2)] unfolding cache_ok_def k len by auto
  show "cache_lookup (use_entry i c) = cache_lookup c"
    by (rule cache_lookup_cong [OF k(1,2)])
qed

text \<open>Pruning a cache whose counters are in range removes one entry.\<close>

lemma prune_scan_cases:
  "prune_scan es i mn idx = idx \<or> (i \<le> prune_scan es i mn idx \<and> prune_scan es i mn idx < i + length es)"
proof (induction es arbitrary: i mn idx)
  case (Cons e es)
  show ?case
    using Cons.IH [of "Suc i" "cb_usage e" i] Cons.IH [of "Suc i" mn idx] by auto
qed simp

lemma prune_scan_hit:
  assumes "es \<noteq> []" "\<forall>e \<in> set es. cb_usage e \<le> mn"
  shows "prune_scan es i mn idx < i + length es"
proof -
  obtain e es' where es: "es = e # es'"
    using assms(1) by (cases es) auto
  then show ?thesis
    using assms(2) prune_scan_cases [of es' "Suc i" "cb_usage e" i] by auto
qed

lemma lookup_erase_at:
  assumes "distinct (map cb_id (cb_entries c))"
  shows "cache_lookup (c\<lparr>cb_entries := erase_at i (cb_entries c)\<rparr>) n \<in> {None, cache_lookup c n}"
proof (cases "cache_lookup (c\<lparr>cb_entries := erase_at i (cb_entries c)\<rparr>) n")
  case (Some b)
  then have "(n, b) \<in> set (map (\<lambda>e. (cb_id e, cb_buf e)) (erase_at i (cb_entries c)))"
    unfolding cache_lookup_def by (auto dest!: map_of_SomeD)
  then have "(n, b) \<in> set (map (\<lambda>e. (cb_id e, cb_buf e)) (cb_entries c))"
    using set_erase_at [of i "cb_entries c"] by auto
  moreover have "distinct (map fst (map (\<lambda>e. (cb_id e, cb_buf e)) (cb_entries c)))"
    using assms by (simp add: comp_def)
  ultimately have "cache_lookup c n = Some b"
    unfolding cache_lookup_def by simp
  then show ?thesis
    using Some by simp
qed simp

lemma Prune_ok:
  assumes "cache_ok c" "cb_entries c \<noteq> []"
  shows "cache_ok (Prune c)" "length (cb_entries (Prune c)) < length (cb_entries c)"
    "cache_lookup (Prune c) n \<in> {None, cache_lookup c n}" "maxBlocks (Prune c) = maxBlocks c" "blockSize (Prune c) = blockSize c"
    "set (cb_entries (Prune c)) \<subseteq> set (cb_entries c)"
proof -
  define idx where "idx = prune_scan (cb_entries c) 0 (maxBlocks c) (unat (maxBlocks c))"
  have ok: "distinct (map cb_id (cb_entries c))" "length (cb_entries c) \<le> unat (maxBlocks c)"
    "\<forall>e \<in> set (cb_entries c). cb_usage e \<le> maxBlocks c"
    using assms(1) by (auto simp: cache_ok_def)
  have i: "idx < length (cb_entries c)"
    using prune_scan_hit [OF assms(2) ok(3), of 0 "unat (maxBlocks c)"] by (simp add: idx_def)
  then have p: "Prune c = c\<lparr>cb_entries := erase_at idx (cb_entries c)\<rparr>"
    using ok(2) by (simp add: Prune_def idx_def [symmetric] Let_def)
  have len: "length (erase_at idx (cb_entries c)) < length (cb_entries c)"
    using i by (simp add: erase_at_def)
  show "set (cb_entries (Prune c)) \<subseteq> set (cb_entries c)"
    by (simp add: p set_erase_at)
  show "cache_ok (Prune c)"
    using assms(1) len set_erase_at [of idx "cb_entries c"] distinct_erase_at [OF ok(1), of idx]
    unfolding cache_ok_def p by (auto simp: map_erase_at)
  show "cache_lookup (Prune c) n \<in> {None, cache_lookup c n}"
    unfolding p by (rule lookup_erase_at [OF ok(1)])
  show "length (cb_entries (Prune c)) < length (cb_entries c)" "maxBlocks (Prune c) = maxBlocks c" "blockSize (Prune c) = blockSize c"
    using len by (simp_all add: p)
qed

lemma prune_loop_ok:
  assumes "cache_ok c"
  shows "\<exists>c'. prune_loop c = Some c' \<and> cache_ok c' \<and> length (cb_entries c') < unat (maxBlocks c) \<and> maxBlocks c' = maxBlocks c \<and>
     blockSize c' = blockSize c \<and> set (cb_entries c') \<subseteq> set (cb_entries c) \<and> (\<forall>n. cache_lookup c' n \<in> {None, cache_lookup c n})"
  using assms
proof (induction "length (cb_entries c)" arbitrary: c rule: less_induct)
  case less
  show ?case
  proof (cases "length (cb_entries c) \<ge> unat (maxBlocks c)")
    case False
    then show ?thesis
      using less.prems by (subst prune_loop.simps) auto
  next
    case True
    have ne: "cb_entries c \<noteq> []"
      using True less.prems by (auto simp: cache_ok_def word_less_nat_alt)
    note p = Prune_ok [OF less.prems ne]
    from less.hyps [OF p(2,1)] obtain c' where c': "prune_loop (Prune c) = Some c'" "cache_ok c'"
      "length (cb_entries c') < unat (maxBlocks (Prune c))" "maxBlocks c' = maxBlocks (Prune c)" "blockSize c' = blockSize (Prune c)"
      "set (cb_entries c') \<subseteq> set (cb_entries (Prune c))" "\<forall>n. cache_lookup c' n \<in> {None, cache_lookup (Prune c) n}"
      by blast
    have "cache_lookup c' n \<in> {None, cache_lookup c n}" for n
      using spec [OF c'(7), of n] p(3) [of n] by auto
    moreover have "prune_loop c = Some c'"
      using True c'(1) by (subst prune_loop.simps) simp
    ultimately show ?thesis
      using c' p(4,5,6) by auto
  qed
qed

lemma drop_loop_keeps: "n \<notin> cb_id ` set (drop i es) \<Longrightarrow> drop_loop n i es = es"
proof (induction n i es rule: drop_loop.induct)
  case (1 n i es)
  show ?case
  proof (cases "i < length es")
    case True
    then have d: "drop i es = es ! i # drop (Suc i) es"
      by (rule Cons_nth_drop_Suc [symmetric])
    then have "cb_id (es ! i) \<noteq> n" "n \<notin> cb_id ` set (drop (Suc i) es)"
      using 1(2) by auto
    then show ?thesis
      using 1(1) True by (subst drop_loop.simps) simp
  qed (subst drop_loop.simps, simp)
qed

lemma drop_loop_removes:
  assumes "distinct (map cb_id es)" "i \<le> length es" "n \<notin> cb_id ` set (take i es)"
  shows "drop_loop n i es = filter (\<lambda>e. cb_id e \<noteq> n) es"
  using assms
proof (induction n i es rule: drop_loop.induct)
  case (1 n i es)
  show ?case
  proof (cases "i < length es")
    case False
    then have "filter (\<lambda>e. cb_id e \<noteq> n) es = es"
      using 1(4) by (auto intro!: filter_True)
    then show ?thesis
      using False by (subst drop_loop.simps) simp
  next
    case True
    have es: "es = take i es @ es ! i # drop (Suc i) es"
      using True by (rule id_take_nth_drop)
    have ids: "n \<notin> cb_id ` set (take i es)" "cb_id (es ! i) \<notin> cb_id ` set (drop (Suc i) es)"
      using 1(2,4) by (simp, subst (asm) es, auto)
    show ?thesis
    proof (cases "cb_id (es ! i) = n")
      case hit: True
      have e: "erase_at i es = take i es @ drop (Suc i) es"
        by (simp add: erase_at_def)
      have "drop_loop n (Suc i) (erase_at i es) = erase_at i es"
      proof (rule drop_loop_keeps)
        have "set (drop (Suc i) (erase_at i es)) \<subseteq> set (drop (Suc i) es)"
          using True set_drop_subset_set_drop [of "Suc i" "Suc (Suc i)" es] by (auto simp: e min_def dest: in_set_dropD)
        then show "n \<notin> cb_id ` set (drop (Suc i) (erase_at i es))"
          using ids(2) hit by blast
      qed
      moreover have "filter (\<lambda>e. cb_id e \<noteq> n) es = erase_at i es"
      proof -
        have "filter (\<lambda>e. cb_id e \<noteq> n) (take i es) = take i es" "filter (\<lambda>e. cb_id e \<noteq> n) (drop (Suc i) es) = drop (Suc i) es"
          using ids hit by (auto simp: filter_id_conv image_iff)
        then show ?thesis
          using hit by (subst es) (simp add: e)
      qed
      ultimately show ?thesis
        using True hit by (subst drop_loop.simps) simp
    next
      case False
      have "n \<notin> cb_id ` set (take (Suc i) es)"
        using True False 1(4) by (auto simp: take_Suc_conv_app_nth)
      then show ?thesis
        using 1 True False by (subst drop_loop.simps) simp
    qed
  qed
qed

section \<open>Contract towards the drivers\<close>

locale block_cache =
  fixes inv :: "'c \<Rightarrow> bool" and valid :: "'c \<Rightarrow> 'b \<Rightarrow> bool" and lookup :: "'c \<Rightarrow> u64 \<Rightarrow> 'b option"
    and store :: "u64 \<Rightarrow> 'b \<Rightarrow> 'c \<Rightarrow> 'c option" and retrieve :: "u64 \<Rightarrow> 'c \<Rightarrow> 'b option \<times> 'c" and dismiss :: "u64 \<Rightarrow> 'c \<Rightarrow> 'c"
  assumes retrieve_spec: "inv c \<Longrightarrow> fst (retrieve n c) = lookup c n \<and> inv (snd (retrieve n c)) \<and> lookup (snd (retrieve n c)) = lookup c \<and>
      valid (snd (retrieve n c)) = valid c"
    and store_spec: "inv c \<Longrightarrow> valid c b \<Longrightarrow> \<exists>c'. store n b c = Some c' \<and> inv c' \<and> valid c' = valid c \<and> lookup c' n = Some b \<and>
      (\<forall>m. m \<noteq> n \<longrightarrow> lookup c' m \<in> {None, lookup c m})"
    and dismiss_spec: "inv c \<Longrightarrow> inv (dismiss n c) \<and> valid (dismiss n c) = valid c \<and> lookup (dismiss n c) = (lookup c)(n := None)"
begin

text \<open>Whatever was stored last under a number and not dismissed since is found, or nothing.\<close>

definition agrees :: "'c \<Rightarrow> (u64 \<Rightarrow> 'b) \<Rightarrow> bool" where
  "agrees c f \<longleftrightarrow> (\<forall>n b. lookup c n = Some b \<longrightarrow> b = f n)"

lemma agrees_retrieve:
  assumes "inv c" "agrees c f"
  shows "agrees (snd (retrieve n c)) f" "fst (retrieve n c) = Some b \<Longrightarrow> b = f n"
  using assms retrieve_spec [OF assms(1), of n] by (auto simp: agrees_def)

lemma agrees_store:
  assumes "inv c" "agrees c f" "valid c (f n)"
  shows "\<exists>c'. store n (f n) c = Some c' \<and> inv c' \<and> valid c' = valid c \<and> agrees c' f"
proof -
  obtain c' where c': "store n (f n) c = Some c'" "inv c'" "valid c' = valid c" "lookup c' n = Some (f n)"
    "\<forall>m. m \<noteq> n \<longrightarrow> lookup c' m \<in> {None, lookup c m}"
    using store_spec [OF assms(1,3)] by blast
  have "b = f m" if "lookup c' m = Some b" for m b
  proof (cases "m = n")
    case False
    then have "lookup c' m \<in> {None, lookup c m}"
      using c'(5) by blast
    then have "lookup c m = Some b"
      using that by auto
    then show ?thesis
      using assms(2) unfolding agrees_def by blast
  qed (use c'(4) that in simp)
  then have "agrees c' f"
    unfolding agrees_def by blast
  then show ?thesis
    using c'(1,2,3) by blast
qed

lemma agrees_dismiss:
  assumes "inv c" "agrees c f"
  shows "agrees (dismiss n c) (f(n := b))"
  using assms dismiss_spec [OF assms(1), of n] by (auto simp: agrees_def)

end

lemma Retrieve_spec:
  assumes "cache_ok c"
  shows "fst (Retrieve n c) = cache_lookup c n" "cache_ok (snd (Retrieve n c))" "cache_lookup (snd (Retrieve n c)) = cache_lookup c"
    "blockSize (snd (Retrieve n c)) = blockSize c"
proof -
  have hits: "cache_ok (c\<lparr>cb_hits := h\<rparr>) = cache_ok c" "cache_lookup (c\<lparr>cb_hits := h\<rparr>) = cache_lookup c"
    "cache_ok (c\<lparr>cb_misses := h\<rparr>) = cache_ok c" "cache_lookup (c\<lparr>cb_misses := h\<rparr>) = cache_lookup c" for c :: Cache and h
    by (simp_all add: cache_ok_def cache_lookup_def fun_eq_iff)
  show "fst (Retrieve n c) = cache_lookup c n"
    by (simp add: Retrieve_def lookup_index Let_def split: option.split)
  show "cache_ok (snd (Retrieve n c))" "cache_lookup (snd (Retrieve n c)) = cache_lookup c" "blockSize (snd (Retrieve n c)) = blockSize c"
    using assms cache_ok_use [OF assms] use_entry_keeps(4) entry_index_Some [of n "cb_entries c"]
    by (auto simp: Retrieve_def hits Let_def split: option.split)
qed

lemma Drop_spec:
  assumes "cache_ok c"
  shows "cache_ok (Drop n c)" "cache_lookup (Drop n c) = (cache_lookup c)(n := None)"
proof -
  have d: "distinct (map cb_id (cb_entries c))"
    using assms by (simp add: cache_ok_def)
  have f: "drop_loop n 0 (cb_entries c) = filter (\<lambda>e. cb_id e \<noteq> n) (cb_entries c)"
    by (rule drop_loop_removes [OF d]) simp_all
  show "cache_ok (Drop n c)"
    using assms le_trans [OF length_filter_le] by (auto simp: Drop_def f cache_ok_def distinct_map_filter)
  have flt: "map_of (map (\<lambda>e. (cb_id e, cb_buf e)) (filter (\<lambda>e. cb_id e \<noteq> n) es)) m
      = (if m = n then None else map_of (map (\<lambda>e. (cb_id e, cb_buf e)) es) m)" for es m
    by (induction es) auto
  have "cache_lookup (Drop n c) m = (if m = n then None else cache_lookup c m)" for m
    unfolding cache_lookup_def Drop_def f using flt [of "cb_entries c" m] by simp
  then show "cache_lookup (Drop n c) = (cache_lookup c)(n := None)"
    by auto
qed

lemma lookup_snoc:
  "cache_lookup (c\<lparr>cb_entries := cb_entries c @ [e]\<rparr>) m = (case cache_lookup c m of Some b \<Rightarrow> Some b | None \<Rightarrow> if m = cb_id e then Some (cb_buf e) else None)"
  by (simp add: cache_lookup_def map_add_def split: option.split)

lemma map_of_zip_update:
  assumes "distinct ks" "length vs = length ks" "i < length ks"
  shows "map_of (zip ks (vs[i := b])) m = (if m = ks ! i then Some b else map_of (zip ks vs) m)"
  using assms
proof (induction ks arbitrary: vs i)
  case (Cons k ks)
  then obtain v vs' where vs: "vs = v # vs'" "length vs' = length ks"
    by (cases vs) auto
  show ?case
  proof (cases i)
    case 0
    then show ?thesis
      using vs by auto
  next
    case (Suc j)
    then have j: "j < length ks" "ks ! j \<noteq> k"
      using Cons.prems by auto
    then show ?thesis
      using Cons.IH [OF _ vs(2) j(1)] Cons.prems(1) vs(1) Suc by (simp only: nth_Cons_Suc list_update.simps nat.case zip_Cons_Cons map_of.simps fst_conv snd_conv) (auto simp del: map_of_eq_Some_iff)
  qed
qed simp

lemma Store_spec:
  assumes "cache_ok c" "length b = unat (blockSize c)"
  shows "\<exists>c'. Store n b c = Some c' \<and> cache_ok c' \<and> blockSize c' = blockSize c \<and> cache_lookup c' n = Some b \<and>
     (\<forall>m. m \<noteq> n \<longrightarrow> cache_lookup c' m \<in> {None, cache_lookup c m})"
proof (cases "entry_index n (cb_entries c)")
  case (Some i)
  define c1 where "c1 = c\<lparr>cb_entries := (cb_entries c)[i := (cb_entries c ! i)\<lparr>cb_buf := b\<rparr>]\<rparr>"
  have i: "i < length (cb_entries c)" "cb_id (cb_entries c ! i) = n"
    using entry_index_Some [OF Some] by simp_all
  have ids: "map cb_id (cb_entries c1) = map cb_id (cb_entries c)"
    using list_update_id [of "map cb_id (cb_entries c)" i] i by (simp add: c1_def map_update)
  have d: "distinct (map cb_id (cb_entries c))"
    using assms(1) by (simp add: cache_ok_def)
  have "cache_ok c1"
  proof -
    have "\<forall>e \<in> set (cb_entries c1). cb_usage e \<le> maxBlocks c \<and> length (cb_buf e) = unat (blockSize c)"
    proof
      fix e
      assume "e \<in> set (cb_entries c1)"
      then have "e \<in> insert ((cb_entries c ! i)\<lparr>cb_buf := b\<rparr>) (set (cb_entries c))"
        using set_update_subset_insert [of "cb_entries c" i] by (auto simp: c1_def)
      then show "cb_usage e \<le> maxBlocks c \<and> length (cb_buf e) = unat (blockSize c)"
        using assms nth_mem [OF i(1)] by (auto simp: cache_ok_def)
    qed
    moreover have "length (cb_entries c1) = length (cb_entries c)" "maxBlocks c1 = maxBlocks c" "blockSize c1 = blockSize c"
      by (simp_all add: c1_def)
    ultimately show ?thesis
      using assms(1) unfolding cache_ok_def ids by simp
  qed
  moreover have i1: "i < length (cb_entries c1)"
    using i by (simp add: c1_def)
  moreover have "cache_lookup c1 m = (if m = n then Some b else cache_lookup c m)" for m
  proof -
    have "map cb_buf (cb_entries c1) = (map cb_buf (cb_entries c))[i := b]"
      by (simp add: c1_def map_update)
    then show ?thesis
      using d i map_of_zip_update [of "map cb_id (cb_entries c)" "map cb_buf (cb_entries c)" i b m] unfolding lookup_zip ids
      by (simp only: length_map nth_map)
  qed
  moreover have "Store n b c = Some (use_entry i c1)"
    using Some assms(2) by (simp add: Store_def c1_def)
  moreover have "blockSize (use_entry i c1) = blockSize c"
    using use_entry_keeps(4) [OF i1] by (simp add: c1_def)
  ultimately have "Store n b c = Some (use_entry i c1) \<and> cache_ok (use_entry i c1) \<and> blockSize (use_entry i c1) = blockSize c \<and>
    cache_lookup (use_entry i c1) n = Some b \<and> (\<forall>m. m \<noteq> n \<longrightarrow> cache_lookup (use_entry i c1) m \<in> {None, cache_lookup c m})"
    using cache_ok_use [of c1 i] by simp
  then show ?thesis
    by blast
next
  case None
  then have fresh: "n \<notin> cb_id ` set (cb_entries c)"
    unfolding entry_index_None .
  obtain c1 where c1: "prune_loop c = Some c1" "cache_ok c1" "length (cb_entries c1) < unat (maxBlocks c)" "maxBlocks c1 = maxBlocks c"
     "blockSize c1 = blockSize c" "set (cb_entries c1) \<subseteq> set (cb_entries c)" "\<forall>n. cache_lookup c1 n \<in> {None, cache_lookup c n}"
    using prune_loop_ok [OF assms(1)] by blast
  have n1: "n \<notin> cb_id ` set (cb_entries c1)"
    using fresh c1(6) by blast
  then have l1: "cache_lookup c1 n = None"
    by (simp add: cache_lookup_def map_of_eq_None_iff image_image)
  define c' where "c' = c1\<lparr>cb_entries := cb_entries c1 @ [\<lparr>cb_id = n, cb_buf = b, cb_usage = 1\<rparr>]\<rparr>"
  have "1 \<le> maxBlocks c1"
    using c1(2) by (simp add: cache_ok_def word_le_nat_alt word_less_nat_alt)
  then have "cache_ok c'"
    using c1 n1 assms(2) by (auto simp: cache_ok_def c'_def)
  moreover have "Store n b c = Some c'"
    using None assms(2) c1(1) by (simp add: Store_def c'_def)
  moreover have "cache_lookup c' m = (if m = n then Some b else cache_lookup c1 m)" for m
    using l1 by (simp add: c'_def lookup_snoc split: option.split)
  then have "cache_lookup c' n = Some b" "\<forall>m. m \<noteq> n \<longrightarrow> cache_lookup c' m \<in> {None, cache_lookup c m}"
    using c1(7) by metis+
  moreover have "blockSize c' = blockSize c"
    using c1(5) by (simp add: c'_def)
  ultimately show ?thesis
    by blast
qed

interpretation kernel_cache: block_cache cache_ok "\<lambda>c b. length b = unat (blockSize c)" cache_lookup Store Retrieve Drop
proof
  fix c n b
  assume c: "cache_ok c"
  show "fst (Retrieve n c) = cache_lookup c n \<and> cache_ok (snd (Retrieve n c)) \<and> cache_lookup (snd (Retrieve n c)) = cache_lookup c \<and>
      (\<lambda>b. length b = unat (blockSize (snd (Retrieve n c)))) = (\<lambda>b. length b = unat (blockSize c))"
    using Retrieve_spec [OF c] by simp
  show "\<exists>c'. Store n b c = Some c' \<and> cache_ok c' \<and> (\<lambda>b. length b = unat (blockSize c')) = (\<lambda>b. length b = unat (blockSize c)) \<and>
      cache_lookup c' n = Some b \<and> (\<forall>m. m \<noteq> n \<longrightarrow> cache_lookup c' m \<in> {None, cache_lookup c m})" if "length b = unat (blockSize c)"
    using Store_spec [OF c that, of n] by auto
  show "cache_ok (Drop n c) \<and> (\<lambda>b. length b = unat (blockSize (Drop n c))) = (\<lambda>b. length b = unat (blockSize c)) \<and>
      cache_lookup (Drop n c) = (cache_lookup c)(n := None)"
    using Drop_spec [OF c] by (simp add: Drop_def)
qed

section \<open>Behaviour\<close>


lemma Cache_new_ok: "0 < maxBlocks (Cache_new bS mB) \<Longrightarrow> cache_ok (Cache_new bS mB)"
  by (simp add: cache_ok_def Cache_new_def)


lemma prune_loop_empty: "maxBlocks c = 0 \<Longrightarrow> cb_entries c = [] \<Longrightarrow> prune_loop c = None"
proof (rule ccontr)
  assume c: "maxBlocks c = 0" "cb_entries c = []" and "prune_loop c \<noteq> None"
  then obtain c' where "prune_loop c = Some c'"
    by blast
  then have "\<not> (maxBlocks c = 0 \<and> cb_entries c = [])"
  proof (induction rule: prune_loop.raw_induct [rotated, consumes 1])
    case (1 f c c')
    show ?case
    proof
      assume e: "maxBlocks c = 0 \<and> cb_entries c = []"
      then have "Prune c = c"
        by (simp add: Prune_def)
      then have "f c = Some c'"
        using 1(2) e by simp
      from 1(1) [OF this] e show False
        by blast
    qed
  qed
  with c show False
    by blast
qed

text \<open>
  For blocks of more than four megabytes the constructor reduces the number of blocks to zero. The first
  block stored in such a cache makes \<open>Store\<close> run forever.
\<close>

theorem oversized_blocks_hang:
  assumes "bS * mB > MaxCacheSize" and "bS > MaxCacheSize"
  shows "Store n b (Cache_new bS mB) = None"
proof -
  have "MaxCacheSize div bS = 0"
    using assms(2) by (simp add: word_unat_eq_iff unat_div word_less_nat_alt)
  then show ?thesis
    using assms(1) by (simp add: Store_def Cache_new_def prune_loop_empty)
qed

theorem oversized_blocks_hang_witness:
  "Store 0 [] (Cache_new 0x500000 2) = None"
  by (rule oversized_blocks_hang) (simp_all add: MaxCacheSize_def)

end
