(* ===== verification/Operation_Queue.thy ===== *)
theory Operation_Queue
  imports Kernel_Prelude
begin

text \<open>
  The queue of operations between the callers of a driver and its worker thread,
  src/src/include/module/utils/operationqueue.hpp: a ring buffer of fixed size that callers fill one by
  one and that the worker empties in one go.

  The size of the ring is the parameter \<open>N\<close>. A call that has to wait gives \<open>Sleeps\<close>. The lemmas show
  that the ring is a first-in first-out list of at most \<open>N\<close> operations, which is what the locale
  \<open>batch_queue\<close> promises to the drivers.
\<close>

section \<open>Ring buffer\<close>

(* src/src/include/module/utils/operationqueue.hpp:21-26 OperationQueue *)
record 'op opqueue =
  oq_queue :: "'op list"
  queueCount :: nat
  queueTop :: nat
  oq_threadId :: u64

(* src/src/include/module/utils/operationqueue.hpp:66-82 OperationQueue::Add *)
definition oq_Add :: "nat \<Rightarrow> 'op \<Rightarrow> 'op opqueue \<Rightarrow> 'op opqueue blocking" where
  "oq_Add N op q =
     (if oq_threadId q = 0 then Returned q
      else if queueCount q \<ge> N then Sleeps q
      else let top = queueTop q + 1
           in Returned (q\<lparr>queueCount := queueCount q + 1, oq_queue := (oq_queue q)[queueTop q := op],
                          queueTop := (if top = N then 0 else top)\<rparr>))"

(* src/src/include/module/utils/operationqueue.hpp:39-46 OperationQueue::MakeBatch *)
function batch_fill :: "nat \<Rightarrow> 'op list \<Rightarrow> 'op opqueue \<Rightarrow> ('op list \<times> 'op opqueue) result" where
  "batch_fill N batch q =
     (if queueCount q = 0 then Inr (batch, q)
      else let d = int (queueTop q) - int (queueCount q);
               start = (if d < 0 then d + int N else d)
           in if start < 0 \<or> nat start \<ge> length (oq_queue q) then Inl Undefined
              else batch_fill N (batch @ [oq_queue q ! nat start]) (q\<lparr>queueCount := queueCount q - 1\<rparr>))"
  by pat_completeness auto
termination
  by (relation "measure (\<lambda>(N, batch, q). queueCount q)") auto

declare batch_fill.simps [simp del]

text \<open>An empty queue makes the worker idle once and then sleep.\<close>

(* src/src/include/module/utils/operationqueue.hpp:28-48 OperationQueue::MakeBatch *)
definition MakeBatch :: "nat \<Rightarrow> 'op opqueue \<Rightarrow> ('op list \<times> 'op opqueue) blocking" where
  "MakeBatch N q =
     (if queueCount q = 0 then Sleeps ([], q)
      else case batch_fill N [] q of Inl e \<Rightarrow> Failed e | Inr r \<Rightarrow> Returned r)"

(* src/src/include/module/utils/operationqueue.hpp:84-87 OperationQueue::WaitForEnd *)
definition WaitForEnd :: "'op opqueue \<Rightarrow> 'op opqueue" where
  "WaitForEnd q = q\<lparr>oq_threadId := 0\<rparr>"

section \<open>The ring as a list\<close>

definition oq_ok :: "nat \<Rightarrow> 'op opqueue \<Rightarrow> bool" where
  "oq_ok N q \<longleftrightarrow> 0 < N \<and> length (oq_queue q) = N \<and> queueTop q < N \<and> queueCount q \<le> N \<and> oq_threadId q \<noteq> 0"

definition oq_contents :: "nat \<Rightarrow> 'op opqueue \<Rightarrow> 'op list" where
  "oq_contents N q = map (\<lambda>k. oq_queue q ! ((queueTop q + N - queueCount q + k) mod N)) [0..<queueCount q]"

lemma ring_slot:
  fixes t N c k :: nat
  assumes "t < N" "c \<le> N" "k < c"
  shows "(t + N - c + k) mod N = (if t + k < c then t + N - c + k else t + k - c)"
proof (cases "t + k < c")
  case True
  then have "t + N - c + k < N"
    using assms by arith
  then show ?thesis
    using True by simp
next
  case False
  then have "t + N - c + k = (t + k - c) + N" "t + k - c < N"
    using assms by simp_all
  then show ?thesis
    using False by (simp only: mod_add_self2 mod_less if_False)
qed

lemma length_contents: "length (oq_contents N q) = queueCount q"
  by (simp add: oq_contents_def)

lemma oq_Add_ok:
  assumes "oq_ok N q" "queueCount q < N"
  shows "\<exists>q'. oq_Add N op q = Returned q' \<and> oq_ok N q' \<and> oq_contents N q' = oq_contents N q @ [op]"
proof -
  define t' where "t' = (if queueTop q + 1 = N then 0 else queueTop q + 1)"
  define q' where "q' = q\<lparr>queueCount := queueCount q + 1, oq_queue := (oq_queue q)[queueTop q := op], queueTop := t'\<rparr>"
  have q: "0 < N" "length (oq_queue q) = N" "queueTop q < N" "oq_threadId q \<noteq> 0"
    using assms(1) by (simp_all add: oq_ok_def)
  have t': "t' < N"
    using q by (simp add: t'_def)
  have slot: "(t' + N - Suc (queueCount q) + k) mod N = (queueTop q + N - queueCount q + k) mod N" if "k \<le> queueCount q" for k
  proof (cases "queueTop q + 1 = N")
    case True
    then have "queueTop q + N - queueCount q + k = (t' + N - Suc (queueCount q) + k) + N"
      using assms(2) by (simp add: t'_def)
    then show ?thesis
      by (simp only: mod_add_self2)
  next
    case False
    then have "t' + N - Suc (queueCount q) + k = queueTop q + N - queueCount q + k"
      using assms(2) by (simp add: t'_def)
    then show ?thesis
      by simp
  qed
  have old: "(queueTop q + N - queueCount q + k) mod N \<noteq> queueTop q" if "k < queueCount q" for k
    using ring_slot [OF q(3) less_imp_le [OF assms(2)] that] assms(2) that by (auto split: if_splits)
  have "(queueTop q + N - queueCount q + queueCount q) mod N = queueTop q"
    using q(3) assms(2) by simp
  moreover have "(oq_queue q)[queueTop q := op] ! ((t' + N - Suc (queueCount q) + k) mod N)
      = oq_queue q ! ((queueTop q + N - queueCount q + k) mod N)" if "k < queueCount q" for k
    using slot [of k] old [OF that] that by (simp only: nth_list_update_neq less_imp_le)
  ultimately have "oq_contents N q' = oq_contents N q @ [op]"
    using slot [of "queueCount q"] q(2,3) by (simp add: oq_contents_def q'_def)
  moreover have "oq_Add N op q = Returned q'"
    using q(4) assms(2) by (simp add: oq_Add_def q'_def t'_def Let_def)
  moreover have "oq_ok N q'"
    using q t' assms(2) by (simp add: oq_ok_def q'_def)
  ultimately show ?thesis
    by blast
qed

lemma batch_fill_ok:
  assumes "oq_ok N q"
  shows "batch_fill N batch q = Inr (batch @ oq_contents N q, q\<lparr>queueCount := 0\<rparr>)"
  using assms
proof (induction "queueCount q" arbitrary: q batch)
  case 0
  then show ?case
    by (subst batch_fill.simps) (simp add: oq_contents_def flip: 0(1))
next
  case (Suc c)
  define q' where "q' = q\<lparr>queueCount := c\<rparr>"
  have q: "0 < N" "length (oq_queue q) = N" "queueTop q < N" "queueCount q \<le> N"
    using Suc.prems by (simp_all add: oq_ok_def)
  define d where "d = int (queueTop q) - int (queueCount q)"
  define start where "start = (if d < 0 then d + int N else d)"
  have st: "0 \<le> start" "nat start = (queueTop q + N - queueCount q) mod N"
    using ring_slot [OF q(3,4), of 0] q Suc.hyps(2) by (auto simp: start_def d_def)
  have lt: "nat start < N"
    unfolding st(2) using q(1) by simp
  have c': "queueCount q' = c" "oq_queue q' = oq_queue q" "queueTop q' = queueTop q"
    by (simp_all add: q'_def)
  have "oq_ok N q'"
    using Suc.prems Suc.hyps(2) by (simp add: oq_ok_def q'_def)
  then have ih: "batch_fill N (batch @ [oq_queue q ! nat start]) q' = Inr ((batch @ [oq_queue q ! nat start]) @ oq_contents N q', q'\<lparr>queueCount := 0\<rparr>)"
    using Suc.hyps(1) [of q'] c'(1) by simp
  have "queueTop q + N - c = Suc (queueTop q + N - Suc c)"
    using q Suc.hyps(2) by simp
  then have contents: "oq_contents N q = oq_queue q ! nat start # oq_contents N q'"
    unfolding oq_contents_def c' Suc.hyps(2) [symmetric] map_upt_Suc st(2) by simp
  have "batch_fill N batch q = batch_fill N (batch @ [oq_queue q ! nat start]) q'"
  proof -
    have "queueCount q \<noteq> 0" "\<not> (start < 0 \<or> nat start \<ge> length (oq_queue q))" "q\<lparr>queueCount := queueCount q - 1\<rparr> = q'"
      using st(1) lt q(2) Suc.hyps(2) [symmetric] by (simp_all add: q'_def)
    then show ?thesis
      unfolding batch_fill.simps [of N batch q] Let_def d_def [symmetric] start_def [symmetric] by (simp only: if_False)
  qed
  then show ?case
    unfolding ih contents by (simp add: q'_def)
qed

lemma MakeBatch_ok:
  assumes "oq_ok N q"
  shows "MakeBatch N q = (if oq_contents N q = [] then Sleeps ([], q) else Returned (oq_contents N q, q\<lparr>queueCount := 0\<rparr>))"
    "oq_ok N (q\<lparr>queueCount := 0\<rparr>)" "oq_contents N (q\<lparr>queueCount := 0\<rparr>) = []"
proof -
  have "oq_contents N q = [] \<longleftrightarrow> queueCount q = 0"
    using length_contents [of N q] by auto
  then show "MakeBatch N q = (if oq_contents N q = [] then Sleeps ([], q) else Returned (oq_contents N q, q\<lparr>queueCount := 0\<rparr>))"
    using batch_fill_ok [OF assms, of "[]"] by (simp add: MakeBatch_def)
qed (use assms in \<open>simp_all add: oq_ok_def oq_contents_def\<close>)

section \<open>Contract towards the drivers\<close>

locale batch_queue =
  fixes inv :: "'q \<Rightarrow> bool" and contents :: "'q \<Rightarrow> 'op list" and cap :: nat
    and add :: "'op \<Rightarrow> 'q \<Rightarrow> 'q blocking" and make_batch :: "'q \<Rightarrow> ('op list \<times> 'q) blocking"
  assumes add_room: "inv q \<Longrightarrow> length (contents q) < cap \<Longrightarrow> \<exists>q'. add op q = Returned q' \<and> inv q' \<and> contents q' = contents q @ [op]"
    and add_full: "inv q \<Longrightarrow> length (contents q) = cap \<Longrightarrow> add op q = Sleeps q"
    and bounded: "inv q \<Longrightarrow> length (contents q) \<le> cap"
    and batch_empty: "inv q \<Longrightarrow> contents q = [] \<Longrightarrow> make_batch q = Sleeps ([], q)"
    and batch_all: "inv q \<Longrightarrow> contents q \<noteq> [] \<Longrightarrow> \<exists>q'. make_batch q = Returned (contents q, q') \<and> inv q' \<and> contents q' = []"
begin

fun add_all :: "'op list \<Rightarrow> 'q \<Rightarrow> 'q blocking" where
  "add_all [] q = Returned q"
| "add_all (op # ops) q = (case add op q of Returned q' \<Rightarrow> add_all ops q' | r \<Rightarrow> r)"

lemma add_all_contents:
  assumes "inv q" "length (contents q) + length ops \<le> cap"
  shows "\<exists>q'. add_all ops q = Returned q' \<and> inv q' \<and> contents q' = contents q @ ops"
  using assms
proof (induction ops arbitrary: q)
  case (Cons op ops)
  then obtain q1 where q1: "add op q = Returned q1" "inv q1" "contents q1 = contents q @ [op]"
    using add_room [of q op] by auto
  then show ?case
    using Cons.IH [of q1] Cons.prems(2) by auto
qed simp

text \<open>The worker receives the operations in the order in which they came in.\<close>

lemma batch_in_order:
  assumes "inv q" "contents q = []" "ops \<noteq> []" "length ops \<le> cap"
  shows "\<exists>q1 q2. add_all ops q = Returned q1 \<and> make_batch q1 = Returned (ops, q2) \<and> inv q2 \<and> contents q2 = []"
  using add_all_contents [of q ops] batch_all assms by fastforce

end

interpretation ring: batch_queue "oq_ok N" "oq_contents N" N "oq_Add N" "MakeBatch N" for N
proof
  fix q :: "'a opqueue" and op
  assume q: "oq_ok N q"
  show "length (oq_contents N q) \<le> N"
    using q by (simp add: length_contents oq_ok_def)
  show "\<exists>q'. oq_Add N op q = Returned q' \<and> oq_ok N q' \<and> oq_contents N q' = oq_contents N q @ [op]" if "length (oq_contents N q) < N"
    using oq_Add_ok [OF q] that by (simp add: length_contents)
  show "oq_Add N op q = Sleeps q" if "length (oq_contents N q) = N"
    using q that by (simp add: length_contents oq_Add_def oq_ok_def)
  show "MakeBatch N q = Sleeps ([], q)" if "oq_contents N q = []"
    using MakeBatch_ok(1) [OF q] that by simp
  show "\<exists>q'. MakeBatch N q = Returned (oq_contents N q, q') \<and> oq_ok N q' \<and> oq_contents N q' = []" if "oq_contents N q \<noteq> []"
    using MakeBatch_ok [OF q] that by auto
qed

text \<open>C31. 
  The ring buffer implements a list of at most \<open>N\<close> operations: adding appends, or waits exactly when the
  list is full, and a batch is the whole list in its order, after which the queue is empty; the worker
  sleeps exactly when it is. No slot outside the ring is ever read.
\<close>

theorem ring_is_fifo:
  assumes "oq_ok N q"
  shows "(if length (oq_contents N q) < N
          then \<exists>q'. oq_Add N op q = Returned q' \<and> oq_ok N q' \<and> oq_contents N q' = oq_contents N q @ [op]
          else oq_Add N op q = Sleeps q) \<and>
     (if oq_contents N q = [] then MakeBatch N q = Sleeps ([], q)
      else \<exists>q'. MakeBatch N q = Returned (oq_contents N q, q') \<and> oq_ok N q' \<and> oq_contents N q' = [])"
proof (rule conjI)
  have "length (oq_contents N q) = N" if "\<not> length (oq_contents N q) < N"
    using ring.bounded [OF assms] that by simp
  then show "if length (oq_contents N q) < N
          then \<exists>q'. oq_Add N op q = Returned q' \<and> oq_ok N q' \<and> oq_contents N q' = oq_contents N q @ [op]
          else oq_Add N op q = Sleeps q"
    using ring.add_room [OF assms, of op] ring.add_full [OF assms, of op] by presburger
  show "if oq_contents N q = [] then MakeBatch N q = Sleeps ([], q)
      else \<exists>q'. MakeBatch N q = Returned (oq_contents N q, q') \<and> oq_ok N q' \<and> oq_contents N q' = []"
    using ring.batch_empty [OF assms] ring.batch_all [OF assms] by presburger
qed

theorem ring_is_fifo_witness:
  "\<exists>q'. MakeBatch 3 \<lparr>oq_queue = [10, 20, 30], queueCount = 2, queueTop = 1, oq_threadId = 9\<rparr> = Returned ([30, 10 :: nat], q')"
proof -
  let ?q = "\<lparr>oq_queue = [10, 20, 30 :: nat], queueCount = 2, queueTop = 1, oq_threadId = 9\<rparr>"
  have ok: "oq_ok 3 ?q"
    by (simp add: oq_ok_def)
  have "oq_contents 3 ?q = [30, 10]"
    by (simp add: oq_contents_def upt_rec)
  then show ?thesis
    using ring_is_fifo [OF ok] by auto
qed

end
