(* ===== verification/Disk.thy ===== *)
theory Disk
  imports Block_Cache Operation_Queue
begin

unbundle bit_operations_syntax

text \<open>
  Hard disks, src/src/modules/hwpnp/ata: access to sectors through the registers of the drive (ata.cpp),
  the worker thread that orders the operations and reads ahead when it has nothing to do (queue.cpp),
  the disk device with its block cache (ata.cpp), and the partitions of a disk (mbr.cpp).

  The drive itself is a map from 28-bit sector addresses to 512 bytes, together with the attempts to read
  that it answers with an error. What the drive does with the registers is that of the hardware; the model
  keeps the address that the registers carry and the retries. Waiting for the drive and the locks of the
  bus have no effect on the data. The buffers of operations are part of the operations.

  The lemmas show that the worker performs every operation of a batch once and in the order of the sector
  numbers; that the disk device returns what was written last, as long as no sector is written that has
  been read ahead; that it returns old data otherwise; and which sectors a partition gives access to.
\<close>

section \<open>Drive\<close>

type_synonym block = "u8 list"

(* src/src/modules/hwpnp/ata/ata.cpp:202-207 ata_device_read_sector_pio *)
definition lba_registers :: "u32 \<Rightarrow> u8 \<times> u8 \<times> u8 \<times> u8" where
  "lba_registers lba =
     (ucast (drop_bit 24 (lba AND 0x0f000000)), ucast (drop_bit 16 (lba AND 0x00ff0000)),
      ucast (drop_bit 8 (lba AND 0x0000ff00)), ucast (lba AND 0x000000ff))"

definition drive_address :: "u8 \<times> u8 \<times> u8 \<times> u8 \<Rightarrow> u32" where
  "drive_address r = (case r of (sel, l2, l1, l0) \<Rightarrow>
     push_bit 24 (ucast (sel AND 0xf)) OR push_bit 16 (ucast l2) OR push_bit 8 (ucast l1) OR ucast l0)"

record drive =
  platter :: "u32 \<Rightarrow> block"
  read_fails :: "u32 \<Rightarrow> nat \<Rightarrow> bool"

definition overlay :: "'a list \<Rightarrow> 'a list \<Rightarrow> 'a list" where
  "overlay new old = new @ drop (length new) old"

(* src/src/modules/hwpnp/ata/ata.cpp:196-218 ata_device_read_sector_pio *)
function pio_attempts :: "(nat \<Rightarrow> bool) \<Rightarrow> nat \<Rightarrow> bool" where
  "pio_attempts fails errors =
     (if fails errors then (if errors + 1 > 4 then False else pio_attempts fails (errors + 1)) else True)"
  by pat_completeness auto
termination
  by (relation "measure (\<lambda>(f, e). 5 - e)") auto

declare pio_attempts.simps [simp del]

(* src/src/modules/hwpnp/ata/ata.cpp:192-224 ata_device_read_sector_pio *)
definition ata_device_read_sector_pio :: "u32 \<Rightarrow> block \<Rightarrow> drive \<Rightarrow> bool \<times> block" where
  "ata_device_read_sector_pio lba buf d =
     (let a = drive_address (lba_registers lba)
      in if pio_attempts (read_fails d a) 0 then (True, overlay (platter d a) buf) else (False, buf))"

(* src/src/modules/hwpnp/ata/ata.cpp:181-190 ata_device_read_sector *)
definition ata_device_read_sector :: "u32 \<Rightarrow> block \<Rightarrow> drive \<Rightarrow> bool \<times> block" where
  "ata_device_read_sector = ata_device_read_sector_pio"

(* src/src/modules/hwpnp/ata/ata.cpp:226-252 ata_device_write_sector *)
definition ata_device_write_sector :: "u32 \<Rightarrow> block \<Rightarrow> drive \<Rightarrow> bool \<times> drive" where
  "ata_device_write_sector lba buf d =
     (True, d\<lparr>platter := (platter d)(drive_address (lba_registers lba) := take 512 buf)\<rparr>)"

section \<open>Worker thread\<close>

(* src/src/modules/hwpnp/ata/queue.cpp:5-11 ATAOperationType *)
datatype ATAOperationType = OpRead | OpWrite | OpSync | OpShutdown | ATAPIRead

(* src/src/modules/hwpnp/ata/queue.cpp:13-17 ATAOperationStatus *)
datatype ATAOperationStatus = OpPending | OpError | OpComplete

text \<open>\<open>op_addr\<close> is the address of the operation; 0 is that of the worker's own \<open>idleOp\<close>.\<close>

(* src/src/modules/hwpnp/ata/queue.cpp:19-30 ATAOperation *)
record ATAOperation =
  op_addr :: nat
  op_type :: ATAOperationType
  op_status :: ATAOperationStatus
  op_bus :: nat
  op_busIndex :: nat
  op_lba :: u32
  op_buf :: block
  op_pid :: u64
  op_tid :: u64
  op_retval :: u32
  op_readSize :: u32

text \<open>The worker's data and the drives of the machine, optical drives included.\<close>

(* src/src/modules/hwpnp/ata/queue.cpp:34-41 ATAOperationQueue *)
record ata_world =
  cacheBuffer :: block
  lastOperation :: ATAOperation
  idleOp :: ATAOperation
  drives :: "nat \<Rightarrow> nat \<Rightarrow> drive"
  optical :: "nat \<Rightarrow> nat \<Rightarrow> u32 \<Rightarrow> u32 \<times> block"

definition set_drive :: "nat \<Rightarrow> nat \<Rightarrow> drive \<Rightarrow> ata_world \<Rightarrow> ata_world" where
  "set_drive b i d w = w\<lparr>drives := (drives w)(b := (drives w b)(i := d))\<rparr>"

text \<open>\<open>idleOp\<close> is an object of the worker whose buffer is \<open>cacheBuffer\<close>: what is done to it is seen there.\<close>

definition store_op :: "ATAOperation \<Rightarrow> ata_world \<Rightarrow> ata_world" where
  "store_op op w = (if op_addr op = 0 then w\<lparr>idleOp := op, cacheBuffer := op_buf op\<rparr> else w)"

text \<open>\<open>alive\<close> says to which processes \<open>SwitchProcess\<close> can switch.\<close>

(* src/src/modules/hwpnp/ata/queue.cpp:64-98 ATAOperationQueue::Process *)
definition run_op :: "(u64 \<Rightarrow> bool) \<Rightarrow> ATAOperation \<Rightarrow> ata_world \<Rightarrow> bool \<times> ATAOperation \<times> ata_world" where
  "run_op alive op w =
     (if alive (op_pid op)
      then case op_type op of
             OpRead \<Rightarrow>
               (let op' = op\<lparr>op_buf := snd (ata_device_read_sector (op_lba op) (op_buf op) (drives w (op_bus op) (op_busIndex op))),
                             op_status := OpComplete\<rparr>
                in (True, op', store_op op' w))
           | OpWrite \<Rightarrow>
               (let d = snd (ata_device_write_sector (op_lba op) (op_buf op) (drives w (op_bus op) (op_busIndex op)));
                    op' = op\<lparr>op_status := OpComplete\<rparr>
                in (True, op', store_op op' (set_drive (op_bus op) (op_busIndex op) d w)))
           | ATAPIRead \<Rightarrow>
               (let (n, b) = optical w (op_bus op) (op_busIndex op) (op_lba op);
                    op' = op\<lparr>op_retval := n, op_buf := overlay b (op_buf op), op_status := OpComplete\<rparr>
                in (True, op', store_op op' w))
           | OpSync \<Rightarrow> (let op' = op\<lparr>op_status := OpComplete\<rparr> in (True, op', store_op op' w))
           | OpShutdown \<Rightarrow> (False, op, w)
      else let op' = op\<lparr>op_status := OpError\<rparr> in (True, op', store_op op' w))"

(* src/src/modules/hwpnp/ata/queue.cpp:50-54 ATAOperationQueue::Process *)
definition read_ahead_hit :: "(u64 \<Rightarrow> bool) \<Rightarrow> ATAOperation \<Rightarrow> ata_world \<Rightarrow> bool" where
  "read_ahead_hit alive op w \<longleftrightarrow>
     op_type op = OpRead \<and> op_status (idleOp w) = OpComplete \<and> op_bus op = op_bus (idleOp w) \<and>
     op_busIndex op = op_busIndex (idleOp w) \<and> op_lba op = op_lba (idleOp w) \<and> alive (op_pid op)"

(* src/src/modules/hwpnp/ata/queue.cpp:44-99 ATAOperationQueue::Process *)
definition ata_Process :: "(u64 \<Rightarrow> bool) \<Rightarrow> ATAOperation \<Rightarrow> ata_world \<Rightarrow> bool \<times> ATAOperation \<times> ata_world" where
  "ata_Process alive op w =
     (if op_addr op \<noteq> 0
      then let w1 = w\<lparr>lastOperation := op\<rparr>
           in if read_ahead_hit alive op w1
              then (True, op\<lparr>op_buf := overlay (take (unat (op_readSize op)) (cacheBuffer w1)) (op_buf op), op_status := OpComplete\<rparr>, w1)
              else run_op alive op w1
      else run_op alive op w)"

text \<open>The result is the operation that is added to the queue, if any.\<close>

(* src/src/modules/hwpnp/ata/queue.cpp:101-113 ATAOperationQueue::Idle *)
definition ata_Idle :: "ata_world \<Rightarrow> ATAOperation option \<times> ata_world" where
  "ata_Idle w =
     (if op_type (lastOperation w) = OpRead
      then let op = (lastOperation w)\<lparr>op_addr := 0, op_buf := cacheBuffer w, op_pid := 0, op_tid := 0,
                                     op_lba := op_lba (lastOperation w) + 1, op_status := OpPending\<rparr>
           in (Some op, w\<lparr>idleOp := op, lastOperation := (lastOperation w)\<lparr>op_type := OpSync\<rparr>\<rparr>)
      else (None, w))"

(* src/src/modules/hwpnp/ata/queue.cpp:119-123 ATAOperationQueue::Batch *)
fun batch_next :: "ATAOperation list \<Rightarrow> nat \<Rightarrow> (nat \<times> u32) option \<Rightarrow> nat option" where
  "batch_next [] i best = map_option fst best"
| "batch_next (op # ops) i best =
     (if op_status op \<noteq> OpPending then batch_next ops (Suc i) best
      else case best of
             None \<Rightarrow> batch_next ops (Suc i) (Some (i, op_lba op))
           | Some (j, l) \<Rightarrow> if op_lba op < l then batch_next ops (Suc i) (Some (i, op_lba op)) else batch_next ops (Suc i) best)"

(* src/src/modules/hwpnp/ata/queue.cpp:117-127 ATAOperationQueue::Batch *)
fun batch_rounds :: "(u64 \<Rightarrow> bool) \<Rightarrow> nat \<Rightarrow> ATAOperation list \<Rightarrow> ata_world \<Rightarrow> bool \<times> ATAOperation list \<times> ata_world" where
  "batch_rounds alive 0 batch w = (True, batch, w)"
| "batch_rounds alive (Suc n) batch w =
     (case batch_next batch 0 None of
        None \<Rightarrow> batch_rounds alive n batch w
      | Some i \<Rightarrow>
          (case ata_Process alive (batch ! i) w of
             (cont, op, w') \<Rightarrow> if cont then batch_rounds alive n (batch[i := op]) w' else (False, batch[i := op], w')))"

(* src/src/modules/hwpnp/ata/queue.cpp:115-128 ATAOperationQueue::Batch *)
definition ata_Batch :: "(u64 \<Rightarrow> bool) \<Rightarrow> ATAOperation list \<Rightarrow> ata_world \<Rightarrow> bool \<times> ATAOperation list \<times> ata_world" where
  "ata_Batch alive batch w = batch_rounds alive (length batch) batch w"

section \<open>Operations of the callers\<close>

text \<open>\<open>a\<close> is the address of the new operation.\<close>

(* src/src/modules/hwpnp/ata/queue.cpp:160-169 ata_queued_read *)
definition read_op :: "nat \<Rightarrow> nat \<Rightarrow> nat \<Rightarrow> u32 \<Rightarrow> block \<Rightarrow> u64 \<Rightarrow> u64 \<Rightarrow> ATAOperation" where
  "read_op a bus index lba buf pid tid =
     \<lparr>op_addr = a, op_type = OpRead, op_status = OpPending, op_bus = bus, op_busIndex = index, op_lba = lba, op_buf = buf,
      op_pid = pid, op_tid = tid, op_retval = 0, op_readSize = 512\<rparr>"

(* src/src/modules/hwpnp/ata/queue.cpp:178-186 ata_queued_write *)
definition write_op :: "nat \<Rightarrow> nat \<Rightarrow> nat \<Rightarrow> u32 \<Rightarrow> block \<Rightarrow> u64 \<Rightarrow> u64 \<Rightarrow> ATAOperation" where
  "write_op a bus index lba buf pid tid =
     \<lparr>op_addr = a, op_type = OpWrite, op_status = OpPending, op_bus = bus, op_busIndex = index, op_lba = lba, op_buf = buf,
      op_pid = pid, op_tid = tid, op_retval = 0, op_readSize = 0\<rparr>"

(* src/src/modules/hwpnp/ata/queue.cpp:195-203 atapi_queued_read *)
definition atapi_op :: "nat \<Rightarrow> nat \<Rightarrow> nat \<Rightarrow> u32 \<Rightarrow> block \<Rightarrow> u64 \<Rightarrow> u64 \<Rightarrow> ATAOperation" where
  "atapi_op a bus index lba buf pid tid =
     \<lparr>op_addr = a, op_type = ATAPIRead, op_status = OpPending, op_bus = bus, op_busIndex = index, op_lba = lba, op_buf = buf,
      op_pid = pid, op_tid = tid, op_retval = 0, op_readSize = 0\<rparr>"

(* src/src/modules/hwpnp/ata/queue.cpp:138-143 ata_sync *)
definition sync_op :: "nat \<Rightarrow> u64 \<Rightarrow> u64 \<Rightarrow> ATAOperation" where
  "sync_op a pid tid =
     \<lparr>op_addr = a, op_type = OpSync, op_status = OpPending, op_bus = 0, op_busIndex = 0, op_lba = 0, op_buf = [],
      op_pid = pid, op_tid = tid, op_retval = 0, op_readSize = 0\<rparr>"

(* src/src/modules/hwpnp/ata/queue.cpp:211-224 ata_enqueue_read *)
definition enqueue_read_op :: "nat \<Rightarrow> nat \<Rightarrow> nat \<Rightarrow> u32 \<Rightarrow> block \<Rightarrow> u64 \<Rightarrow> u64 \<Rightarrow> ATAOperation" where
  "enqueue_read_op a bus index lba buf pid tid =
     \<lparr>op_addr = a, op_type = OpRead, op_status = OpPending, op_bus = bus, op_busIndex = index, op_lba = lba, op_buf = buf,
      op_pid = pid, op_tid = tid, op_retval = 0, op_readSize = 512\<rparr>"

(* src/src/modules/hwpnp/ata/queue.cpp:226-238 ata_enqueue_write *)
definition enqueue_write_op :: "nat \<Rightarrow> nat \<Rightarrow> nat \<Rightarrow> u32 \<Rightarrow> block \<Rightarrow> u64 \<Rightarrow> u64 \<Rightarrow> ATAOperation" where
  "enqueue_write_op a bus index lba buf pid tid =
     \<lparr>op_addr = a, op_type = ATAPIRead, op_status = OpPending, op_bus = bus, op_busIndex = index, op_lba = lba, op_buf = buf,
      op_pid = pid, op_tid = tid, op_retval = 0, op_readSize = 0\<rparr>"

(* src/src/modules/hwpnp/ata/queue.cpp:133-135 operation_blockcheck *)
definition operation_blockcheck :: "ATAOperation \<Rightarrow> bool" where
  "operation_blockcheck p \<longleftrightarrow> op_status p \<noteq> OpPending"


text \<open>
  A caller adds its operation and sleeps until it is no longer pending; meanwhile the worker takes the
  batch and performs it. The result is the operation as the caller then finds it; \<open>None\<close> stands for a
  caller that is not woken.
\<close>

(* src/src/modules/hwpnp/ata/queue.cpp:170-173 ata_queued_read *)
definition ata_submit :: "(u64 \<Rightarrow> bool) \<Rightarrow> ATAOperation \<Rightarrow> ATAOperation opqueue \<Rightarrow> ata_world
    \<Rightarrow> (ATAOperation \<times> ATAOperation opqueue \<times> ata_world) option" where
  "ata_submit alive op q w =
     (case oq_Add 256 op q of
        Returned q1 \<Rightarrow>
          (case MakeBatch 256 q1 of
             Returned (ops, q2) \<Rightarrow>
               (case ata_Batch alive ops w of
                  (cont, ops', w') \<Rightarrow>
                    (case List.find (\<lambda>p. op_addr p = op_addr op \<and> operation_blockcheck p) ops' of
                       Some op' \<Rightarrow> Some (op', q2, w')
                     | None \<Rightarrow> None))
           | _ \<Rightarrow> None)
      | _ \<Rightarrow> None)"

text \<open>The worker finds the queue empty and reads ahead.\<close>

(* src/src/include/module/utils/operationqueue.hpp:50-56 OperationQueue::ProcessThread *)
definition idle_round :: "(u64 \<Rightarrow> bool) \<Rightarrow> ATAOperation opqueue \<Rightarrow> ata_world \<Rightarrow> (ATAOperation opqueue \<times> ata_world) option" where
  "idle_round alive q w =
     (case ata_Idle w of
        (None, w1) \<Rightarrow> Some (q, w1)
      | (Some op, w1) \<Rightarrow> map_option snd (ata_submit alive op q w1))"

section \<open>Disk device\<close>

(* src/src/modules/hwpnp/ata/ata.hpp:245-251 ATAHDDDevice *)
record ATAHDDDevice =
  hd_bus :: nat
  hd_index :: nat
  hd_cache :: "Cache option"
  nextBlock :: u64

text \<open>The caller's process and thread, and the address of the operations on its stack.\<close>

record hdd_caller =
  cl_alive :: "u64 \<Rightarrow> bool"
  cl_pid :: u64
  cl_tid :: u64
  cl_addr :: nat

record disk_system =
  dk_dev :: ATAHDDDevice
  dk_queue :: "ATAOperation opqueue"
  dk_world :: ata_world
  queueReady :: bool
  cacheLoaded :: bool

(* src/src/modules/hwpnp/ata/queue.cpp:159-175 ata_queued_read *)
definition ata_queued_read :: "hdd_caller \<Rightarrow> nat \<Rightarrow> nat \<Rightarrow> u32 \<Rightarrow> block \<Rightarrow> ATAOperation opqueue \<Rightarrow> ata_world
    \<Rightarrow> (bool \<times> block \<times> ATAOperation opqueue \<times> ata_world) option" where
  "ata_queued_read cl bus index lba buf q w =
     map_option (\<lambda>(op, q', w'). (op_status op = OpComplete, op_buf op, q', w'))
       (ata_submit (cl_alive cl) (read_op (cl_addr cl) bus index lba buf (cl_pid cl) (cl_tid cl)) q w)"

(* src/src/modules/hwpnp/ata/queue.cpp:177-192 ata_queued_write *)
definition ata_queued_write :: "hdd_caller \<Rightarrow> nat \<Rightarrow> nat \<Rightarrow> u32 \<Rightarrow> block \<Rightarrow> ATAOperation opqueue \<Rightarrow> ata_world
    \<Rightarrow> (bool \<times> ATAOperation opqueue \<times> ata_world) option" where
  "ata_queued_write cl bus index lba buf q w =
     map_option (\<lambda>(op, q', w'). (op_status op = OpComplete, q', w'))
       (ata_submit (cl_alive cl) (write_op (cl_addr cl) bus index lba buf (cl_pid cl) (cl_tid cl)) q w)"

(* src/src/modules/hwpnp/ata/queue.cpp:194-209 atapi_queued_read *)
definition atapi_queued_read :: "hdd_caller \<Rightarrow> nat \<Rightarrow> nat \<Rightarrow> u32 \<Rightarrow> block \<Rightarrow> ATAOperation opqueue \<Rightarrow> ata_world
    \<Rightarrow> (u32 \<times> block \<times> ATAOperation opqueue \<times> ata_world) option" where
  "atapi_queued_read cl bus index lba buf q w =
     map_option (\<lambda>(op, q', w'). (op_retval op, op_buf op, q', w'))
       (ata_submit (cl_alive cl) (atapi_op (cl_addr cl) bus index lba buf (cl_pid cl) (cl_tid cl)) q w)"

(* src/src/modules/hwpnp/ata/queue.cpp:137-148 ata_sync *)
definition ata_sync :: "hdd_caller \<Rightarrow> ATAOperation opqueue \<Rightarrow> ata_world \<Rightarrow> (ATAOperation opqueue \<times> ata_world) option" where
  "ata_sync cl q w = map_option snd (ata_submit (cl_alive cl) (sync_op (cl_addr cl) (cl_pid cl) (cl_tid cl)) q w)"

(* src/src/modules/hwpnp/ata/ata.cpp:428-430 ATAHDDDevice::ReadSector *)
definition ensure_cache :: "disk_system \<Rightarrow> disk_system" where
  "ensure_cache s =
     (if hd_cache (dk_dev s) = None \<and> cacheLoaded s
      then s\<lparr>dk_dev := (dk_dev s)\<lparr>hd_cache := Some (Cache_new 512 8192)\<rparr>\<rparr> else s)"

(* src/src/modules/hwpnp/ata/ata.cpp:431-431 ATAHDDDevice::ReadSector *)
definition try_cache :: "u64 \<Rightarrow> disk_system \<Rightarrow> block option \<times> disk_system" where
  "try_cache lba s =
     (case hd_cache (dk_dev s) of
        None \<Rightarrow> (None, s)
      | Some c \<Rightarrow> (case Retrieve lba c of (r, c') \<Rightarrow> (r, s\<lparr>dk_dev := (dk_dev s)\<lparr>hd_cache := Some c'\<rparr>\<rparr>)))"

(* src/src/modules/hwpnp/ata/ata.cpp:432-438 ATAHDDDevice::ReadSector *)
definition fetch_sector :: "hdd_caller \<Rightarrow> u64 \<Rightarrow> block \<Rightarrow> disk_system \<Rightarrow> (bool \<times> block \<times> disk_system) option" where
  "fetch_sector cl lba buf s =
     (let b = hd_bus (dk_dev s); i = hd_index (dk_dev s)
      in if queueReady s
         then map_option (\<lambda>(ret, buf', q, w). (ret, buf', s\<lparr>dk_queue := q, dk_world := w\<rparr>))
                (ata_queued_read cl b i (ucast lba) buf (dk_queue s) (dk_world s))
         else case ata_device_read_sector (ucast lba) buf (drives (dk_world s) b i) of (ret, buf') \<Rightarrow> Some (ret, buf', s))"

(* src/src/modules/hwpnp/ata/ata.cpp:427-442 ATAHDDDevice::ReadSector *)
definition hdd_ReadSector :: "hdd_caller \<Rightarrow> u64 \<Rightarrow> block \<Rightarrow> disk_system \<Rightarrow> (bool \<times> block \<times> disk_system) option" where
  "hdd_ReadSector cl lba buf s =
     (case try_cache lba (ensure_cache s) of
        (Some b, s1) \<Rightarrow> Some (True, overlay b buf, s1)
      | (None, s1) \<Rightarrow>
          (case fetch_sector cl lba buf s1 of
             None \<Rightarrow> None
           | Some (ret, buf', s2) \<Rightarrow>
               (case (ret, hd_cache (dk_dev s2)) of
                  (True, Some c) \<Rightarrow>
                    map_option (\<lambda>c'. (ret, buf', s2\<lparr>dk_dev := (dk_dev s2)\<lparr>hd_cache := Some c', nextBlock := lba + 1\<rparr>\<rparr>)) (Store lba buf' c)
                | _ \<Rightarrow> Some (ret, buf', s2\<lparr>dk_dev := (dk_dev s2)\<lparr>nextBlock := lba + 1\<rparr>\<rparr>))))"

(* src/src/modules/hwpnp/ata/ata.cpp:445-445 ATAHDDDevice::WriteSector *)
definition forget_sector :: "u64 \<Rightarrow> disk_system \<Rightarrow> disk_system" where
  "forget_sector lba s = s\<lparr>dk_dev := (dk_dev s)\<lparr>hd_cache := map_option (Drop lba) (hd_cache (dk_dev s))\<rparr>\<rparr>"

(* src/src/modules/hwpnp/ata/ata.cpp:444-452 ATAHDDDevice::WriteSector *)
definition hdd_WriteSector :: "hdd_caller \<Rightarrow> u64 \<Rightarrow> block \<Rightarrow> disk_system \<Rightarrow> (bool \<times> disk_system) option" where
  "hdd_WriteSector cl lba buf s =
     (let s1 = forget_sector lba s; b = hd_bus (dk_dev s1); i = hd_index (dk_dev s1)
      in if queueReady s1
         then map_option (\<lambda>(ret, q, w). (ret, s1\<lparr>dk_queue := q, dk_world := w\<rparr>))
                (ata_queued_write cl b i (ucast lba) buf (dk_queue s1) (dk_world s1))
         else case ata_device_write_sector (ucast lba) buf (drives (dk_world s1) b i) of
                (ret, d) \<Rightarrow> Some (ret, s1\<lparr>dk_world := set_drive b i d (dk_world s1)\<rparr>))"

text \<open>
  The asynchronous calls return the operation to wait for, or a number below 2. The operation goes into the
  queue at once; the model lets the worker perform it when the caller waits for it.
\<close>

(* src/src/modules/hwpnp/ata/ata.cpp:454-466 ATAHDDDevice::AsyncReadSector *)
definition hdd_AsyncReadSector :: "hdd_caller \<Rightarrow> u64 \<Rightarrow> block \<Rightarrow> disk_system \<Rightarrow> (u64 + ATAOperation) \<times> block \<times> disk_system" where
  "hdd_AsyncReadSector cl lba buf s =
     (case try_cache lba (ensure_cache s) of
        (Some b, s1) \<Rightarrow> (Inl 0, overlay b buf, s1)
      | (None, s1) \<Rightarrow>
          (let b = hd_bus (dk_dev s1); i = hd_index (dk_dev s1)
           in if queueReady s1
              then (Inr (enqueue_read_op (cl_addr cl) b i (ucast lba) buf (cl_pid cl) (cl_tid cl)), buf, s1)
              else case ata_device_read_sector (ucast lba) buf (drives (dk_world s1) b i) of
                     (ret, buf') \<Rightarrow> (Inl (if ret then 1 else 0), buf', s1)))"

(* src/src/modules/hwpnp/ata/ata.cpp:467-476 ATAHDDDevice::AsyncWriteSector *)
definition hdd_AsyncWriteSector :: "hdd_caller \<Rightarrow> u64 \<Rightarrow> block \<Rightarrow> disk_system \<Rightarrow> (u64 + ATAOperation) \<times> disk_system" where
  "hdd_AsyncWriteSector cl lba buf s =
     (let s1 = forget_sector lba s; b = hd_bus (dk_dev s1); i = hd_index (dk_dev s1)
      in if queueReady s1
         then (Inr (enqueue_write_op (cl_addr cl) b i (ucast lba) buf (cl_pid cl) (cl_tid cl)), s1)
         else case ata_device_write_sector (ucast lba) buf (drives (dk_world s1) b i) of
                (ret, d) \<Rightarrow> (Inl (if ret then 1 else 0), s1\<lparr>dk_world := set_drive b i d (dk_world s1)\<rparr>))"

(* src/src/modules/hwpnp/ata/queue.cpp:240-248 ata_await *)
definition ata_await :: "hdd_caller \<Rightarrow> ATAOperation \<Rightarrow> disk_system \<Rightarrow> (bool \<times> disk_system) option" where
  "ata_await cl op s =
     map_option (\<lambda>(op', q, w). (op_status op' = OpComplete, s\<lparr>dk_queue := q, dk_world := w\<rparr>))
       (ata_submit (cl_alive cl) op (dk_queue s) (dk_world s))"

(* src/src/modules/hwpnp/ata/ata.cpp:478-481 ATAHDDDevice::Await *)
definition hdd_Await :: "hdd_caller \<Rightarrow> u64 + ATAOperation \<Rightarrow> disk_system \<Rightarrow> (bool \<times> disk_system) option" where
  "hdd_Await cl r s = (case r of Inl n \<Rightarrow> Some (n \<noteq> 0, s) | Inr op \<Rightarrow> ata_await cl op s)"

(* src/src/modules/hwpnp/ata/ata.cpp:487-489 ATAHDDDevice::GetSize *)
definition hdd_GetSize :: "u64 \<Rightarrow> u64" where
  "hdd_GetSize sectors = sectors * 512"

section \<open>Partitions\<close>

(* src/src/modules/hwpnp/ata/ata.hpp:313-316 MBRVolume::Partition *)
record mbr_partition =
  pt_start :: u64
  pt_sectors :: u64

definition le16 :: "u8 list \<Rightarrow> nat \<Rightarrow> u16" where
  "le16 b i = ucast (b ! i) OR push_bit 8 (ucast (b ! (i + 1)))"

definition le32 :: "u8 list \<Rightarrow> nat \<Rightarrow> u32" where
  "le32 b i = ucast (b ! i) OR push_bit 8 (ucast (b ! (i + 1))) OR push_bit 16 (ucast (b ! (i + 2))) OR push_bit 24 (ucast (b ! (i + 3)))"

(* src/src/modules/hwpnp/ata/mbr.cpp:5-14 part_entry *)
record part_entry =
  pe_boot :: u8
  pe_system :: u8
  pe_start_lba :: u32
  pe_sectors :: u32

(* src/src/modules/hwpnp/ata/mbr.cpp:22-28 mbr_parse *)
definition part_table :: "u8 list \<Rightarrow> nat \<Rightarrow> part_entry" where
  "part_table b i =
     (let o0 = 0x1be + 16 * i
      in \<lparr>pe_boot = b ! o0, pe_system = b ! (o0 + 4), pe_start_lba = le32 b (o0 + 8), pe_sectors = le32 b (o0 + 12)\<rparr>)"

text \<open>The products are computed in 32 bits and widened afterwards.\<close>

(* src/src/modules/hwpnp/ata/mbr.cpp:27-41 mbr_parse *)
fun mbr_entries :: "u32 \<Rightarrow> int \<Rightarrow> part_entry list \<Rightarrow> nat \<Rightarrow> mbr_partition list \<Rightarrow> bool \<times> nat \<times> mbr_partition list" where
  "mbr_entries secSize devSize [] active ps = (True, active, ps)"
| "mbr_entries secSize devSize (p # es) active ps =
     (if pe_boot p \<noteq> 0x80 \<and> pe_boot p \<noteq> 0 then (False, active, ps)
      else let active' = (if pe_boot p = 0x80 then active + 1 else active);
               startByte = uint (pe_start_lba p * secSize);
               endByte = startByte + uint (pe_sectors p * secSize)
           in if endByte > devSize then (False, active', ps)
              else mbr_entries secSize devSize es active'
                     (if pe_system p \<noteq> 0 then ps @ [\<lparr>pt_start = ucast (pe_start_lba p), pt_sectors = ucast (pe_sectors p)\<rparr>] else ps))"

(* src/src/modules/hwpnp/ata/mbr.cpp:16-58 mbr_parse *)
definition mbr_parse :: "u32 \<Rightarrow> int \<Rightarrow> u8 list \<Rightarrow> bool \<times> mbr_partition list" where
  "mbr_parse secSize devSize b =
     (if le16 b 0x1fe \<noteq> 0xAA55 then (False, [])
      else case mbr_entries secSize devSize (map (part_table b) [0, 1, 2, 3]) 0 [] of
             (ok, active, ps) \<Rightarrow>
               (if \<not> ok then (False, ps)
                else if active = 0 \<and> le16 b 0x0B \<in> {512, 1024, 2048, 4096} \<and> b ! 0x15 \<in> {0xF8, 0xF0} then (False, ps)
                else (True, ps)))"

text \<open>The device below is given by its read and write functions.\<close>

(* src/src/modules/hwpnp/ata/mbr.cpp:89-94 MBRVolume::ReadSector *)
definition mbr_ReadSector :: "(u64 \<Rightarrow> 'r) \<Rightarrow> 'r \<Rightarrow> mbr_partition list \<Rightarrow> nat \<Rightarrow> u64 \<Rightarrow> 'r result" where
  "mbr_ReadSector rd failed ps i lba =
     (if i > length ps then Inr failed
      else if i = length ps then Inl Undefined
      else if lba > pt_sectors (ps ! i) then Inr failed
      else Inr (rd (pt_start (ps ! i) + lba)))"

(* src/src/modules/hwpnp/ata/mbr.cpp:96-101 MBRVolume::WriteSector *)
definition mbr_WriteSector :: "(u64 \<Rightarrow> 'r) \<Rightarrow> 'r \<Rightarrow> mbr_partition list \<Rightarrow> nat \<Rightarrow> u64 \<Rightarrow> 'r result" where
  "mbr_WriteSector wr failed ps i lba =
     (if i > length ps then Inr failed
      else if i = length ps then Inl Undefined
      else if lba > pt_sectors (ps ! i) then Inr failed
      else Inr (wr (pt_start (ps ! i) + lba)))"

(* src/src/modules/hwpnp/ata/mbr.cpp:107-110 MBRVolume::GetSize *)
definition mbr_GetSize :: "u32 \<Rightarrow> mbr_partition list \<Rightarrow> nat \<Rightarrow> u64 result" where
  "mbr_GetSize secSize ps i =
     (if i > length ps then Inr 0 else if i = length ps then Inl Undefined else Inr (pt_sectors (ps ! i) * ucast secSize))"

section \<open>Addresses\<close>

lemma lba_masks:
  "(0x0f000000 :: u32) = push_bit 24 (mask 4)" "(0x00ff0000 :: u32) = push_bit 16 (mask 8)"
  "(0x0000ff00 :: u32) = push_bit 8 (mask 8)" "(0x000000ff :: u32) = mask 8" "(0x0fffffff :: u32) = mask 28" "(0xf :: u8) = mask 4"
  by (simp_all add: mask_eq_exp_minus_1 push_bit_eq_mult)

lemma drive_address_lba: "drive_address (lba_registers lba) = lba AND 0x0fffffff"
  unfolding drive_address_def lba_registers_def prod.case lba_masks
proof (rule bit_eqI)
  fix n
  assume "possible_bit TYPE(32 word) n"
  then have n: "n < 32"
    by simp
  show "bit (push_bit 24 (ucast ((ucast (drop_bit 24 (lba AND push_bit 24 (mask 4))) :: u8) AND mask 4)) OR
     push_bit 16 (ucast (ucast (drop_bit 16 (lba AND push_bit 16 (mask 8))) :: u8)) OR
     push_bit 8 (ucast (ucast (drop_bit 8 (lba AND push_bit 8 (mask 8))) :: u8)) OR ucast (ucast (lba AND mask 8) :: u8) :: u32) n
     = bit (lba AND mask 28) n"
  proof -
    consider "n < 8" | "8 \<le> n" "n < 16" | "16 \<le> n" "n < 24" | "24 \<le> n" "n < 28" | "28 \<le> n"
      by linarith
    then show ?thesis
      using n by cases (auto simp: bit_simps)
  qed
qed

lemma mod_sector: "unat lba < 2 ^ 28 \<Longrightarrow> lba AND 0x0fffffff = (lba :: u32)"
  unfolding lba_masks take_bit_eq_mask [symmetric] word_unat_eq_iff
  by (simp add: unsigned_take_bit_eq take_bit_nat_eq_self_iff)

section \<open>Order of operations\<close>

abbreviation pending :: "ATAOperation list \<Rightarrow> ATAOperation list" where
  "pending \<equiv> filter (\<lambda>op. op_status op = OpPending)"

lemma sort_key_first:
  fixes f :: "'a \<Rightarrow> 'b :: linorder"
  assumes "\<forall>y \<in> set ys. f x < f y" "\<forall>z \<in> set zs. f x \<le> f z"
  shows "sort_key f (ys @ x # zs) = x # sort_key f (ys @ zs)"
  using assms(1)
proof (induction ys)
  case Nil
  have "insort_key f x xs = x # xs" if "\<forall>z \<in> set xs. f x \<le> f z" for xs
    using that by (cases xs) auto
  then show ?case
    using assms(2) by simp
next
  case (Cons y ys)
  then have "\<not> f y \<le> f x"
    by (auto simp: not_le)
  then show ?case
    using Cons by simp
qed

text \<open>The scan returns the first of the pending operations of least sector number.\<close>

definition first_least :: "ATAOperation list \<Rightarrow> nat \<Rightarrow> bool" where
  "first_least ops i \<longleftrightarrow> i < length ops \<and> op_status (ops ! i) = OpPending \<and>
     (\<forall>y \<in> set (pending (take i ops)). op_lba (ops ! i) < op_lba y) \<and> (\<forall>z \<in> set (pending (drop (Suc i) ops)). op_lba (ops ! i) \<le> op_lba z)"

lemma batch_next_inv:
  assumes "case best of None \<Rightarrow> pending pre = []
    | Some (j, l) \<Rightarrow> j < length pre \<and> op_status (pre ! j) = OpPending \<and> l = op_lba (pre ! j) \<and>
        (\<forall>y \<in> set (pending (take j pre)). l < op_lba y) \<and> (\<forall>z \<in> set (pending (drop (Suc j) pre)). l \<le> op_lba z)"
  shows "case batch_next ops (length pre) best of None \<Rightarrow> pending (pre @ ops) = [] | Some i \<Rightarrow> first_least (pre @ ops) i"
  using assms
proof (induction ops arbitrary: pre best)
  case Nil
  then show ?case
    by (cases best) (auto simp: first_least_def)
next
  case (Cons op ops)
  have app: "pre @ op # ops = (pre @ [op]) @ ops" "Suc (length pre) = length (pre @ [op])"
    by simp_all
  note ih = Cons.IH [of "pre @ [op]"]
  show ?case
  proof (cases "op_status op = OpPending")
    case False
    have "batch_next (op # ops) (length pre) best = batch_next ops (length (pre @ [op])) best"
      using False by simp
    moreover have "case best of None \<Rightarrow> pending (pre @ [op]) = []
    | Some (j, l) \<Rightarrow> j < length (pre @ [op]) \<and> op_status ((pre @ [op]) ! j) = OpPending \<and> l = op_lba ((pre @ [op]) ! j) \<and>
        (\<forall>y \<in> set (pending (take j (pre @ [op]))). l < op_lba y) \<and> (\<forall>z \<in> set (pending (drop (Suc j) (pre @ [op]))). l \<le> op_lba z)"
      using Cons.prems False by (cases best) (auto simp: nth_append)
    ultimately show ?thesis
      unfolding app(1) using ih [of best] by simp
  next
    case True
    show ?thesis
    proof (cases "case best of None \<Rightarrow> True | Some (j, l) \<Rightarrow> op_lba op < l")
      case new: True
      have "batch_next (op # ops) (length pre) best = batch_next ops (length (pre @ [op])) (Some (length pre, op_lba op))"
        using True new by (auto split: option.splits)
      moreover have "\<forall>y \<in> set (pending pre). op_lba op < op_lba y"
      proof (cases best)
        case None
        then show ?thesis
          using Cons.prems by simp
      next
        case (Some b)
        obtain j l where b: "b = (j, l)"
          by (cases b)
        have j: "j < length pre" "op_status (pre ! j) = OpPending" "l = op_lba (pre ! j)"
          "\<forall>y \<in> set (pending (take j pre)). l < op_lba y" "\<forall>z \<in> set (pending (drop (Suc j) pre)). l \<le> op_lba z" "op_lba op < l"
          using Cons.prems new unfolding Some b option.case prod.case by blast+
        have "pending pre = pending (take j pre @ pre ! j # drop (Suc j) pre)"
          using id_take_nth_drop [OF j(1)] by simp
        then show ?thesis
          using j(2-6) by (auto intro: less_trans less_le_trans)
      qed
      ultimately show ?thesis
        unfolding app(1) using ih [of "Some (length pre, op_lba op)"] True by simp
    next
      case False
      then obtain j l where b: "best = Some (j, l)" "\<not> op_lba op < l"
        by (auto split: option.splits)
      then have "batch_next (op # ops) (length pre) best = batch_next ops (length (pre @ [op])) best"
        using True by simp
      moreover have "case best of None \<Rightarrow> pending (pre @ [op]) = []
    | Some (j, l) \<Rightarrow> j < length (pre @ [op]) \<and> op_status ((pre @ [op]) ! j) = OpPending \<and> l = op_lba ((pre @ [op]) ! j) \<and>
        (\<forall>y \<in> set (pending (take j (pre @ [op]))). l < op_lba y) \<and> (\<forall>z \<in> set (pending (drop (Suc j) (pre @ [op]))). l \<le> op_lba z)"
        using Cons.prems b True by (auto simp: nth_append)
      ultimately show ?thesis
        unfolding app(1) using ih [of best] by simp
    qed
  qed
qed

lemma batch_next_spec:
  "case batch_next ops 0 None of None \<Rightarrow> pending ops = [] | Some i \<Rightarrow> first_least ops i"
  using batch_next_inv [of "[]" None ops] unfolding append_Nil list.size(3) by simp

lemma first_least_sort:
  assumes "first_least ops i" "op_status op' \<noteq> OpPending"
  shows "sort_key op_lba (pending ops) = ops ! i # sort_key op_lba (pending (ops[i := op']))"
proof -
  have i: "i < length ops" "op_status (ops ! i) = OpPending"
    using assms(1) by (simp_all add: first_least_def)
  have "pending ops = pending (take i ops) @ ops ! i # pending (drop (Suc i) ops)"
    by (subst id_take_nth_drop [OF i(1)]) (simp add: i(2))
  moreover have "pending (ops[i := op']) = pending (take i ops) @ pending (drop (Suc i) ops)"
    by (subst upd_conv_take_nth_drop [OF i(1)]) (simp add: assms(2))
  ultimately show ?thesis
    using assms(1) by (simp add: first_least_def sort_key_first)
qed

lemma run_op_status: "op_type op \<noteq> OpShutdown \<Longrightarrow> run_op alive op w = (c, op', w') \<Longrightarrow> c \<and> op_status op' \<noteq> OpPending \<and> op_addr op' = op_addr op"
  by (cases "op_type op") (auto simp: run_op_def Let_def split_beta split: if_splits)

lemma ata_Process_status:
  "op_type op \<noteq> OpShutdown \<Longrightarrow> ata_Process alive op w = (c, op', w') \<Longrightarrow> c \<and> op_status op' \<noteq> OpPending \<and> op_addr op' = op_addr op"
  using run_op_status [of op alive _ c op' w'] by (auto simp: ata_Process_def Let_def split: if_splits)

lemma batch_rounds_sorted:
  assumes "length (pending ops) \<le> n" "\<forall>op \<in> set ops. op_type op \<noteq> OpShutdown \<or> op_status op \<noteq> OpPending"
  shows "\<exists>ops'. batch_rounds alive n ops w = (True, ops', fold (\<lambda>op w. snd (snd (ata_Process alive op w))) (sort_key op_lba (pending ops)) w) \<and>
     pending ops' = [] \<and> map op_addr ops' = map op_addr ops"
  using assms
proof (induction n arbitrary: ops w)
  case 0
  then show ?case
    by simp
next
  case (Suc n)
  show ?case
  proof (cases "batch_next ops 0 None")
    case None
    then have "pending ops = []"
      using batch_next_spec [of ops] by simp
    then show ?thesis
      using Suc.IH [of ops w] Suc.prems(2) None by simp
  next
    case (Some i)
    then have fl: "first_least ops i"
      using batch_next_spec [of ops] by simp
    then have i: "i < length ops" "op_status (ops ! i) = OpPending"
      by (simp_all add: first_least_def)
    obtain c op' w' where p: "ata_Process alive (ops ! i) w = (c, op', w')"
      by (metis surj_pair)
    have ty: "op_type (ops ! i) \<noteq> OpShutdown"
      using Suc.prems(2) i nth_mem [OF i(1)] by blast
    note st = ata_Process_status [OF ty p]
    have srt: "sort_key op_lba (pending ops) = ops ! i # sort_key op_lba (pending (ops[i := op']))"
      by (rule first_least_sort [OF fl]) (use st in simp)
    have "length (pending ops) = Suc (length (pending (ops[i := op'])))"
      using arg_cong [OF srt, of length] by simp
    then have len: "length (pending (ops[i := op'])) \<le> n"
      using Suc.prems(1) by simp
    have "\<forall>op \<in> set (ops[i := op']). op_type op \<noteq> OpShutdown \<or> op_status op \<noteq> OpPending"
      using Suc.prems(2) st set_update_subset_insert [of ops i op'] by blast
    from Suc.IH [OF len this, of w'] obtain ops' where
      r: "batch_rounds alive n (ops[i := op']) w' = (True, ops', fold (\<lambda>op w. snd (snd (ata_Process alive op w))) (sort_key op_lba (pending (ops[i := op']))) w')"
        "pending ops' = []" "map op_addr ops' = map op_addr (ops[i := op'])"
      by blast
    have "map op_addr (ops[i := op']) = map op_addr ops"
      using st list_update_id [of "map op_addr ops" i] i(1) by (simp add: map_update)
    then show ?thesis
      using r Some p st unfolding srt by simp
  qed
qed

text \<open>C29. 
  The worker performs the operations of a batch exactly as if it performed the pending ones one after
  the other in the order of their sector numbers, operations on the same sector in the order in which they
  came in; afterwards none is pending.
\<close>

theorem batch_is_sorted_sweep:
  assumes "\<forall>op \<in> set ops. op_type op \<noteq> OpShutdown"
  shows "\<exists>ops'. ata_Batch alive ops w = (True, ops', fold (\<lambda>op w. snd (snd (ata_Process alive op w))) (sort_key op_lba (pending ops)) w) \<and>
     (\<forall>op \<in> set ops'. op_status op \<noteq> OpPending) \<and> map op_addr ops' = map op_addr ops"
proof -
  have "\<forall>op \<in> set ops. op_type op \<noteq> OpShutdown \<or> op_status op \<noteq> OpPending"
    using assms by blast
  from batch_rounds_sorted [OF length_filter_le this, of alive w] show ?thesis
    unfolding ata_Batch_def by (auto simp: filter_empty_conv)
qed

definition demo_world :: ata_world where
  "demo_world =
     \<lparr>cacheBuffer = replicate 4096 0, lastOperation = sync_op 1 0 0, idleOp = sync_op 0 0 0,
      drives = (\<lambda>b i. \<lparr>platter = (\<lambda>a. replicate 512 0), read_fails = (\<lambda>a n. False)\<rparr>), optical = (\<lambda>b i l. (0, []))\<rparr>"

theorem batch_is_sorted_sweep_witness:
  "\<exists>ops'. ata_Batch (\<lambda>p. True) [write_op 1 0 0 9 [1] 5 5, write_op 2 0 0 3 [2] 6 6] demo_world
     = (True, ops', fold (\<lambda>op w. snd (snd (ata_Process (\<lambda>p. True) op w))) [write_op 2 0 0 3 [2] 6 6, write_op 1 0 0 9 [1] 5 5] demo_world)"
  using batch_is_sorted_sweep [of "[write_op 1 0 0 9 [1] 5 5, write_op 2 0 0 3 [2] 6 6]" "\<lambda>p. True" demo_world]
  by (auto simp: write_op_def)


section \<open>The disk device returns what was written\<close>

abbreviation sector_addr :: "u32 \<Rightarrow> u32" where
  "sector_addr lba \<equiv> drive_address (lba_registers lba)"

definition dev_drive :: "disk_system \<Rightarrow> drive" where
  "dev_drive s = drives (dk_world s) (hd_bus (dk_dev s)) (hd_index (dk_dev s))"

definition sector :: "disk_system \<Rightarrow> u64 \<Rightarrow> block" where
  "sector s lba = platter (dev_drive s) (sector_addr (ucast lba))"

definition drive_ok :: "drive \<Rightarrow> bool" where
  "drive_ok d \<longleftrightarrow> (\<forall>a. length (platter d a) = 512) \<and> (\<forall>a. pio_attempts (read_fails d a) 0)"

text \<open>The data read ahead, if any, are those of the drive.\<close>

definition read_ahead_of :: "disk_system \<Rightarrow> u32 \<Rightarrow> bool" where
  "read_ahead_of s a \<longleftrightarrow> op_status (idleOp (dk_world s)) = OpComplete \<and> op_bus (idleOp (dk_world s)) = hd_bus (dk_dev s) \<and>
     op_busIndex (idleOp (dk_world s)) = hd_index (dk_dev s) \<and> sector_addr (op_lba (idleOp (dk_world s))) = a"

definition read_ahead_ok :: "disk_system \<Rightarrow> bool" where
  "read_ahead_ok s \<longleftrightarrow> (\<forall>a. read_ahead_of s a \<longrightarrow> take 512 (cacheBuffer (dk_world s)) = platter (dev_drive s) a)"

definition cache_agrees :: "(u64 \<Rightarrow> block) \<Rightarrow> Cache option \<Rightarrow> bool" where
  "cache_agrees f oc \<longleftrightarrow> (case oc of None \<Rightarrow> True
     | Some c \<Rightarrow> cache_ok c \<and> blockSize c = 512 \<and> (\<forall>n b. cache_lookup c n = Some b \<longrightarrow> unat n < 2 ^ 28 \<and> b = f n))"

definition dev_cache_ok :: "disk_system \<Rightarrow> bool" where
  "dev_cache_ok s \<longleftrightarrow> cache_agrees (sector s) (hd_cache (dk_dev s))"

definition hdd_ok :: "disk_system \<Rightarrow> bool" where
  "hdd_ok s \<longleftrightarrow> drive_ok (dev_drive s) \<and> read_ahead_ok s \<and> dev_cache_ok s \<and> oq_ok 256 (dk_queue s) \<and> oq_contents 256 (dk_queue s) = []"

definition caller_ok :: "hdd_caller \<Rightarrow> bool" where
  "caller_ok cl \<longleftrightarrow> cl_alive cl (cl_pid cl) \<and> cl_addr cl \<noteq> 0"

lemma overlay_same_length: "length b = length buf \<Longrightarrow> overlay b buf = b"
  by (simp add: overlay_def)

lemma read_sector_ok:
  assumes "drive_ok d"
  shows "ata_device_read_sector lba buf d = (True, overlay (platter d (sector_addr lba)) buf)"
  using assms by (simp add: ata_device_read_sector_def ata_device_read_sector_pio_def drive_ok_def Let_def)

text \<open>An operation added to the empty queue is performed alone.\<close>

lemma ata_submit_alone:
  assumes "oq_ok 256 q" "oq_contents 256 q = []" "op_type op \<noteq> OpShutdown" "op_status op = OpPending"
    and p: "ata_Process alive op w = (c, op', w')"
  shows "\<exists>q'. ata_submit alive op q w = Some (op', q', w') \<and> oq_ok 256 q' \<and> oq_contents 256 q' = []"
proof -
  note st = ata_Process_status [OF assms(3) p]
  obtain q1 where q1: "oq_Add 256 op q = Returned q1" "oq_ok 256 q1" "oq_contents 256 q1 = [op]"
    using ring.add_room [OF assms(1), of op] assms(2) by auto
  obtain q2 where q2: "MakeBatch 256 q1 = Returned ([op], q2)" "oq_ok 256 q2" "oq_contents 256 q2 = []"
    using ring.batch_all [OF q1(2)] q1(3) by auto
  have "ata_Batch alive [op] w = (True, [op'], w')"
    using assms(4) p st by (simp add: ata_Batch_def)
  then show ?thesis
    using q1(1) q2 st by (simp add: ata_submit_def operation_blockcheck_def)
qed

lemma hdd_okD:
  assumes "hdd_ok s"
  shows "drive_ok (dev_drive s)" "read_ahead_ok s" "dev_cache_ok s" "oq_ok 256 (dk_queue s)" "oq_contents 256 (dk_queue s) = []"
  using assms by (simp_all add: hdd_ok_def)

lemma dev_cache_ok_cong:
  assumes "hd_cache (dk_dev s') = hd_cache (dk_dev s)" "sector s' = sector s"
  shows "dev_cache_ok s' = dev_cache_ok s"
  unfolding dev_cache_ok_def assms ..

text \<open>Reading a sector through the queue, from the drive or from the data read ahead.\<close>

lemma ata_queued_read_ok:
  assumes ok: "hdd_ok s" and cl: "caller_ok cl" and "length buf = 512"
  shows "\<exists>q w. ata_queued_read cl (hd_bus (dk_dev s)) (hd_index (dk_dev s)) lba buf (dk_queue s) (dk_world s)
      = Some (True, platter (dev_drive s) (sector_addr lba), q, w) \<and> oq_ok 256 q \<and> oq_contents 256 q = [] \<and>
      w = (dk_world s)\<lparr>lastOperation := read_op (cl_addr cl) (hd_bus (dk_dev s)) (hd_index (dk_dev s)) lba buf (cl_pid cl) (cl_tid cl)\<rparr>"
proof -
  note d = hdd_okD [OF ok]
  define op where "op = read_op (cl_addr cl) (hd_bus (dk_dev s)) (hd_index (dk_dev s)) lba buf (cl_pid cl) (cl_tid cl)"
  define w1 where "w1 = (dk_world s)\<lparr>lastOperation := op\<rparr>"
  have op: "op_addr op \<noteq> 0" "op_type op = OpRead" "op_status op = OpPending" "op_lba op = lba" "op_buf op = buf" "op_pid op = cl_pid cl"
    "op_bus op = hd_bus (dk_dev s)" "op_busIndex op = hd_index (dk_dev s)" "op_readSize op = 512"
    using cl by (simp_all add: op_def read_op_def caller_ok_def)
  have alive: "cl_alive cl (cl_pid cl)"
    using cl by (simp add: caller_ok_def)
  have len: "length (platter (dev_drive s) a) = 512" for a
    using d(1) by (simp add: drive_ok_def)
  have ov: "overlay (platter (dev_drive s) a) buf = platter (dev_drive s) a" for a
    by (rule overlay_same_length) (simp add: len assms(3))
  define op' where "op' = op\<lparr>op_buf := platter (dev_drive s) (sector_addr lba), op_status := OpComplete\<rparr>"
  have p: "ata_Process (cl_alive cl) op (dk_world s) = (True, op', w1)"
  proof (cases "read_ahead_hit (cl_alive cl) op w1")
    case True
    then have "read_ahead_of s (sector_addr lba)"
      by (simp add: read_ahead_hit_def read_ahead_of_def w1_def op)
    then have "take 512 (cacheBuffer w1) = platter (dev_drive s) (sector_addr lba)"
      using d(2) by (simp add: read_ahead_ok_def w1_def)
    then show ?thesis
      using True op(1,5,9) ov by (simp add: ata_Process_def w1_def [symmetric] op'_def)
  next
    case False
    have dr: "drives w1 (hd_bus (dk_dev s)) (hd_index (dk_dev s)) = dev_drive s"
      by (simp add: w1_def dev_drive_def)
    have "run_op (cl_alive cl) op w1 = (True, op', w1)"
      using alive op read_sector_ok [OF d(1), of lba buf] ov by (simp add: run_op_def dr op'_def store_op_def)
    then show ?thesis
      using False op(1) by (simp add: ata_Process_def w1_def [symmetric])
  qed
  obtain q where q: "ata_submit (cl_alive cl) op (dk_queue s) (dk_world s) = Some (op', q, w1)" "oq_ok 256 q" "oq_contents 256 q = []"
    using ata_submit_alone [OF d(4,5) _ op(3) p] op(2) by auto
  show ?thesis
    using q by (intro exI [of _ q] exI [of _ w1]) (simp add: ata_queued_read_def op_def [symmetric] op'_def w1_def)
qed

text \<open>States that agree in all that the invariant is about.\<close>

lemma hdd_ok_cong:
  assumes "hdd_ok s" and "dev_drive s' = dev_drive s" "idleOp (dk_world s') = idleOp (dk_world s)" "cacheBuffer (dk_world s') = cacheBuffer (dk_world s)"
    "hd_bus (dk_dev s') = hd_bus (dk_dev s)" "hd_index (dk_dev s') = hd_index (dk_dev s)" "dev_cache_ok s'"
    "oq_ok 256 (dk_queue s')" "oq_contents 256 (dk_queue s') = []"
  shows "hdd_ok s'"
proof -
  have "read_ahead_of s' = read_ahead_of s"
    unfolding read_ahead_of_def fun_eq_iff assms(3,5,6) by simp
  then have "read_ahead_ok s' = read_ahead_ok s"
    unfolding read_ahead_ok_def assms(2,4) by simp
  then show ?thesis
    using assms(1,2,7-9) unfolding hdd_ok_def by simp
qed

lemma ensure_cache_ok:
  assumes "hdd_ok s"
  shows "hdd_ok (ensure_cache s)" "sector (ensure_cache s) = sector s" "queueReady (ensure_cache s) = queueReady s"
    "dk_world (ensure_cache s) = dk_world s" "dk_queue (ensure_cache s) = dk_queue s" "hd_bus (dk_dev (ensure_cache s)) = hd_bus (dk_dev s)"
    "hd_index (dk_dev (ensure_cache s)) = hd_index (dk_dev s)"
proof -
  show same: "queueReady (ensure_cache s) = queueReady s"
    "dk_world (ensure_cache s) = dk_world s" "dk_queue (ensure_cache s) = dk_queue s" "hd_bus (dk_dev (ensure_cache s)) = hd_bus (dk_dev s)"
    "hd_index (dk_dev (ensure_cache s)) = hd_index (dk_dev s)"
    by (simp_all add: ensure_cache_def)
  have dd: "dev_drive (ensure_cache s) = dev_drive s"
    by (simp add: dev_drive_def same)
  then show "sector (ensure_cache s) = sector s"
    by (simp add: sector_def fun_eq_iff)
  have "cache_ok (Cache_new 512 8192)" "blockSize (Cache_new 512 8192) = 512" "cache_lookup (Cache_new 512 8192) n = None" for n
    by (simp_all add: cache_ok_def Cache_new_def MaxCacheSize_def cache_lookup_def)
  then have "dev_cache_ok (ensure_cache s)"
    using hdd_okD(3) [OF assms] by (auto simp: dev_cache_ok_def cache_agrees_def ensure_cache_def sector_def dev_drive_def)
  then show "hdd_ok (ensure_cache s)"
    using hdd_ok_cong [OF assms dd] hdd_okD(4,5) [OF assms] same by simp
qed

lemma try_cache_ok:
  assumes "hdd_ok s" "try_cache lba s = (r, s1)"
  shows "hdd_ok s1" "sector s1 = sector s" "queueReady s1 = queueReady s" "dk_world s1 = dk_world s" "dk_queue s1 = dk_queue s"
    "hd_bus (dk_dev s1) = hd_bus (dk_dev s)" "hd_index (dk_dev s1) = hd_index (dk_dev s)" "r = Some b \<Longrightarrow> b = sector s lba"
proof -
  note d = hdd_okD [OF assms(1)]
  show same: "queueReady s1 = queueReady s" "dk_world s1 = dk_world s" "dk_queue s1 = dk_queue s"
    "hd_bus (dk_dev s1) = hd_bus (dk_dev s)" "hd_index (dk_dev s1) = hd_index (dk_dev s)"
    using assms(2) by (auto simp: try_cache_def split: option.splits prod.splits)
  have dd: "dev_drive s1 = dev_drive s"
    by (simp add: dev_drive_def same)
  then show sec: "sector s1 = sector s"
    by (simp add: sector_def fun_eq_iff)
  show "r = Some b \<Longrightarrow> b = sector s lba"
    using assms(2) d(3) Retrieve_spec(1) by (auto simp: try_cache_def dev_cache_ok_def cache_agrees_def split: option.splits prod.splits) (metis fst_conv)
  have "dev_cache_ok s1"
  proof (cases "hd_cache (dk_dev s)")
    case None
    then show ?thesis
      using assms(2) by (auto simp: try_cache_def dev_cache_ok_def cache_agrees_def)
  next
    case (Some c)
    have c: "cache_ok c" "blockSize c = 512" "\<forall>n b. cache_lookup c n = Some b \<longrightarrow> unat n < 2 ^ 28 \<and> b = sector s n"
      using d(3) by (simp_all add: dev_cache_ok_def cache_agrees_def Some)
    have "hd_cache (dk_dev s1) = Some (snd (Retrieve lba c))"
      using assms(2) Some by (auto simp: try_cache_def split: prod.splits)
    then show ?thesis
      using c Retrieve_spec [OF c(1), of lba] unfolding dev_cache_ok_def cache_agrees_def sec by simp
  qed
  then show "hdd_ok s1"
    using hdd_ok_cong [OF assms(1) dd] d(4,5) same by simp
qed

lemma fetch_sector_ok:
  assumes ok: "hdd_ok s" and cl: "caller_ok cl" and buf: "length buf = 512"
  shows "\<exists>s2. fetch_sector cl lba buf s = Some (True, sector s lba, s2) \<and> hdd_ok s2 \<and> sector s2 = sector s \<and> dk_dev s2 = dk_dev s \<and>
     idleOp (dk_world s2) = idleOp (dk_world s) \<and> cacheBuffer (dk_world s2) = cacheBuffer (dk_world s) \<and> queueReady s2 = queueReady s \<and>
     (queueReady s \<longrightarrow> lastOperation (dk_world s2) = read_op (cl_addr cl) (hd_bus (dk_dev s)) (hd_index (dk_dev s)) (ucast lba) buf (cl_pid cl) (cl_tid cl))"
proof (cases "queueReady s")
  case True
  obtain q w where q: "ata_queued_read cl (hd_bus (dk_dev s)) (hd_index (dk_dev s)) (ucast lba) buf (dk_queue s) (dk_world s)
      = Some (True, platter (dev_drive s) (sector_addr (ucast lba)), q, w)" "oq_ok 256 q" "oq_contents 256 q = []"
      "w = (dk_world s)\<lparr>lastOperation := read_op (cl_addr cl) (hd_bus (dk_dev s)) (hd_index (dk_dev s)) (ucast lba) buf (cl_pid cl) (cl_tid cl)\<rparr>"
    using ata_queued_read_ok [OF ok cl buf] by blast
  define s2 where "s2 = s\<lparr>dk_queue := q, dk_world := w\<rparr>"
  have f: "fetch_sector cl lba buf s = Some (True, sector s lba, s2)"
    using True q(1) by (simp add: fetch_sector_def sector_def s2_def)
  have dd: "dev_drive s2 = dev_drive s"
    by (simp add: dev_drive_def s2_def q(4))
  then have sec: "sector s2 = sector s"
    by (simp add: sector_def fun_eq_iff)
  have "dev_cache_ok s2"
    using hdd_okD(3) [OF ok] dev_cache_ok_cong [OF _ sec] by (simp add: s2_def)
  then have "hdd_ok s2"
    using hdd_ok_cong [OF ok dd] q(2,3) by (simp add: s2_def q(4))
  then show ?thesis
    using f sec by (intro exI [of _ s2]) (simp add: s2_def q(4))
next
  case False
  have "overlay (platter (dev_drive s) (sector_addr (ucast lba))) buf = sector s lba"
    unfolding sector_def using hdd_okD(1) [OF ok] buf by (intro overlay_same_length) (simp add: drive_ok_def)
  then have "fetch_sector cl lba buf s = Some (True, sector s lba, s)"
    using False read_sector_ok [OF hdd_okD(1) [OF ok], of "ucast lba" buf] by (simp add: fetch_sector_def dev_drive_def)
  then show ?thesis
    using ok False by blast
qed


lemma sector_length: "hdd_ok s \<Longrightarrow> length (sector s n) = 512"
  by (simp add: hdd_ok_def drive_ok_def sector_def)

lemma hdd_set_cache:
  assumes ok: "hdd_ok s" and "cache_agrees (sector s) oc"
  shows "hdd_ok (s\<lparr>dk_dev := (dk_dev s)\<lparr>hd_cache := oc, nextBlock := nb\<rparr>\<rparr>)"
    "sector (s\<lparr>dk_dev := (dk_dev s)\<lparr>hd_cache := oc, nextBlock := nb\<rparr>\<rparr>) = sector s"
proof -
  define s' where "s' = s\<lparr>dk_dev := (dk_dev s)\<lparr>hd_cache := oc, nextBlock := nb\<rparr>\<rparr>"
  have dd: "dev_drive s' = dev_drive s"
    by (simp add: dev_drive_def s'_def)
  then show sec: "sector (s\<lparr>dk_dev := (dk_dev s)\<lparr>hd_cache := oc, nextBlock := nb\<rparr>\<rparr>) = sector s"
    by (simp add: sector_def fun_eq_iff s'_def)
  have "dev_cache_ok s'"
    using assms(2) sec by (simp add: dev_cache_ok_def s'_def)
  then show "hdd_ok (s\<lparr>dk_dev := (dk_dev s)\<lparr>hd_cache := oc, nextBlock := nb\<rparr>\<rparr>)"
    using hdd_ok_cong [OF ok dd] hdd_okD(4,5) [OF ok] by (simp add: s'_def)
qed

lemma hdd_ReadSector_ok:
  assumes ok: "hdd_ok s" and cl: "caller_ok cl" and buf: "length buf = 512" and lba: "unat lba < 2 ^ 28"
  shows "\<exists>s'. hdd_ReadSector cl lba buf s = Some (True, sector s lba, s') \<and> hdd_ok s' \<and> sector s' = sector s"
proof -
  note e = ensure_cache_ok [OF ok]
  obtain r s1 where t: "try_cache lba (ensure_cache s) = (r, s1)"
    by force
  note t1 = try_cache_ok [OF e(1) t]
  show ?thesis
  proof (cases r)
    case (Some b)
    then have "overlay b buf = sector s lba"
      using t1(8) [of b] e(2) sector_length [OF ok] buf overlay_same_length by metis
    then show ?thesis
      using t Some t1(1,2) e(2) by (simp add: hdd_ReadSector_def)
  next
    case None
    obtain s2 where f: "fetch_sector cl lba buf s1 = Some (True, sector s1 lba, s2)" "hdd_ok s2" "sector s2 = sector s1" "dk_dev s2 = dk_dev s1"
      using fetch_sector_ok [OF t1(1) cl buf, of lba] by blast
    have sec: "sector s1 = sector s" "sector s2 = sector s"
      using t1(2) e(2) f(3) by simp_all
    show ?thesis
    proof (cases "hd_cache (dk_dev s2)")
      case N: None
      then have "hdd_ReadSector cl lba buf s = Some (True, sector s lba, s2\<lparr>dk_dev := (dk_dev s2)\<lparr>nextBlock := lba + 1\<rparr>\<rparr>)"
        using t None f(1) sec by (simp add: hdd_ReadSector_def)
      moreover have "s2\<lparr>dk_dev := (dk_dev s2)\<lparr>nextBlock := lba + 1\<rparr>\<rparr> = s2\<lparr>dk_dev := (dk_dev s2)\<lparr>hd_cache := None, nextBlock := lba + 1\<rparr>\<rparr>"
        using N by simp
      ultimately show ?thesis
        using hdd_set_cache [OF f(2), of None] sec by (simp add: cache_agrees_def)
    next
      case (Some c)
      have c: "cache_ok c" "blockSize c = 512" "\<forall>n b. cache_lookup c n = Some b \<longrightarrow> unat n < 2 ^ 28 \<and> b = sector s n"
        using hdd_okD(3) [OF f(2)] sec(2) by (simp_all add: dev_cache_ok_def cache_agrees_def Some)
      obtain c' where c': "Store lba (sector s lba) c = Some c'" "cache_ok c'" "blockSize c' = 512" "cache_lookup c' lba = Some (sector s lba)"
        "\<forall>m. m \<noteq> lba \<longrightarrow> cache_lookup c' m \<in> {None, cache_lookup c m}"
        using Store_spec [OF c(1), of "sector s lba" lba] sector_length [OF ok] c(2) by auto
      have "unat n < 2 ^ 28 \<and> b = sector s n" if "cache_lookup c' n = Some b" for n b
      proof (cases "n = lba")
        case True
        then show ?thesis
          using that c'(4) lba by simp
      next
        case False
        then have "cache_lookup c n = Some b"
          using that c'(5) [rule_format, OF False] by simp
        then show ?thesis
          using c(3) by blast
      qed
      then show ?thesis
        using hdd_set_cache [OF f(2), of "Some c'" "lba + 1"] c'(1-3) t None f(1) sec Some by (simp add: hdd_ReadSector_def cache_agrees_def)
    qed
  qed
qed


section \<open>Writing and reading ahead\<close>

definition written :: "(u64 \<Rightarrow> block) \<Rightarrow> u64 \<Rightarrow> block \<Rightarrow> u64 \<Rightarrow> block" where
  "written f lba b n = (if sector_addr (ucast n) = sector_addr (ucast lba) then b else f n)"

lemma sector_addr_inj:
  assumes "unat n < 2 ^ 28" "unat m < 2 ^ 28"
  shows "sector_addr (ucast (n :: u64)) = sector_addr (ucast (m :: u64)) \<longleftrightarrow> n = m"
proof -
  have u: "unat (ucast k :: u32) = unat k" if "unat k < 2 ^ 28" for k :: u64
    using that by (simp add: unsigned_ucast_eq unsigned_take_bit_eq take_bit_nat_eq_self_iff)
  have "sector_addr (ucast k) = ucast k" if "unat k < 2 ^ 28" for k :: u64
    unfolding drive_address_lba using that u [OF that] by (intro mod_sector) simp
  then have "sector_addr (ucast n) = sector_addr (ucast m) \<longleftrightarrow> (ucast n :: u32) = ucast m"
    using assms by simp
  also have "\<dots> \<longleftrightarrow> unat (ucast n :: u32) = unat (ucast m :: u32)"
    by (simp add: word_unat_eq_iff)
  finally show ?thesis
    unfolding u [OF assms(1)] u [OF assms(2)] by (simp add: word_unat_eq_iff)
qed

lemma cache_agrees_drop:
  assumes "cache_agrees f oc" "unat lba < 2 ^ 28"
  shows "cache_agrees (written f lba b) (map_option (Drop lba) oc)"
proof (cases oc)
  case None
  then show ?thesis
    by (simp add: cache_agrees_def)
next
  case (Some c)
  have c: "cache_ok c" "blockSize c = 512" "\<forall>n b. cache_lookup c n = Some b \<longrightarrow> unat n < 2 ^ 28 \<and> b = f n"
    using assms(1) by (simp_all add: cache_agrees_def Some)
  have "unat n < 2 ^ 28 \<and> b' = written f lba b n" if "cache_lookup (Drop lba c) n = Some b'" for n b'
  proof -
    have "n \<noteq> lba" "cache_lookup c n = Some b'"
      using that unfolding Drop_spec(2) [OF c(1)] by (simp_all split: if_splits)
    then show ?thesis
      using c(3) sector_addr_inj [OF _ assms(2), of n] by (auto simp: written_def)
  qed
  then show ?thesis
    using Drop_spec(1) [OF c(1), of lba] c(2) by (simp add: cache_agrees_def Some Drop_def)
qed

definition write_world :: "disk_system \<Rightarrow> u64 \<Rightarrow> block \<Rightarrow> ata_world \<Rightarrow> ata_world" where
  "write_world s lba b w = set_drive (hd_bus (dk_dev s)) (hd_index (dk_dev s))
     ((dev_drive s)\<lparr>platter := (platter (dev_drive s))(sector_addr (ucast lba) := b)\<rparr>) w"

lemma hdd_WriteSector_runs:
  assumes ok: "hdd_ok s" and cl: "caller_ok cl" and buf: "length buf = 512"
  shows "\<exists>q w. hdd_WriteSector cl lba buf s = Some (True, (forget_sector lba s)\<lparr>dk_queue := q, dk_world := write_world s lba buf w\<rparr>) \<and>
     oq_ok 256 q \<and> oq_contents 256 q = [] \<and> drives w = drives (dk_world s) \<and> idleOp w = idleOp (dk_world s) \<and> cacheBuffer w = cacheBuffer (dk_world s)"
proof (cases "queueReady s")
  case True
  note d = hdd_okD [OF ok]
  define op where "op = write_op (cl_addr cl) (hd_bus (dk_dev s)) (hd_index (dk_dev s)) (ucast lba) buf (cl_pid cl) (cl_tid cl)"
  define w1 where "w1 = (dk_world s)\<lparr>lastOperation := op\<rparr>"
  define op' where "op' = op\<lparr>op_status := OpComplete\<rparr>"
  have op: "op_addr op \<noteq> 0" "op_type op = OpWrite" "op_status op = OpPending" "op_lba op = ucast lba" "op_buf op = buf" "op_pid op = cl_pid cl"
    "op_bus op = hd_bus (dk_dev s)" "op_busIndex op = hd_index (dk_dev s)" "cl_alive cl (op_pid op)"
    using cl by (simp_all add: op_def write_op_def caller_ok_def)
  have p: "ata_Process (cl_alive cl) op (dk_world s) = (True, op', write_world s lba buf w1)"
    using op buf by (simp add: ata_Process_def read_ahead_hit_def run_op_def w1_def write_world_def op'_def store_op_def
      ata_device_write_sector_def dev_drive_def)
  obtain q where q: "ata_submit (cl_alive cl) op (dk_queue s) (dk_world s) = Some (op', q, write_world s lba buf w1)" "oq_ok 256 q" "oq_contents 256 q = []"
    using ata_submit_alone [OF d(4,5) _ op(3) p] op(2) by auto
  show ?thesis
    using q True by (intro exI [of _ q] exI [of _ w1])
      (simp add: hdd_WriteSector_def forget_sector_def ata_queued_write_def op_def [symmetric] op'_def w1_def)
next
  case False
  then show ?thesis
    using hdd_okD(4,5) [OF ok] buf by (intro exI [of _ "dk_queue s"] exI [of _ "dk_world s"])
      (simp add: hdd_WriteSector_def forget_sector_def ata_device_write_sector_def write_world_def dev_drive_def Let_def)
qed

lemma hdd_WriteSector_ok:
  assumes ok: "hdd_ok s" and cl: "caller_ok cl" and buf: "length buf = 512" and lba: "unat lba < 2 ^ 28"
    and ra: "\<not> read_ahead_of s (sector_addr (ucast lba))"
  shows "\<exists>s'. hdd_WriteSector cl lba buf s = Some (True, s') \<and> hdd_ok s' \<and> sector s' = written (sector s) lba buf"
proof -
  note d = hdd_okD [OF ok]
  obtain q w where w: "hdd_WriteSector cl lba buf s = Some (True, (forget_sector lba s)\<lparr>dk_queue := q, dk_world := write_world s lba buf w\<rparr>)"
    "oq_ok 256 q" "oq_contents 256 q = []" "drives w = drives (dk_world s)" "idleOp w = idleOp (dk_world s)" "cacheBuffer w = cacheBuffer (dk_world s)"
    using hdd_WriteSector_runs [OF ok cl buf, of lba] by blast
  define s' where "s' = (forget_sector lba s)\<lparr>dk_queue := q, dk_world := write_world s lba buf w\<rparr>"
  have dd: "dev_drive s' = (dev_drive s)\<lparr>platter := (platter (dev_drive s))(sector_addr (ucast lba) := buf)\<rparr>"
    by (simp add: dev_drive_def s'_def forget_sector_def write_world_def set_drive_def)
  have sec: "sector s' = written (sector s) lba buf"
    by (simp add: sector_def dd written_def fun_eq_iff)
  have "drive_ok (dev_drive s')"
    using d(1) buf unfolding dd drive_ok_def by simp
  moreover have "read_ahead_ok s'"
  proof -
    have "read_ahead_of s' a = read_ahead_of s a" for a
      by (simp add: read_ahead_of_def s'_def forget_sector_def write_world_def set_drive_def w(5))
    then show ?thesis
      using d(2) ra unfolding read_ahead_ok_def dd by (auto simp: s'_def write_world_def set_drive_def w(6))
  qed
  moreover have "dev_cache_ok s'"
    using cache_agrees_drop [OF _ lba] d(3) unfolding dev_cache_ok_def sec by (simp add: s'_def forget_sector_def)
  ultimately have "hdd_ok s'"
    using w(2,3) by (simp add: hdd_ok_def s'_def)
  then show ?thesis
    using w(1) sec by (simp add: s'_def)
qed

text \<open>Reading ahead keeps the data coherent.\<close>

lemma idle_round_runs:
  assumes "oq_ok 256 q" "oq_contents 256 q = []"
  shows "\<exists>q' w'. idle_round alive q w = Some (q', w') \<and> oq_ok 256 q' \<and> oq_contents 256 q' = [] \<and> drives w' = drives w \<and>
     (if op_type (lastOperation w) = OpRead then op_lba (idleOp w') = op_lba (lastOperation w) + 1 \<and>
       op_bus (idleOp w') = op_bus (lastOperation w) \<and> op_busIndex (idleOp w') = op_busIndex (lastOperation w) \<and>
       (if alive 0 then op_status (idleOp w') = OpComplete \<and>
          cacheBuffer w' = snd (ata_device_read_sector (op_lba (idleOp w')) (cacheBuffer w) (drives w (op_bus (idleOp w')) (op_busIndex (idleOp w'))))
        else op_status (idleOp w') = OpError)
      else w' = w)"
proof (cases "op_type (lastOperation w) = OpRead")
  case False
  then show ?thesis
    using assms by (simp add: idle_round_def ata_Idle_def)
next
  case True
  define op where "op = (lastOperation w)\<lparr>op_addr := 0, op_buf := cacheBuffer w, op_pid := 0, op_tid := 0,
    op_lba := op_lba (lastOperation w) + 1, op_status := OpPending\<rparr>"
  define w1 where "w1 = w\<lparr>idleOp := op, lastOperation := (lastOperation w)\<lparr>op_type := OpSync\<rparr>\<rparr>"
  have i: "ata_Idle w = (Some op, w1)"
    using True by (simp add: ata_Idle_def op_def w1_def Let_def)
  obtain c op' w' where p: "ata_Process alive op w1 = (c, op', w')"
    using prod_cases3 by blast
  have op: "op_type op \<noteq> OpShutdown" "op_status op = OpPending" "op_addr op = 0"
    using True by (simp_all add: op_def)
  obtain q' where q': "ata_submit alive op q w1 = Some (op', q', w')" "oq_ok 256 q'" "oq_contents 256 q' = []"
    using ata_submit_alone [OF assms op(1,2) p] by blast
  show ?thesis
    using q' i p True by (intro exI [of _ q'] exI [of _ w'])
      (auto simp: idle_round_def ata_Process_def run_op_def op_def w1_def store_op_def Let_def split: if_splits)
qed

lemma idle_round_lands:
  assumes "oq_ok 256 q" "oq_contents 256 q = []" "idle_round alive q w = Some (q', w')" "alive 0" "op_type (lastOperation w) = OpRead"
  shows "op_status (idleOp w') = OpComplete \<and> op_bus (idleOp w') = op_bus (lastOperation w) \<and>
     op_busIndex (idleOp w') = op_busIndex (lastOperation w) \<and> op_lba (idleOp w') = op_lba (lastOperation w) + 1"
  using idle_round_runs [OF assms(1,2), of alive w] assms(3-5) by auto

lemma idle_round_ok:
  assumes ok: "hdd_ok s"
  shows "\<exists>q w. idle_round alive (dk_queue s) (dk_world s) = Some (q, w) \<and> hdd_ok (s\<lparr>dk_queue := q, dk_world := w\<rparr>) \<and>
     sector (s\<lparr>dk_queue := q, dk_world := w\<rparr>) = sector s"
proof -
  note d = hdd_okD [OF ok]
  obtain q w where w: "idle_round alive (dk_queue s) (dk_world s) = Some (q, w)" "oq_ok 256 q" "oq_contents 256 q = []" "drives w = drives (dk_world s)"
    "if op_type (lastOperation (dk_world s)) = OpRead then (if alive 0 then op_status (idleOp w) = OpComplete \<and>
          cacheBuffer w = snd (ata_device_read_sector (op_lba (idleOp w)) (cacheBuffer (dk_world s)) (drives (dk_world s) (op_bus (idleOp w)) (op_busIndex (idleOp w))))
        else op_status (idleOp w) = OpError) else w = dk_world s"
    using idle_round_runs [OF d(4,5), of alive "dk_world s"] by (cases "op_type (lastOperation (dk_world s)) = OpRead") auto
  define s' where "s' = s\<lparr>dk_queue := q, dk_world := w\<rparr>"
  have dd: "dev_drive s' = dev_drive s"
    by (simp add: dev_drive_def s'_def w(4))
  then have sec: "sector s' = sector s"
    by (simp add: sector_def fun_eq_iff)
  have "take 512 (cacheBuffer w) = platter (dev_drive s) a" if a: "read_ahead_of s' a" for a
  proof (cases "w = dk_world s")
    case True
    then have "read_ahead_of s a"
      using a by (simp add: read_ahead_of_def s'_def)
    then show ?thesis
      using d(2) True by (simp add: read_ahead_ok_def)
  next
    case False
    then have "cacheBuffer w = snd (ata_device_read_sector (op_lba (idleOp w)) (cacheBuffer (dk_world s)) (dev_drive s))"
      using w(5) a by (auto simp: read_ahead_of_def s'_def dev_drive_def split: if_splits)
    then show ?thesis
      using a d(1) by (simp add: read_sector_ok [OF d(1)] read_ahead_of_def s'_def overlay_def drive_ok_def)
  qed
  then have "read_ahead_ok s'"
    unfolding read_ahead_ok_def dd by (simp add: s'_def)
  then have "hdd_ok s'"
    using d(1,3) dev_cache_ok_cong [OF _ sec] w(2,3) unfolding hdd_ok_def dd by (simp add: s'_def)
  then show ?thesis
    using w(1) sec by (simp add: s'_def)
qed


text \<open>C27. 
  The disk device behaves as an array of 512-byte sectors: a read returns the sector and changes nothing, a
  write that does not go to the sector that has been read ahead changes exactly its sector, and reading
  ahead changes nothing. The block cache, the worker's queue and the data read ahead are invisible.
\<close>

theorem disk_is_array:
  assumes "hdd_ok s" and "caller_ok cl" and "length buf = 512" and "unat lba < 2 ^ 28"
  shows "(\<exists>s'. hdd_ReadSector cl lba buf s = Some (True, sector s lba, s') \<and> hdd_ok s' \<and> sector s' = sector s) \<and>
    (\<not> read_ahead_of s (sector_addr (ucast lba)) \<longrightarrow>
      (\<exists>s'. hdd_WriteSector cl lba buf s = Some (True, s') \<and> hdd_ok s' \<and> sector s' = written (sector s) lba buf)) \<and>
    (\<exists>q w. idle_round (cl_alive cl) (dk_queue s) (dk_world s) = Some (q, w) \<and> hdd_ok (s\<lparr>dk_queue := q, dk_world := w\<rparr>) \<and>
      sector (s\<lparr>dk_queue := q, dk_world := w\<rparr>) = sector s)"
  using hdd_ReadSector_ok [OF assms] hdd_WriteSector_ok [OF assms] idle_round_ok [OF assms(1), of "cl_alive cl"] by blast

definition demo_disk :: disk_system where
  "demo_disk = \<lparr>dk_dev = \<lparr>hd_bus = 0, hd_index = 0, hd_cache = None, nextBlock = 0\<rparr>, dk_queue = \<lparr>oq_queue = replicate 256 (sync_op 1 0 0), queueCount = 0, queueTop = 0, oq_threadId = 3\<rparr>, dk_world = demo_world,
     queueReady = True, cacheLoaded = True\<rparr>"

definition demo_caller :: hdd_caller where
  "demo_caller = \<lparr>cl_alive = (\<lambda>p. True), cl_pid = 5, cl_tid = 9, cl_addr = 77\<rparr>"

lemma demo_disk_ok: "hdd_ok demo_disk" "caller_ok demo_caller"
proof -
  have "pio_attempts (\<lambda>n. False) 0"
    by (simp add: pio_attempts.simps)
  then show "hdd_ok demo_disk"
    by (simp add: hdd_ok_def demo_disk_def demo_world_def drive_ok_def dev_drive_def read_ahead_ok_def read_ahead_of_def sync_op_def
      dev_cache_ok_def cache_agrees_def oq_ok_def oq_contents_def)
  show "caller_ok demo_caller"
    by (simp add: caller_ok_def demo_caller_def)
qed

theorem disk_is_array_witness:
  "\<exists>s'. hdd_WriteSector demo_caller 3 (replicate 512 7) demo_disk = Some (True, s') \<and> sector s' 3 = replicate 512 7 \<and> sector s' 4 = replicate 512 0"
proof -
  have "\<not> read_ahead_of demo_disk a" for a
    by (simp add: read_ahead_of_def demo_disk_def demo_world_def sync_op_def)
  then obtain s' where "hdd_WriteSector demo_caller 3 (replicate 512 7) demo_disk = Some (True, s')" "sector s' = written (sector demo_disk) 3 (replicate 512 7)"
    using disk_is_array [OF demo_disk_ok, of "replicate 512 7" 3] by auto
  moreover have "sector demo_disk 4 = replicate 512 0"
    by (simp add: sector_def dev_drive_def demo_disk_def demo_world_def)
  ultimately show ?thesis
    using sector_addr_inj [of 4 3] by (auto simp: written_def)
qed

text \<open>A read that the block cache cannot answer makes the worker read the next sector ahead.\<close>

lemma read_then_idle:
  assumes ok: "hdd_ok s" and cl: "caller_ok cl" "cl_alive cl 0" and buf: "length buf = 512" and lba: "unat lba < 2 ^ 28"
    and "queueReady s" and miss: "fst (try_cache lba (ensure_cache s)) = None"
  shows "\<exists>s1 q w. hdd_ReadSector cl lba buf s = Some (True, sector s lba, s1) \<and> idle_round (cl_alive cl) (dk_queue s1) (dk_world s1) = Some (q, w) \<and>
     hdd_ok (s1\<lparr>dk_queue := q, dk_world := w\<rparr>) \<and> sector (s1\<lparr>dk_queue := q, dk_world := w\<rparr>) = sector s \<and> queueReady s1 \<and>
     op_status (idleOp w) = OpComplete \<and> op_bus (idleOp w) = hd_bus (dk_dev s1) \<and> op_busIndex (idleOp w) = hd_index (dk_dev s1) \<and>
     op_lba (idleOp w) = ucast lba + 1"
proof -
  note e = ensure_cache_ok [OF ok]
  obtain s0 where t: "try_cache lba (ensure_cache s) = (None, s0)"
    using miss by (metis prod.collapse)
  note t1 = try_cache_ok [OF e(1) t]
  have qr: "queueReady s0"
    using assms(6) t1(3) e(3) by simp
  obtain s2 where f: "fetch_sector cl lba buf s0 = Some (True, sector s0 lba, s2)" "dk_dev s2 = dk_dev s0" "queueReady s2"
      "lastOperation (dk_world s2) = read_op (cl_addr cl) (hd_bus (dk_dev s0)) (hd_index (dk_dev s0)) (ucast lba) buf (cl_pid cl) (cl_tid cl)"
    using fetch_sector_ok [OF t1(1) cl(1) buf, of lba] qr by metis
  obtain s1 where s1: "hdd_ReadSector cl lba buf s = Some (True, sector s lba, s1)" "hdd_ok s1" "sector s1 = sector s"
    using hdd_ReadSector_ok [OF ok cl(1) buf lba] by blast
  have same: "dk_world s1 = dk_world s2" "queueReady s1 = queueReady s2" "hd_bus (dk_dev s1) = hd_bus (dk_dev s2)" "hd_index (dk_dev s1) = hd_index (dk_dev s2)"
    using s1(1) t f(1) by (auto simp: hdd_ReadSector_def split: option.splits)
  define lo where "lo = lastOperation (dk_world s1)"
  have lo: "op_type lo = OpRead" "op_lba lo = ucast lba" "op_bus lo = hd_bus (dk_dev s1)" "op_busIndex lo = hd_index (dk_dev s1)" "op_status lo = OpPending"
    using f(2,4) same by (simp_all add: lo_def read_op_def)
  obtain q w where w: "idle_round (cl_alive cl) (dk_queue s1) (dk_world s1) = Some (q, w)" "hdd_ok (s1\<lparr>dk_queue := q, dk_world := w\<rparr>)"
    "sector (s1\<lparr>dk_queue := q, dk_world := w\<rparr>) = sector s1"
    using idle_round_ok [OF s1(2)] by blast
  have "op_status (idleOp w) = OpComplete \<and> op_bus (idleOp w) = op_bus lo \<and> op_busIndex (idleOp w) = op_busIndex lo \<and> op_lba (idleOp w) = op_lba lo + 1"
    using idle_round_lands [OF hdd_okD(4,5) [OF s1(2)] w(1)] cl(2) lo(1) by (simp add: lo_def)
  then show ?thesis
    using s1 w lo same f(3) by (intro exI [of _ s1] exI [of _ q] exI [of _ w]) simp
qed

definition cache_misses :: "u64 \<Rightarrow> Cache option \<Rightarrow> bool" where
  "cache_misses n oc \<longleftrightarrow> (case oc of None \<Rightarrow> True | Some c \<Rightarrow> cache_lookup c n = None)"

lemma cache_misses_drop: "cache_agrees f oc \<Longrightarrow> cache_misses n (map_option (Drop n) oc)"
  by (cases oc) (auto simp: cache_misses_def cache_agrees_def Drop_spec(2))

lemma ucast_succ: "(ucast (n + 1 :: u64) :: u32) = ucast n + 1"
  by (simp add: word_unat_eq_iff unsigned_ucast_eq unsigned_take_bit_eq unat_word_ariths take_bit_eq_mod mod_mod_cancel mod_Suc_eq)

text \<open>The worker answers a read from the data it has read ahead, whatever the drive holds.\<close>

lemma ata_queued_read_hit:
  assumes cl: "caller_ok cl" and q: "oq_ok 256 q" "oq_contents 256 q = []" and len: "length buf = 512" "length (take 512 (cacheBuffer w)) = 512"
    and hit: "op_status (idleOp w) = OpComplete" "op_bus (idleOp w) = bus" "op_busIndex (idleOp w) = index" "op_lba (idleOp w) = lba"
  shows "\<exists>q' w'. ata_queued_read cl bus index lba buf q w = Some (True, take 512 (cacheBuffer w), q', w')"
proof -
  define op where "op = read_op (cl_addr cl) bus index lba buf (cl_pid cl) (cl_tid cl)"
  define op' where "op' = op\<lparr>op_buf := take 512 (cacheBuffer w), op_status := OpComplete\<rparr>"
  have op: "op_addr op \<noteq> 0" "op_type op \<noteq> OpShutdown" "op_status op = OpPending" "op_buf op = buf" "op_readSize op = 512"
    using cl by (simp_all add: op_def read_op_def caller_ok_def)
  have "read_ahead_hit (cl_alive cl) op (w\<lparr>lastOperation := op\<rparr>)"
    using cl hit by (simp add: read_ahead_hit_def op_def read_op_def caller_ok_def)
  then have p: "ata_Process (cl_alive cl) op w = (True, op', w\<lparr>lastOperation := op\<rparr>)"
    using op(1,4,5) overlay_same_length [of "take 512 (cacheBuffer w)" buf] len by (simp add: ata_Process_def op'_def)
  obtain q' where "ata_submit (cl_alive cl) op q w = Some (op', q', w\<lparr>lastOperation := op\<rparr>)"
    using ata_submit_alone [OF q op(2,3) p] by blast
  then show ?thesis
    by (simp add: ata_queued_read_def op_def [symmetric] op'_def)
qed

lemma try_cache_misses:
  assumes "cache_agrees f (hd_cache (dk_dev s))" "cache_misses lba (hd_cache (dk_dev s))"
  shows "\<exists>s'. try_cache lba s = (None, s') \<and> dk_world s' = dk_world s \<and> dk_queue s' = dk_queue s \<and> queueReady s' = queueReady s \<and>
     hd_bus (dk_dev s') = hd_bus (dk_dev s) \<and> hd_index (dk_dev s') = hd_index (dk_dev s) \<and> cache_agrees f (hd_cache (dk_dev s'))"
proof (cases "hd_cache (dk_dev s)")
  case None
  then show ?thesis
    using assms by (simp add: try_cache_def)
next
  case (Some c)
  obtain r c' where r: "Retrieve lba c = (r, c')"
    by force
  have "r = None" "cache_agrees f (Some c')"
    using Retrieve_spec [of c lba] assms r by (simp_all add: Some cache_agrees_def cache_misses_def)
  then show ?thesis
    using r by (simp add: try_cache_def Some)
qed

lemma ensure_cache_agrees:
  assumes "cache_agrees f (hd_cache (dk_dev s))" "cache_misses n (hd_cache (dk_dev s))"
  shows "cache_agrees f (hd_cache (dk_dev (ensure_cache s)))" "cache_misses n (hd_cache (dk_dev (ensure_cache s)))"
  using assms by (auto simp: ensure_cache_def cache_agrees_def cache_misses_def cache_ok_def Cache_new_def MaxCacheSize_def cache_lookup_def)

lemma hdd_read_ahead_hit:
  assumes cl: "caller_ok cl" and len: "length buf = 512" "length (take 512 (cacheBuffer (dk_world s))) = 512"
    and q: "oq_ok 256 (dk_queue s) \<and> oq_contents 256 (dk_queue s) = [] \<and> queueReady s"
    and c: "cache_agrees f (hd_cache (dk_dev s))" "cache_misses lba (hd_cache (dk_dev s))"
    and hit: "op_status (idleOp (dk_world s)) = OpComplete" "op_bus (idleOp (dk_world s)) = hd_bus (dk_dev s)"
      "op_busIndex (idleOp (dk_world s)) = hd_index (dk_dev s)" "op_lba (idleOp (dk_world s)) = ucast lba"
  shows "\<exists>s'. hdd_ReadSector cl lba buf s = Some (True, take 512 (cacheBuffer (dk_world s)), s')"
proof -
  obtain s1 where t: "try_cache lba (ensure_cache s) = (None, s1)" "dk_world s1 = dk_world s" "dk_queue s1 = dk_queue s" "queueReady s1 = queueReady s"
      "hd_bus (dk_dev s1) = hd_bus (dk_dev s)" "hd_index (dk_dev s1) = hd_index (dk_dev s)" and c1: "cache_agrees f (hd_cache (dk_dev s1))"
    using try_cache_misses [OF ensure_cache_agrees [OF c]] by (auto simp: ensure_cache_def split: if_splits)
  obtain q' w' where r: "ata_queued_read cl (hd_bus (dk_dev s)) (hd_index (dk_dev s)) (ucast lba) buf (dk_queue s) (dk_world s)
      = Some (True, take 512 (cacheBuffer (dk_world s)), q', w')"
    using ata_queued_read_hit [OF cl _ _ len hit] q by blast
  then have f: "fetch_sector cl lba buf s1 = Some (True, take 512 (cacheBuffer (dk_world s)), s1\<lparr>dk_queue := q', dk_world := w'\<rparr>)"
    using q t by (simp add: fetch_sector_def)
  show ?thesis
  proof (cases "hd_cache (dk_dev s1)")
    case None
    then show ?thesis
      using t(1) f by (simp add: hdd_ReadSector_def)
  next
    case (Some k)
    obtain k' where "Store lba (take 512 (cacheBuffer (dk_world s))) k = Some k'"
      using Store_spec [of k "take 512 (cacheBuffer (dk_world s))" lba] c1 len(2) by (auto simp: Some cache_agrees_def)
    then show ?thesis
      using t(1) f Some by (simp add: hdd_ReadSector_def)
  qed
qed

text \<open>C30. 
  A write to the sector that has been read ahead does not discard the data read ahead: after a read of
  sector \<open>lba\<close>, an idle moment and a successful write of sector \<open>lba + 1\<close>, the next read of that sector succeeds
  with the old data, although the drive holds the new data.
\<close>

theorem stale_read_ahead:
  assumes "hdd_ok s" and "caller_ok cl" and "cl_alive cl 0" and "length buf = 512" and "length new = 512" and "unat lba + 1 < 2 ^ 28"
    and "queueReady s" and "fst (try_cache lba (ensure_cache s)) = None"
  shows "\<exists>s1 q w s3 s4. hdd_ReadSector cl lba buf s = Some (True, sector s lba, s1) \<and>
     idle_round (cl_alive cl) (dk_queue s1) (dk_world s1) = Some (q, w) \<and>
     hdd_WriteSector cl (lba + 1) new (s1\<lparr>dk_queue := q, dk_world := w\<rparr>) = Some (True, s3) \<and> sector s3 (lba + 1) = new \<and>
     hdd_ReadSector cl (lba + 1) buf s3 = Some (True, sector s (lba + 1), s4)"
proof -
  have lba: "unat lba < 2 ^ 28" "unat (lba + 1) < 2 ^ 28"
    using assms(6) by (simp_all add: unat_word_ariths)
  obtain s1 q w where r: "hdd_ReadSector cl lba buf s = Some (True, sector s lba, s1)" "idle_round (cl_alive cl) (dk_queue s1) (dk_world s1) = Some (q, w)"
     "hdd_ok (s1\<lparr>dk_queue := q, dk_world := w\<rparr>)" "sector (s1\<lparr>dk_queue := q, dk_world := w\<rparr>) = sector s" "queueReady s1"
     "op_status (idleOp w) = OpComplete" "op_bus (idleOp w) = hd_bus (dk_dev s1)" "op_busIndex (idleOp w) = hd_index (dk_dev s1)"
     "op_lba (idleOp w) = ucast lba + 1"
    using read_then_idle [OF assms(1-4) lba(1) assms(7,8)] by blast
  define s2 where "s2 = s1\<lparr>dk_queue := q, dk_world := w\<rparr>"
  have ok2: "hdd_ok s2" and sec2: "sector s2 = sector s"
    using r(3,4) by (simp_all add: s2_def)
  obtain q3 w3 where w3: "hdd_WriteSector cl (lba + 1) new s2 = Some (True, (forget_sector (lba + 1) s2)\<lparr>dk_queue := q3, dk_world := write_world s2 (lba + 1) new w3\<rparr>)"
    "oq_ok 256 q3" "oq_contents 256 q3 = []" "idleOp w3 = idleOp w" "cacheBuffer w3 = cacheBuffer w"
    using hdd_WriteSector_runs [OF ok2 assms(2,5), of "lba + 1"] by (auto simp: s2_def)
  define s3 where "s3 = (forget_sector (lba + 1) s2)\<lparr>dk_queue := q3, dk_world := write_world s2 (lba + 1) new w3\<rparr>"
  have new3: "sector s3 (lba + 1) = new"
    by (simp add: sector_def dev_drive_def s3_def forget_sector_def write_world_def set_drive_def)
  have lba1: "(ucast (lba + 1) :: u32) = ucast lba + 1"
    by (simp add: ucast_succ)
  have "read_ahead_of s2 (sector_addr (ucast (lba + 1)))"
    using r(6-9) lba1 by (simp add: read_ahead_of_def s2_def)
  then have old: "take 512 (cacheBuffer w) = sector s (lba + 1)"
    using hdd_okD(2) [OF ok2] sec2 [symmetric] by (simp add: read_ahead_ok_def sector_def s2_def)
  have c3: "cache_agrees (written (sector s2) (lba + 1) new) (hd_cache (dk_dev s3))" and m3: "cache_misses (lba + 1) (hd_cache (dk_dev s3))"
    using cache_agrees_drop [OF _ lba(2)] cache_misses_drop hdd_okD(3) [OF ok2] by (auto simp: s3_def forget_sector_def dev_cache_ok_def)
  obtain s4 where "hdd_ReadSector cl (lba + 1) buf s3 = Some (True, take 512 (cacheBuffer (dk_world s3)), s4)"
    using hdd_read_ahead_hit [OF assms(2,4) _ _ c3 m3] w3 r(5-9) lba1 old sector_length [OF assms(1)]
    by (auto simp: s3_def s2_def forget_sector_def write_world_def set_drive_def)
  then have "hdd_ReadSector cl (lba + 1) buf s3 = Some (True, sector s (lba + 1), s4)"
    using old w3(5) by (simp add: s3_def write_world_def set_drive_def)
  then show ?thesis
    using r(1,2) w3(1) new3 by (intro exI [of _ s1] exI [of _ q] exI [of _ w] exI [of _ s3] exI [of _ s4]) (simp add: s2_def [symmetric] s3_def [symmetric])
qed

theorem stale_read_ahead_witness:
  "\<exists>s1 q w s3 s4. hdd_ReadSector demo_caller 3 (replicate 512 0) demo_disk = Some (True, replicate 512 0, s1) \<and>
     idle_round (cl_alive demo_caller) (dk_queue s1) (dk_world s1) = Some (q, w) \<and>
     hdd_WriteSector demo_caller 4 (replicate 512 7) (s1\<lparr>dk_queue := q, dk_world := w\<rparr>) = Some (True, s3) \<and>
     hdd_ReadSector demo_caller 4 (replicate 512 0) s3 = Some (True, replicate 512 0, s4)"
proof -
  have m: "fst (try_cache 3 (ensure_cache demo_disk)) = None"
    by (simp add: try_cache_def ensure_cache_def demo_disk_def Retrieve_def Cache_new_def Let_def)
  have "sector demo_disk n = replicate 512 0" for n
    by (simp add: sector_def dev_drive_def demo_disk_def demo_world_def)
  then show ?thesis
    using stale_read_ahead [OF demo_disk_ok, of "replicate 512 0" "replicate 512 7" 3] m
    by (auto simp: demo_caller_def demo_disk_def)
qed


section \<open>Asynchronous calls\<close>

text \<open>
  The asynchronous write only looks like a write: the operation that it queues is a read of an optical drive. When the
  caller waits for it, it is told that the write succeeded, and no drive of the machine has changed.
\<close>

theorem async_write_is_lost:
  assumes "hdd_ok s" and "caller_ok cl" and "queueReady s"
  shows "\<exists>op s1 s2. hdd_AsyncWriteSector cl lba buf s = (Inr op, s1) \<and> hdd_Await cl (Inr op) s1 = Some (True, s2) \<and>
     drives (dk_world s2) = drives (dk_world s)"
proof -
  note d = hdd_okD [OF assms(1)]
  define op where "op = enqueue_write_op (cl_addr cl) (hd_bus (dk_dev s)) (hd_index (dk_dev s)) (ucast lba) buf (cl_pid cl) (cl_tid cl)"
  define s1 where "s1 = forget_sector lba s"
  have op: "op_type op = ATAPIRead" "op_status op = OpPending" "op_addr op \<noteq> 0" "cl_alive cl (op_pid op)"
    using assms(2) by (simp_all add: op_def enqueue_write_op_def caller_ok_def)
  obtain op' w' where p: "ata_Process (cl_alive cl) op (dk_world s1) = (True, op', w')" "op_status op' = OpComplete" "drives w' = drives (dk_world s1)"
    using op by (cases "optical (dk_world s1) (op_bus op) (op_busIndex op) (op_lba op)")
      (simp add: ata_Process_def read_ahead_hit_def run_op_def store_op_def)
  have "oq_ok 256 (dk_queue s1)" "oq_contents 256 (dk_queue s1) = []"
    using d(4,5) by (simp_all add: s1_def forget_sector_def)
  then obtain q' where "ata_submit (cl_alive cl) op (dk_queue s1) (dk_world s1) = Some (op', q', w')"
    using ata_submit_alone [OF _ _ _ op(2) p(1)] op(1) by auto
  then have "hdd_Await cl (Inr op) s1 = Some (True, s1\<lparr>dk_queue := q', dk_world := w'\<rparr>)"
    using p(2) by (simp add: hdd_Await_def ata_await_def)
  moreover have "hdd_AsyncWriteSector cl lba buf s = (Inr op, s1)"
    using assms(3) by (simp add: hdd_AsyncWriteSector_def s1_def op_def forget_sector_def Let_def)
  ultimately show ?thesis
    using p(3) by (simp add: s1_def forget_sector_def)
qed

theorem async_write_is_lost_witness:
  "\<exists>op s1 s2. hdd_AsyncWriteSector demo_caller 3 (replicate 512 7) demo_disk = (Inr op, s1) \<and> hdd_Await demo_caller (Inr op) s1 = Some (True, s2) \<and>
     drives (dk_world s2) = drives demo_world"
  using async_write_is_lost [OF demo_disk_ok, of 3 "replicate 512 7"] by (simp add: demo_disk_def)

text \<open>An asynchronous read that the block cache answers is reported as failed.\<close>

lemma async_hit_fails:
  assumes "try_cache lba (ensure_cache s) = (Some b, s1)"
  shows "hdd_AsyncReadSector cl lba buf s = (Inl 0, overlay b buf, s1)" "hdd_Await cl (Inl 0) s1 = Some (False, s1)"
  using assms by (simp_all add: hdd_AsyncReadSector_def hdd_Await_def)

section \<open>Partitions of a disk\<close>

definition pt_lbas :: "mbr_partition \<Rightarrow> u64 set" where
  "pt_lbas p = {n. unat (pt_start p) \<le> unat n \<and> unat n < unat (pt_start p) + unat (pt_sectors p)}"

definition partitions_ok :: "nat \<Rightarrow> mbr_partition list \<Rightarrow> bool" where
  "partitions_ok limit ps \<longleftrightarrow>
     (\<forall>p \<in> set ps. unat (pt_start p) + unat (pt_sectors p) \<le> limit) \<and>
     (\<forall>i < length ps. \<forall>j < length ps. i \<noteq> j \<longrightarrow>
        unat (pt_start (ps ! i)) + unat (pt_sectors (ps ! i)) \<le> unat (pt_start (ps ! j)) \<or>
        unat (pt_start (ps ! j)) + unat (pt_sectors (ps ! j)) \<le> unat (pt_start (ps ! i)))"

text \<open>What the partitions rely on: a device that is an array of sectors, with some sectors not to be written.\<close>

locale sector_device =
  fixes inv :: "'s \<Rightarrow> bool" and content :: "'s \<Rightarrow> u64 \<Rightarrow> block"
    and writable :: "'s \<Rightarrow> u64 \<Rightarrow> bool" and limit :: nat
    and rd :: "u64 \<Rightarrow> 's \<Rightarrow> (bool \<times> block \<times> 's) option" and wr :: "u64 \<Rightarrow> block \<Rightarrow> 's \<Rightarrow> (bool \<times> 's) option"
  assumes small: "limit \<le> 2 ^ 63"
    and read_law: "inv s \<Longrightarrow> unat n < limit \<Longrightarrow> \<exists>s'. rd n s = Some (True, content s n, s') \<and> inv s' \<and> content s' = content s"
    and write_law: "inv s \<Longrightarrow> unat n < limit \<Longrightarrow> writable s n \<Longrightarrow> length b = 512 \<Longrightarrow>
      \<exists>s'. wr n b s = Some (True, s') \<and> inv s' \<and> (\<forall>m. unat m < limit \<longrightarrow> content s' m = (if m = n then b else content s m))"
begin

lemma partition_lba:
  assumes "partitions_ok limit ps" "i < length ps" "n < pt_sectors (ps ! i)"
  shows "unat (pt_start (ps ! i) + n) = unat (pt_start (ps ! i)) + unat n" "unat (pt_start (ps ! i) + n) < limit"
proof -
  have "unat (pt_start (ps ! i)) + unat (pt_sectors (ps ! i)) \<le> limit"
    using assms(1,2) by (simp add: partitions_ok_def)
  then have "unat (pt_start (ps ! i)) + unat n < limit"
    using assms(3) by (simp add: word_less_nat_alt)
  then show "unat (pt_start (ps ! i) + n) = unat (pt_start (ps ! i)) + unat n" "unat (pt_start (ps ! i) + n) < limit"
    using small by (simp_all add: unat_word_ariths)
qed

lemma partition_reads:
  assumes "inv s" "partitions_ok limit ps" "i < length ps" "n < pt_sectors (ps ! i)"
  shows "\<exists>s'. mbr_ReadSector (\<lambda>l. rd l s) fl ps i n = Inr (Some (True, content s (pt_start (ps ! i) + n), s')) \<and> inv s' \<and> content s' = content s"
  using read_law [OF assms(1) partition_lba(2) [OF assms(2-4)]] assms(3,4) by (auto simp: mbr_ReadSector_def)

lemma partitions_apart:
  assumes "partitions_ok limit ps" "i < length ps" "j < length ps" "n < pt_sectors (ps ! i)" "m < pt_sectors (ps ! j)"
  shows "pt_start (ps ! i) + n = pt_start (ps ! j) + m \<longleftrightarrow> i = j \<and> n = m"
proof -
  have "unat n < unat (pt_sectors (ps ! i))" "unat m < unat (pt_sectors (ps ! j))"
    using assms(4,5) by (simp_all add: word_less_nat_alt)
  moreover have "i \<noteq> j \<longrightarrow> unat (pt_start (ps ! i)) + unat (pt_sectors (ps ! i)) \<le> unat (pt_start (ps ! j)) \<or>
        unat (pt_start (ps ! j)) + unat (pt_sectors (ps ! j)) \<le> unat (pt_start (ps ! i))"
    using assms(1-3) by (simp add: partitions_ok_def)
  ultimately have "unat (pt_start (ps ! i)) + unat n = unat (pt_start (ps ! j)) + unat m \<longleftrightarrow> i = j \<and> unat n = unat m"
    by auto
  then show ?thesis
    using partition_lba(1) [OF assms(1,2,4)] partition_lba(1) [OF assms(1,3,5)] by (simp add: word_unat_eq_iff)
qed

lemma partition_write_isolated:
  assumes "inv s" "partitions_ok limit ps" "i < length ps" "n < pt_sectors (ps ! i)" "writable s (pt_start (ps ! i) + n)" "length b = 512"
  shows "\<exists>s'. mbr_WriteSector (\<lambda>l. wr l b s) fl ps i n = Inr (Some (True, s')) \<and> inv s' \<and>
     (\<forall>j < length ps. \<forall>m < pt_sectors (ps ! j). content s' (pt_start (ps ! j) + m) = (if j = i \<and> m = n then b else content s (pt_start (ps ! j) + m)))"
proof -
  obtain s' where s': "wr (pt_start (ps ! i) + n) b s = Some (True, s')" "inv s'"
    "\<forall>m. unat m < limit \<longrightarrow> content s' m = (if m = pt_start (ps ! i) + n then b else content s m)"
    using write_law [OF assms(1) partition_lba(2) [OF assms(2-4)] assms(5,6)] by blast
  have "content s' (pt_start (ps ! j) + m) = (if j = i \<and> m = n then b else content s (pt_start (ps ! j) + m))"
    if "j < length ps" "m < pt_sectors (ps ! j)" for j m
    using s'(3) [rule_format, OF partition_lba(2) [OF assms(2) that]] partitions_apart [OF assms(2) that(1) assms(3) that(2) assms(4)] by simp
  then show ?thesis
    using s'(1,2) assms(3,4) by (auto simp: mbr_WriteSector_def)
qed

text \<open>The sector after the last one is accepted.\<close>

lemma partition_overrun:
  assumes "inv s" "i < length ps" "j < length ps" "0 < pt_sectors (ps ! j)" "partitions_ok limit ps"
    "pt_start (ps ! j) = pt_start (ps ! i) + pt_sectors (ps ! i)" "writable s (pt_start (ps ! j))" "length b = 512"
  shows "\<exists>s'. mbr_WriteSector (\<lambda>l. wr l b s) fl ps i (pt_sectors (ps ! i)) = Inr (Some (True, s')) \<and> content s' (pt_start (ps ! j)) = b"
proof -
  have t: "unat (pt_start (ps ! j)) < limit"
    using partition_lba(2) [OF assms(5,3,4)] by simp
  obtain s' where "wr (pt_start (ps ! j)) b s = Some (True, s')" "content s' (pt_start (ps ! j)) = b"
    using write_law [OF assms(1) t assms(7,8)] t by auto
  then show ?thesis
    using assms(2,6) by (simp add: mbr_WriteSector_def)
qed

end

interpretation hdd: sector_device "\<lambda>s. hdd_ok s \<and> caller_ok cl" sector "\<lambda>s n. \<not> read_ahead_of s (sector_addr (ucast n))" "2 ^ 28"
  "\<lambda>n s. hdd_ReadSector cl n (replicate 512 0) s" "\<lambda>n b s. hdd_WriteSector cl n b s" for cl
proof
  show "(2 ^ 28 :: nat) \<le> 2 ^ 63"
    by simp
  show "\<exists>s'. hdd_ReadSector cl n (replicate 512 0) s = Some (True, sector s n, s') \<and> (hdd_ok s' \<and> caller_ok cl) \<and> sector s' = sector s"
    if "hdd_ok s \<and> caller_ok cl" "unat n < 2 ^ 28" for s n
    using hdd_ReadSector_ok [of s cl "replicate 512 0" n] that by auto
  show "\<exists>s'. hdd_WriteSector cl n b s = Some (True, s') \<and> (hdd_ok s' \<and> caller_ok cl) \<and>
      (\<forall>m. unat m < 2 ^ 28 \<longrightarrow> sector s' m = (if m = n then b else sector s m))"
    if "hdd_ok s \<and> caller_ok cl" "unat n < 2 ^ 28" "\<not> read_ahead_of s (sector_addr (ucast n))" "length b = 512" for s n b
    using hdd_WriteSector_ok [of s cl b n] that sector_addr_inj [OF _ that(2)] by (auto simp: written_def)
qed


text \<open>
  The check of the sector number is off by one: writing the sector whose number is the number of sectors of a
  partition succeeds and overwrites the first sector of the partition that follows it.
\<close>

theorem partition_overruns:
  assumes "hdd_ok s" and "caller_ok cl" and "partitions_ok (2 ^ 28) ps" and "i < length ps" and "j < length ps" and "0 < pt_sectors (ps ! j)"
    and "pt_start (ps ! j) = pt_start (ps ! i) + pt_sectors (ps ! i)" and "\<not> read_ahead_of s (sector_addr (ucast (pt_start (ps ! j))))"
    and "length b = 512"
  shows "\<exists>s'. mbr_WriteSector (\<lambda>l. hdd_WriteSector cl l b s) (Some (False, s)) ps i (pt_sectors (ps ! i)) = Inr (Some (True, s')) \<and>
     sector s' (pt_start (ps ! j)) = b"
  using hdd.partition_overrun [of s cl i ps j b] assms by blast

definition demo_partitions :: "mbr_partition list" where
  "demo_partitions = [\<lparr>pt_start = 63, pt_sectors = 100\<rparr>, \<lparr>pt_start = 163, pt_sectors = 50\<rparr>]"

lemma demo_partitions_ok: "partitions_ok (2 ^ 28) demo_partitions"
  by (simp add: partitions_ok_def demo_partitions_def less_Suc_eq)


theorem partition_overruns_witness:
  "\<exists>s'. mbr_WriteSector (\<lambda>l. hdd_WriteSector demo_caller l (replicate 512 7) demo_disk) (Some (False, demo_disk)) demo_partitions 0 100 = Inr (Some (True, s')) \<and>
     sector s' 163 = replicate 512 7"
proof -
  have "\<not> read_ahead_of demo_disk a" for a
    by (simp add: read_ahead_of_def demo_disk_def demo_world_def sync_op_def)
  then show ?thesis
    using partition_overruns [OF demo_disk_ok demo_partitions_ok, of 0 1 "replicate 512 7"] by (simp add: demo_partitions_def)
qed


section \<open>Partition table\<close>

definition of_entry :: "part_entry \<Rightarrow> mbr_partition" where
  "of_entry e = \<lparr>pt_start = ucast (pe_start_lba e), pt_sectors = ucast (pe_sectors e)\<rparr>"

lemma mbr_entries_ok:
  assumes "mbr_entries sz lim es active ps = (True, active', ps')"
  shows "ps' = ps @ map of_entry (filter (\<lambda>e. pe_system e \<noteq> 0) es) \<and>
    (\<forall>e \<in> set es. pe_boot e \<in> {0, 0x80} \<and> uint (pe_start_lba e * sz) + uint (pe_sectors e * sz) \<le> lim)"
  using assms
  by (induction sz lim es active ps rule: mbr_entries.induct) (auto simp: Let_def of_entry_def split: if_splits)

text \<open>
  A sector is taken for a partition table only with the signature and four entries whose flag is one of the two allowed
  values; the partitions are then the used entries in their order. An entry whose byte offsets fit in 32 bits lies
  within the device.
\<close>

theorem mbr_parse_partitions:
  assumes "mbr_parse sz lim b = (True, ps)"
  shows "le16 b 0x1fe = 0xAA55 \<and> ps = map of_entry (filter (\<lambda>e. pe_system e \<noteq> 0) (map (part_table b) [0, 1, 2, 3])) \<and>
    (\<forall>e \<in> set (map (part_table b) [0, 1, 2, 3]). pe_boot e \<in> {0, 0x80} \<and>
      (uint (pe_start_lba e) * uint sz < 2 ^ 32 \<and> uint (pe_sectors e) * uint sz < 2 ^ 32 \<longrightarrow>
        (uint (pe_start_lba e) + uint (pe_sectors e)) * uint sz \<le> lim))"
proof -
  define es where "es = map (part_table b) [0, 1, 2, 3]"
  obtain active where sig: "le16 b 0x1fe = 0xAA55" and e: "mbr_entries sz lim es 0 [] = (True, active, ps)"
    using assms unfolding mbr_parse_def es_def [symmetric] by (cases "mbr_entries sz lim es 0 []") (simp split: if_splits)
  note ok = mbr_entries_ok [OF e]
  have "(uint (pe_start_lba x) + uint (pe_sectors x)) * uint sz \<le> lim"
    if "x \<in> set es" "uint (pe_start_lba x) * uint sz < 2 ^ 32" "uint (pe_sectors x) * uint sz < 2 ^ 32" for x
  proof -
    have "uint (pe_start_lba x * sz) = uint (pe_start_lba x) * uint sz" "uint (pe_sectors x * sz) = uint (pe_sectors x) * uint sz"
      using that(2,3) by (simp_all add: uint_word_ariths)
    then show ?thesis
      using ok that(1) by (auto simp: distrib_right)
  qed
  then show ?thesis
    using ok sig unfolding es_def [symmetric] by simp
qed

definition demo_mbr :: "u8 list" where
  "demo_mbr = replicate 446 0 @ [0x80, 0, 0, 0, 6, 0, 0, 0, 63, 0, 0, 0, 100, 0, 0, 0] @ replicate 48 0 @ [0x55, 0xAA]"

theorem mbr_parse_partitions_witness:
  "mbr_parse 512 1000000 demo_mbr = (True, [\<lparr>pt_start = 63, pt_sectors = 100\<rparr>]) \<and> le16 demo_mbr 0x1fe = 0xAA55"
proof -
  have b: "demo_mbr ! (446 + k) = [0x80, 0, 0, 0, 6, 0, 0, 0, 63, 0, 0, 0, 100, 0, 0, 0] ! k" if "k < 16" for k
    using that by (simp add: demo_mbr_def nth_append del: append_Cons)
  have z: "demo_mbr ! (462 + k) = 0" if "k < 48" for k
    using that by (simp add: demo_mbr_def nth_append)
  have sg: "demo_mbr ! 510 = 0x55" "demo_mbr ! 511 = 0xAA"
    by (simp_all add: demo_mbr_def nth_append)
  have "mbr_parse 512 1000000 demo_mbr = (True, [\<lparr>pt_start = 63, pt_sectors = 100\<rparr>])"
    using b [of 0] b [of 4] b [of 8] b [of 9] b [of 10] b [of 11] b [of 12] b [of 13] b [of 14] b [of 15] sg
      z [of 0] z [of 4] z [of 8] z [of 9] z [of 10] z [of 11] z [of 12] z [of 13] z [of 14] z [of 15]
      z [of 16] z [of 20] z [of 24] z [of 25] z [of 26] z [of 27] z [of 28] z [of 29] z [of 30] z [of 31]
      z [of 32] z [of 36] z [of 40] z [of 41] z [of 42] z [of 43] z [of 44] z [of 45] z [of 46] z [of 47]
    by (simp add: mbr_parse_def part_table_def le16_def le32_def)
  then show ?thesis
    using mbr_parse_partitions [of 512 1000000 demo_mbr] by blast
qed

text \<open>An entry far beyond the end of the device is accepted when its byte offset wraps around.\<close>

lemma mbr_entry_beyond_device:
  "mbr_entries 512 1048576 [\<lparr>pe_boot = 0x80, pe_system = 6, pe_start_lba = 0x800001, pe_sectors = 100\<rparr>] 0 []
    = (True, 1, [\<lparr>pt_start = 0x800001, pt_sectors = 100\<rparr>])"
  by simp

end
