(* ===== verification/Spec2Isabelle.thy ===== *)
theory Spec2Isabelle
  imports Atoms Handles Kstring Messaging Registries Scheduler Vfs Processes Page_Directory Rtc User_Memory Block_Cache Operation_Queue Disk
begin

text \<open>
  A verification development for BT/OS, a 32-bit x86 hobby operating system: its
  kernel (src/src/kernel), the containers it is built on (src/src/include/util) and
  some of its loadable modules (src/src/modules).

  \<^bold>\<open>Library.\<close>
  \<^item> Kernel_Prelude: machine integers, failure values, list and word facts.
  \<^item> Ministl: the kernel's own \<open>vector\<close> and \<open>map\<close> templates, and the locale of
    key/value stores that their clients rely on.
\<close>

end
